(* ===== verification/Utf8.thy ===== *)
theory Utf8
  imports Kit_Prelude
begin

text \<open>
  The part of \<open>unicode/utf8\<close> the JSON encoder, the JSON decoder and the log bridge rely on, on byte lists. \<open>rune_len\<close> is the
  size \<open>utf8.DecodeRune\<close> returns for a well-formed encoding at the head of a string, with 0 for the case it answers
  with \<open>RuneError\<close> and size 1 (or size 0 on the empty string); \<open>encode_rune\<close> is \<open>utf8.AppendRune\<close>.
\<close>

definition is_cont :: "char \<Rightarrow> bool" where
  "is_cont c \<longleftrightarrow> 128 \<le> code_of c \<and> code_of c < 192"

text \<open>\<open>utf8.RuneStart\<close>.\<close>

definition RuneStart :: "char \<Rightarrow> bool" where
  "RuneStart c \<longleftrightarrow> \<not> is_cont c"

text \<open>Which second byte a leading byte admits: no overlong forms, no surrogates, nothing above U+10FFFF.\<close>

definition second_ok :: "char \<Rightarrow> char \<Rightarrow> bool" where
  "second_ok c a \<longleftrightarrow> is_cont a \<and>
     (code_of c = 224 \<longrightarrow> 160 \<le> code_of a) \<and> (code_of c = 237 \<longrightarrow> code_of a < 160) \<and>
     (code_of c = 240 \<longrightarrow> 144 \<le> code_of a) \<and> (code_of c = 244 \<longrightarrow> code_of a < 144)"

fun rune_len :: "string \<Rightarrow> nat" where
  "rune_len [] = 0"
| "rune_len (c # s) =
     (if code_of c < 128 then 1
      else if 194 \<le> code_of c \<and> code_of c < 224 then (case s of a # _ \<Rightarrow> if second_ok c a then 2 else 0 | _ \<Rightarrow> 0)
      else if 224 \<le> code_of c \<and> code_of c < 240 then
        (case s of a # b # _ \<Rightarrow> if second_ok c a \<and> is_cont b then 3 else 0 | _ \<Rightarrow> 0)
      else if 240 \<le> code_of c \<and> code_of c < 245 then
        (case s of a # b # d # _ \<Rightarrow> if second_ok c a \<and> is_cont b \<and> is_cont d then 4 else 0 | _ \<Rightarrow> 0)
      else 0)"

declare rune_len.simps(2) [simp del]

text \<open>\<open>utf8.ValidString\<close>.\<close>

function valid_utf8 :: "string \<Rightarrow> bool" where
  "valid_utf8 s =
     (if s = [] then True else if rune_len s = 0 then False else valid_utf8 (drop (rune_len s) s))"
  by pat_completeness auto
termination
  by (relation "measure length") auto

declare valid_utf8.simps [simp del]

text \<open>The bytes of U+FFFD, and a string with every malformed byte replaced by them (\<open>strings.ToValidUTF8\<close>, byte by byte).\<close>

definition replacement :: string where
  "replacement = [CHR 0xEF, CHR 0xBF, CHR 0xBD]"

function to_valid :: "string \<Rightarrow> string" where
  "to_valid s =
     (if s = [] then []
      else if rune_len s = 0 then replacement @ to_valid (tl s)
      else take (rune_len s) s @ to_valid (drop (rune_len s) s))"
  by pat_completeness auto
termination
  by (relation "measure length") auto

declare to_valid.simps [simp del]

text \<open>Surrogates and values above U+10FFFF are encoded as U+FFFD.\<close>

definition encode_rune :: "nat \<Rightarrow> string" where
  "encode_rune r =
     (if r < 128 then [char_of r]
      else if r < 2048 then [char_of (192 + r div 64), char_of (128 + r mod 64)]
      else if 55296 \<le> r \<and> r < 57344 then replacement
      else if r < 65536 then [char_of (224 + r div 4096), char_of (128 + r div 64 mod 64), char_of (128 + r mod 64)]
      else if r < 1114112 then
        [char_of (240 + r div 262144), char_of (128 + r div 4096 mod 64), char_of (128 + r div 64 mod 64), char_of (128 + r mod 64)]
      else replacement)"

subsection \<open>Laws\<close>

lemma code_of_less [simp]: "code_of c < 256"
  by (simp add: code_of_def)

lemma char_of_code_of [simp]: "char_of (code_of c) = c"
  by (simp add: code_of_def)

lemma code_of_char_of [simp]: "n < 256 \<Longrightarrow> code_of (char_of n) = n"
  by (simp add: code_of_def)

lemma rune_len_le: "rune_len s \<le> length s"
  by (cases s) (auto simp: rune_len.simps(2) split: list.split)

lemma rune_len_le4: "rune_len s \<le> 4"
  by (cases s) (auto simp: rune_len.simps(2) split: list.split)

lemma rune_len_append: "rune_len s \<noteq> 0 \<Longrightarrow> rune_len (s @ r) = rune_len s"
  by (cases s) (auto simp: rune_len.simps(2) split: list.splits if_splits)

lemma rune_len_take: "rune_len s \<noteq> 0 \<Longrightarrow> rune_len (take (rune_len s) s) = rune_len s"
  by (cases s) (auto simp: rune_len.simps(2) split: list.splits if_splits)

lemma rune_len_take_append [simp]: "rune_len s \<noteq> 0 \<Longrightarrow> rune_len (take (rune_len s) s @ r) = rune_len s"
  by (simp add: rune_len_append rune_len_take)

lemma length_take_rune_len [simp]: "length (take (rune_len s) s) = rune_len s"
  using rune_len_le [of s] by simp

text \<open>A well-formed encoding is one ASCII byte, or a leading byte followed by continuation bytes.\<close>

lemma rune_cases:
  assumes "rune_len s \<noteq> 0"
  obtains (ascii) c where "take (rune_len s) s = [c]" "code_of c < 128"
    | (multi) c cs where "take (rune_len s) s = c # cs" "cs \<noteq> []" "194 \<le> code_of c" "list_all is_cont cs"
proof (cases s)
  case Nil
  then show ?thesis using assms by simp
next
  case (Cons c s')
  consider "code_of c < 128"
    | "194 \<le> code_of c" "\<exists>n. rune_len s = Suc (Suc n) \<and> Suc n \<le> length s' \<and> list_all is_cont (take (Suc n) s')"
    using assms by (auto simp: Cons rune_len.simps(2) second_ok_def numeral_eq_Suc split: list.splits if_splits)
  then show ?thesis
  proof cases
    case 1
    then show ?thesis using ascii [of c] by (simp add: Cons rune_len.simps(2))
  next
    case 2
    then obtain n where n: "rune_len s = Suc (Suc n)" "Suc n \<le> length s'" "list_all is_cont (take (Suc n) s')" by blast
    show ?thesis
      by (rule multi [of c "take (Suc n) s'"]) (use n 2 in \<open>auto simp: Cons\<close>)
  qed
qed

lemma rune_tail_cont:
  assumes "0 < i" "i < rune_len s"
  shows "is_cont (s ! i)"
proof -
  have "rune_len s \<noteq> 0" using assms by simp
  then show ?thesis
  proof (cases rule: rune_cases)
    case (ascii c)
    then show ?thesis using assms by (metis One_nat_def length_take_rune_len length_Cons less_one list.size(3) not_less_eq)
  next
    case (multi c cs)
    then have "s ! i = cs ! (i - 1)" "i - 1 < length cs"
      using assms length_take_rune_len [of s] by (metis nth_Cons_pos nth_take, simp)
    then show ?thesis using multi by (simp add: list_all_length)
  qed
qed

lemma rune_head_start: "rune_len s \<noteq> 0 \<Longrightarrow> RuneStart (hd s)"
  by (cases s) (auto simp: rune_len.simps(2) RuneStart_def is_cont_def split: if_splits)

lemma valid_utf8_Nil [simp]: "valid_utf8 []"
  by (simp add: valid_utf8.simps)

lemma valid_utf8_step: "s \<noteq> [] \<Longrightarrow> valid_utf8 s \<longleftrightarrow> rune_len s \<noteq> 0 \<and> valid_utf8 (drop (rune_len s) s)"
  by (subst valid_utf8.simps) simp

lemma to_valid_Nil [simp]: "to_valid [] = []"
  by (simp add: to_valid.simps)

lemma to_valid_id [simp]: "valid_utf8 s \<Longrightarrow> to_valid s = s"
proof (induction s rule: to_valid.induct)
  case (1 s)
  show ?case
  proof (cases "s = []")
    case False
    then have "rune_len s \<noteq> 0" "valid_utf8 (drop (rune_len s) s)" using 1(3) by (simp_all add: valid_utf8_step)
    then show ?thesis using 1(2) False by (subst to_valid.simps) simp
  qed simp
qed

lemma valid_utf8_rune_append:
  assumes "rune_len s \<noteq> 0" "valid_utf8 r"
  shows "valid_utf8 (take (rune_len s) s @ r)"
  using assms by (subst valid_utf8.simps) (simp add: rune_len_le)

lemma valid_utf8_to_valid: "valid_utf8 (to_valid s)"
proof (induction s rule: to_valid.induct)
  case (1 s)
  consider "s = []" | "s \<noteq> []" "rune_len s = 0" | "s \<noteq> []" "rune_len s \<noteq> 0" by blast
  then show ?case
  proof cases
    case 2
    have r: "rune_len replacement = 3" "take 3 replacement = replacement" by code_simp+
    show ?thesis
      using 1(1) [OF 2] 2 valid_utf8_rune_append [of replacement "to_valid (tl s)"]
      by (subst to_valid.simps) (simp add: r)
  next
    case 3
    then show ?thesis using 1(2) by (subst to_valid.simps) (simp add: valid_utf8_rune_append)
  qed simp
qed

lemma valid_utf8_append: "valid_utf8 s \<Longrightarrow> valid_utf8 r \<Longrightarrow> valid_utf8 (s @ r)"
proof (induction s rule: valid_utf8.induct)
  case (1 s)
  show ?case
  proof (cases "s = []")
    case False
    then have n: "rune_len s \<noteq> 0" "valid_utf8 (drop (rune_len s) s)" using 1(2) by (simp_all add: valid_utf8_step)
    then have "valid_utf8 (drop (rune_len s) s @ r)" using 1(1,3) False by blast
    then have "valid_utf8 (take (rune_len s) s @ drop (rune_len s) s @ r)" using n(1) by (intro valid_utf8_rune_append)
    then show ?thesis by (simp only: append_assoc [symmetric] append_take_drop_id)
  qed (simp add: 1)
qed

lemma valid_utf8_ascii: "list_all (\<lambda>c. code_of c < 128) s \<Longrightarrow> valid_utf8 s"
  by (induction s) (auto simp: valid_utf8_step rune_len.simps(2))

end
