(* ===== verification/Json_String.thy ===== *)
theory Json_String
  imports Utf8
begin

text \<open>
  The string literals of \<open>encoding/json\<close>. A literal is unquoted while it is scanned: escapes, surrogate pairs, U+FFFD for
  malformed UTF-8, and an error for control characters. \<open>quote\<close> is the encoder, with the escaping \<open>json.Marshal\<close> applies
  (HTML characters and the two separators included). The laws: unquoting a quoted string gives the string back, malformed bytes
  replaced, and a quoted string holds no control character.
\<close>

subsection \<open>Unquoting\<close>

definition unescape_char :: "char \<Rightarrow> char option" where
  "unescape_char e =
     (if e = CHR 0x22 \<or> e = CHR 0x5C \<or> e = CHR ''/'' then Some e
      else if e = CHR ''b'' then Some (CHR 0x08)
      else if e = CHR ''f'' then Some (CHR 0x0C)
      else if e = CHR ''n'' then Some (CHR 0x0A)
      else if e = CHR ''r'' then Some (CHR 0x0D)
      else if e = CHR ''t'' then Some (CHR 0x09)
      else None)"

fun hex4 :: "string \<Rightarrow> (nat \<times> string) option" where
  "hex4 (a # b # c # d # s) =
     (case (unhex a, unhex b, unhex c, unhex d) of
        (Some h3, Some h2, Some h1, Some h0) \<Rightarrow> Some (4096 * h3 + 256 * h2 + 16 * h1 + h0, s)
      | _ \<Rightarrow> None)"
| "hex4 _ = None"

definition is_surrogate :: "nat \<Rightarrow> bool" where
  "is_surrogate r \<longleftrightarrow> 55296 \<le> r \<and> r < 57344"

text \<open>\<open>getu4\<close> on what follows a surrogate: the low half of a pair, if it is one.\<close>

definition low_half :: "nat \<Rightarrow> string \<Rightarrow> (nat \<times> string) option" where
  "low_half r s =
     (case s of
        c # u # s' \<Rightarrow>
          if c = CHR 0x5C \<and> u = CHR ''u'' then
            (case hex4 s' of
               Some (r1, rest) \<Rightarrow>
                 if r < 56320 \<and> 56320 \<le> r1 \<and> r1 < 57344
                 then Some ((r - 55296) * 1024 + (r1 - 56320) + 65536, rest) else None
             | None \<Rightarrow> None)
          else None
      | _ \<Rightarrow> None)"

lemma hex4_length: "hex4 s = Some (r, rest) \<Longrightarrow> length rest < length s"
  by (cases s rule: hex4.cases) (auto split: option.splits)

lemma low_half_length: "low_half r s = Some (r', rest) \<Longrightarrow> length rest < length s"
  by (auto simp: low_half_def split: list.splits if_splits option.splits dest: hex4_length)

text \<open>
  One element of the body of a string literal, with the bytes it stands for: an escape, a well-formed rune, or a
  malformed byte. A control character, an unknown escape and the end of the document are errors.
\<close>

definition scan_escape :: "string \<Rightarrow> (string \<times> string) option" where
  "scan_escape s =
     (case s of
        [] \<Rightarrow> None
      | e # s1 \<Rightarrow>
          if e = CHR ''u'' then
            (case hex4 s1 of
               None \<Rightarrow> None
             | Some (r, s2) \<Rightarrow>
                 if is_surrogate r then
                   (case low_half r s2 of
                      Some (r', s3) \<Rightarrow> Some (encode_rune r', s3)
                    | None \<Rightarrow> Some (replacement, s2))
                 else Some (encode_rune r, s2))
          else map_option (\<lambda>x. ([x], s1)) (unescape_char e))"

definition scan_char :: "string \<Rightarrow> (string \<times> string) option" where
  "scan_char s =
     (case s of
        [] \<Rightarrow> None
      | c # s1 \<Rightarrow>
          if c = CHR 0x5C then scan_escape s1
          else if code_of c < 32 then None
          else if rune_len s = 0 then Some (replacement, s1)
          else Some (take (rune_len s) s, drop (rune_len s) s))"

lemma scan_escape_length: "scan_escape s = Some (x, r) \<Longrightarrow> length r < length s"
  by (auto simp: scan_escape_def split: list.splits if_splits option.splits dest!: hex4_length low_half_length)

lemma scan_char_length: "scan_char s = Some (x, r) \<Longrightarrow> length r < length s"
  by (auto simp: scan_char_def split: list.splits if_splits dest!: scan_escape_length)

text \<open>The body of a string literal, from after its opening quote: the string and what follows the closing quote.\<close>

function scan_string :: "string \<Rightarrow> (string \<times> string) option" where
  "scan_string s =
     (if s \<noteq> [] \<and> hd s = CHR 0x22 then Some ([], tl s)
      else case scan_char s of
        None \<Rightarrow> None
      | Some (x, r) \<Rightarrow> map_option (apfst ((@) x)) (scan_string r))"
  by pat_completeness auto
termination
  by (relation "measure length") (auto dest: scan_char_length)

declare scan_string.simps [simp del]

lemma scan_string_length: "scan_string s = Some p \<Longrightarrow> length (snd p) < length s"
proof (induction s arbitrary: p rule: scan_string.induct)
  case (1 s)
  show ?case
  proof (cases "s \<noteq> [] \<and> hd s = CHR 0x22")
    case True
    then have "scan_string s = Some ([], tl s)" by (subst scan_string.simps) simp
    then show ?thesis using True 1(2) by auto
  next
    case False
    have "scan_string s = (case scan_char s of None \<Rightarrow> None | Some (x, r) \<Rightarrow> map_option (apfst ((@) x)) (scan_string r))"
      by (subst scan_string.simps, rule if_not_P, rule False)
    then have "(case scan_char s of None \<Rightarrow> None | Some (x, r) \<Rightarrow> map_option (apfst ((@) x)) (scan_string r)) = Some p"
      using 1(2) by simp
    then obtain x r q where found: "scan_char s = Some (x, r)" "scan_string r = Some q" "p = apfst ((@) x) q"
      by (auto split: option.splits)
    have "length (snd q) < length r" using 1(1) [OF False found(1) refl found(2)] .
    then show ?thesis using scan_char_length [OF found(1)] found(3) by simp
  qed
qed

subsection \<open>Quoting\<close>

definition hexdigit :: "nat \<Rightarrow> char" where
  "hexdigit n = ''0123456789abcdef'' ! n"

definition escape_byte :: "char \<Rightarrow> string" where
  "escape_byte c =
     (if c = CHR 0x22 \<or> c = CHR 0x5C then [CHR 0x5C, c]
      else if c = CHR 0x08 then [CHR 0x5C, CHR ''b'']
      else if c = CHR 0x0C then [CHR 0x5C, CHR ''f'']
      else if c = CHR 0x0A then [CHR 0x5C, CHR ''n'']
      else if c = CHR 0x0D then [CHR 0x5C, CHR ''r'']
      else if c = CHR 0x09 then [CHR 0x5C, CHR ''t'']
      else if code_of c < 32 \<or> c = CHR ''<'' \<or> c = CHR ''>'' \<or> c = CHR ''&''
        then CHR 0x5C # ''u00'' @ [hexdigit (code_of c div 16), hexdigit (code_of c mod 16)]
      else [c])"

text \<open>One well-formed rune; the line and paragraph separators are escaped too.\<close>

definition quote_rune :: "string \<Rightarrow> string" where
  "quote_rune r =
     (case r of
        [c] \<Rightarrow> escape_byte c
      | _ \<Rightarrow>
          if r = [CHR 0xE2, CHR 0x80, CHR 0xA8] then CHR 0x5C # ''u2028''
          else if r = [CHR 0xE2, CHR 0x80, CHR 0xA9] then CHR 0x5C # ''u2029''
          else r)"

function quote_body :: "string \<Rightarrow> string" where
  "quote_body s =
     (if s = [] then []
      else if rune_len s = 0 then CHR 0x5C # ''ufffd'' @ quote_body (tl s)
      else quote_rune (take (rune_len s) s) @ quote_body (drop (rune_len s) s))"
  by pat_completeness auto
termination
  by (relation "measure length") auto

declare quote_body.simps [simp del]

definition quote :: "string \<Rightarrow> string" where
  "quote s = CHR 0x22 # quote_body s @ [CHR 0x22]"

subsection \<open>Unquoting undoes quoting\<close>

lemma unhex_hexdigit: "n < 16 \<Longrightarrow> unhex (hexdigit n) = Some n"
proof -
  have "\<forall>n \<in> set [0..<16]. unhex (hexdigit n) = Some n" by code_simp
  then show "n < 16 \<Longrightarrow> unhex (hexdigit n) = Some n" by simp
qed

lemma unhex_0: "unhex (CHR ''0'') = Some 0"
  by code_simp

lemma scan_escape_u00:
  assumes "n < 128"
  shows "scan_escape (''u00'' @ hexdigit (n div 16) # hexdigit (n mod 16) # r) = Some ([char_of n], r)"
proof -
  have "hex4 (''00'' @ hexdigit (n div 16) # hexdigit (n mod 16) # r) = Some (n, r)"
    using assms by (simp add: unhex_hexdigit unhex_0)
  then show ?thesis using assms by (simp add: scan_escape_def is_surrogate_def encode_rune_def)
qed

lemma unescape_char_laws:
  "unescape_char (CHR 0x22) = Some (CHR 0x22)" "unescape_char (CHR 0x5C) = Some (CHR 0x5C)"
  "unescape_char (CHR ''b'') = Some (CHR 0x08)" "unescape_char (CHR ''f'') = Some (CHR 0x0C)"
  "unescape_char (CHR ''n'') = Some (CHR 0x0A)" "unescape_char (CHR ''r'') = Some (CHR 0x0D)"
  "unescape_char (CHR ''t'') = Some (CHR 0x09)"
  by code_simp+

lemma scan_char_escape: "scan_char (CHR 0x5C # s) = scan_escape s"
  by (simp add: scan_char_def)

lemma scan_char_ascii:
  "32 \<le> code_of c \<Longrightarrow> code_of c < 128 \<Longrightarrow> c \<noteq> CHR 0x5C \<Longrightarrow> scan_char (c # s) = Some ([c], s)"
  by (simp add: scan_char_def rune_len.simps)

lemma scan_escape_byte:
  assumes "code_of c < 128"
  shows "scan_char (escape_byte c @ r) = Some ([c], r)"
  using assms scan_escape_u00 [OF assms, of r] scan_char_ascii [of c r]
  by (auto simp: escape_byte_def scan_char_escape scan_escape_def unescape_char_laws)

lemma scan_char_multi:
  assumes "rune_len s \<noteq> 0" "take (rune_len s) s = c # cs" "194 \<le> code_of c"
  shows "scan_char (take (rune_len s) s @ r) = Some (take (rune_len s) s, r)"
proof -
  have "c \<noteq> CHR 0x5C" using assms(3) by (auto simp: code_of_def)
  moreover have "rune_len (take (rune_len s) s @ r) = rune_len s" using assms(1) by (rule rune_len_take_append)
  moreover have "take (rune_len s) s @ r = c # (cs @ r)" using assms(2) by simp
  ultimately show ?thesis
    using assms by (simp add: scan_char_def) (metis append_eq_conv_conj length_take_rune_len append_Cons)
qed

lemma encode_rune_escapes:
  "encode_rune 8232 = [CHR 0xE2, CHR 0x80, CHR 0xA8]" "encode_rune 8233 = [CHR 0xE2, CHR 0x80, CHR 0xA9]"
  "encode_rune 65533 = replacement"
  by (simp_all add: encode_rune_def replacement_def char_of_eq_iff)

lemma scan_quote_rune:
  assumes "rune_len s \<noteq> 0"
  shows "scan_char (quote_rune (take (rune_len s) s) @ r) = Some (take (rune_len s) s, r)"
  using assms
proof (cases rule: rune_cases)
  case (ascii c)
  then show ?thesis by (simp add: quote_rune_def scan_escape_byte)
next
  case (multi c cs)
  have sep: "scan_char (CHR 0x5C # ''u2028'' @ r) = Some ([CHR 0xE2, CHR 0x80, CHR 0xA8], r)"
    "scan_char (CHR 0x5C # ''u2029'' @ r) = Some ([CHR 0xE2, CHR 0x80, CHR 0xA9], r)" for r
    by (simp_all add: scan_char_escape scan_escape_def is_surrogate_def encode_rune_escapes unhex_def is_digit_def code_of_def)
  from multi have "quote_rune (take (rune_len s) s) \<noteq> take (rune_len s) s \<Longrightarrow>
      take (rune_len s) s = [CHR 0xE2, CHR 0x80, CHR 0xA8] \<or> take (rune_len s) s = [CHR 0xE2, CHR 0x80, CHR 0xA9]"
    by (auto simp: quote_rune_def split: list.splits if_splits)
  then show ?thesis
    using sep [of r] scan_char_multi [OF assms multi(1,3)] by (cases "quote_rune (take (rune_len s) s) = take (rune_len s) s")
      (auto simp: quote_rune_def)
qed

lemma scan_ufffd: "scan_char (CHR 0x5C # ''ufffd'' @ r) = Some (replacement, r)"
  by (simp add: scan_char_escape scan_escape_def is_surrogate_def encode_rune_escapes unhex_def is_digit_def code_of_def)

lemma scan_string_quote_end [simp]: "scan_string (CHR 0x22 # s) = Some ([], s)"
  by (simp add: scan_string.simps)

lemma scan_string_char:
  "scan_char s = Some (x, r) \<Longrightarrow> hd s \<noteq> CHR 0x22 \<Longrightarrow> scan_string s = map_option (apfst ((@) x)) (scan_string r)"
  by (subst scan_string.simps) simp

lemma hd_quote_rune:
  assumes "rune_len s \<noteq> 0"
  shows "hd (quote_rune (take (rune_len s) s) @ r) \<noteq> CHR 0x22"
  using assms
proof (cases rule: rune_cases)
  case (ascii c)
  then show ?thesis by (auto simp: quote_rune_def escape_byte_def)
next
  case (multi c cs)
  then have "c \<noteq> CHR 0x22" by (auto simp: code_of_def)
  then show ?thesis using multi by (auto simp: quote_rune_def split: list.split)
qed

lemma scan_quote_body: "scan_string (quote_body s @ CHR 0x22 # r) = Some (to_valid s, r)"
proof (induction s rule: quote_body.induct)
  case (1 s)
  consider "s = []" | "s \<noteq> []" "rune_len s = 0" | "s \<noteq> []" "rune_len s \<noteq> 0" by blast
  then show ?case
  proof cases
    case 1
    then show ?thesis by (simp add: quote_body.simps)
  next
    case 2
    then show ?thesis
      using 1(1) scan_string_char [OF scan_ufffd, of "quote_body (tl s) @ CHR 0x22 # r"]
      by (simp add: quote_body.simps [of s] to_valid.simps [of s])
  next
    case 3
    then show ?thesis
      using 1(2) scan_string_char [OF scan_quote_rune hd_quote_rune, of s "quote_body (drop (rune_len s) s) @ CHR 0x22 # r"]
      by (simp add: quote_body.simps [of s] to_valid.simps [of s])
  qed
qed

text \<open>No byte of a quoted string is a control character, so a quoted string is one line.\<close>

lemma hexdigit_printable: "n < 16 \<Longrightarrow> 32 \<le> code_of (hexdigit n)"
proof -
  have "\<forall>n \<in> set [0..<16]. 32 \<le> code_of (hexdigit n)" by code_simp
  then show "n < 16 \<Longrightarrow> 32 \<le> code_of (hexdigit n)" by simp
qed

lemma escape_byte_printable: "code_of c < 128 \<Longrightarrow> list_all (\<lambda>x. 32 \<le> code_of x) (escape_byte c)"
  using hexdigit_printable [of "code_of c div 16"] hexdigit_printable [of "code_of c mod 16"]
  by (auto simp: escape_byte_def code_of_def)

lemma quote_rune_printable:
  assumes "rune_len s \<noteq> 0"
  shows "list_all (\<lambda>x. 32 \<le> code_of x) (quote_rune (take (rune_len s) s))"
  using assms
proof (cases rule: rune_cases)
  case (ascii c)
  then show ?thesis by (simp add: quote_rune_def escape_byte_printable)
next
  case (multi c cs)
  have "list_all (\<lambda>x. 32 \<le> code_of x) cs" using multi(4) by (auto simp: list_all_iff is_cont_def)
  then have "list_all (\<lambda>x. 32 \<le> code_of x) (c # cs)" using multi(3) by simp
  then show ?thesis using multi(1,2) by (auto simp: quote_rune_def code_of_def split: list.split)
qed

lemma quote_body_printable: "list_all (\<lambda>x. 32 \<le> code_of x) (quote_body s)"
proof (induction s rule: quote_body.induct)
  case (1 s)
  have u: "list_all (\<lambda>x. 32 \<le> code_of x) (CHR 0x5C # ''ufffd'')" by code_simp
  show ?case
    using 1 quote_rune_printable [of s] u by (subst quote_body.simps) simp
qed

lemma quote_printable: "list_all (\<lambda>x. 32 \<le> code_of x) (quote s)"
proof -
  have "32 \<le> code_of (CHR 0x22)" by code_simp
  then show ?thesis by (simp add: quote_def quote_body_printable)
qed

end
