(* ===== verification/Json.thy ===== *)
theory Json
  imports Json_String
begin

text \<open>
  Documents of \<open>encoding/json\<close>. A document is lexed into tokens, and the tokens drive a machine with a stack of open arrays
  and objects, as the scanner of the package does, with its limit on nesting; a syntax error is \<open>None\<close>. Number literals stay
  texts until a destination asks for a number. \<open>field_of\<close> is how a member name selects a field of a destination struct. The laws
  say how the machine runs over the tokens of a value inside a larger document.
\<close>

datatype json =
    JNull
  | JBool bool
  | JNum string
  | JStr string
  | JArr "json list"
  | JObj "(string \<times> json) list"

subsection \<open>Tokens\<close>

datatype tok = LBrace | RBrace | LBrack | RBrack | Colon | Comma | TStr string | TVal json

definition is_space :: "char \<Rightarrow> bool" where
  "is_space c \<longleftrightarrow> c = CHR 0x20 \<or> c = CHR 0x09 \<or> c = CHR 0x0D \<or> c = CHR 0x0A"

text \<open>The parts of a number literal: each takes what it can from the front and leaves the rest.\<close>

definition int_part :: "string \<Rightarrow> (string \<times> string) option" where
  "int_part s =
     (case s of
        [] \<Rightarrow> None
      | c # r \<Rightarrow>
          if c = CHR ''0'' then Some ([c], r)
          else if is_digit c then Some (takeWhile is_digit s, dropWhile is_digit s)
          else None)"

definition frac_part :: "string \<Rightarrow> (string \<times> string) option" where
  "frac_part s =
     (case s of
        [] \<Rightarrow> Some ([], [])
      | c # r \<Rightarrow>
          if c \<noteq> CHR ''.'' then Some ([], s)
          else if takeWhile is_digit r = [] then None
          else Some (c # takeWhile is_digit r, dropWhile is_digit r))"

definition exp_part :: "string \<Rightarrow> (string \<times> string) option" where
  "exp_part s =
     (case s of
        [] \<Rightarrow> Some ([], [])
      | c # r \<Rightarrow>
          if c \<noteq> CHR ''e'' \<and> c \<noteq> CHR ''E'' then Some ([], s)
          else
            (let sg = takeWhile (\<lambda>x. x = CHR ''+'' \<or> x = CHR ''-'') (take 1 r);
                 ds = drop (length sg) r
             in if takeWhile is_digit ds = [] then None
                else Some (c # sg @ takeWhile is_digit ds, dropWhile is_digit ds)))"

definition lex_number :: "string \<Rightarrow> (string \<times> string) option" where
  "lex_number s =
     (let sg = takeWhile (\<lambda>x. x = CHR ''-'') (take 1 s) in
      case int_part (drop (length sg) s) of
        None \<Rightarrow> None
      | Some (i, s1) \<Rightarrow>
          (case frac_part s1 of
             None \<Rightarrow> None
           | Some (f, s2) \<Rightarrow>
               (case exp_part s2 of
                  None \<Rightarrow> None
                | Some (e, s3) \<Rightarrow> Some (sg @ i @ f @ e, s3))))"

definition lex_tok :: "string \<Rightarrow> (tok \<times> string) option" where
  "lex_tok s =
     (case s of
        [] \<Rightarrow> None
      | c # r \<Rightarrow>
          if c = CHR ''{'' then Some (LBrace, r)
          else if c = CHR ''}'' then Some (RBrace, r)
          else if c = CHR ''['' then Some (LBrack, r)
          else if c = CHR '']'' then Some (RBrack, r)
          else if c = CHR '':'' then Some (Colon, r)
          else if c = CHR '','' then Some (Comma, r)
          else if c = CHR 0x22 then map_option (apfst TStr) (scan_string r)
          else if HasPrefix s ''null'' then Some (TVal JNull, drop 4 s)
          else if HasPrefix s ''true'' then Some (TVal (JBool True), drop 4 s)
          else if HasPrefix s ''false'' then Some (TVal (JBool False), drop 5 s)
          else map_option (apfst (TVal \<circ> JNum)) (lex_number s))"

lemma int_part_length: "int_part s = Some (i, r) \<Longrightarrow> length r < length s"
  by (auto simp: int_part_def split: list.splits if_splits)
    (metis dropWhile.simps(2) length_dropWhile_le le_imp_less_Suc)

lemma frac_part_length: "frac_part s = Some (i, r) \<Longrightarrow> length r \<le> length s"
  using length_dropWhile_le [of is_digit "tl s"] by (auto simp: frac_part_def split: list.splits if_splits)

lemma exp_part_length: "exp_part s = Some (i, r) \<Longrightarrow> length r \<le> length s"
  using length_dropWhile_le [of is_digit "drop (length (takeWhile (\<lambda>x. x = CHR ''+'' \<or> x = CHR ''-'') (take 1 (tl s)))) (tl s)"]
  by (auto simp: exp_part_def Let_def split: list.splits if_splits)

lemma lex_number_length: "lex_number s = Some (n, r) \<Longrightarrow> length r < length s"
  by (auto simp: lex_number_def Let_def split: option.splits
      dest!: int_part_length frac_part_length exp_part_length) arith

lemma lex_tok_length: "lex_tok s = Some (t, r) \<Longrightarrow> length r < length s"
  by (auto simp: lex_tok_def split: list.splits if_splits dest!: lex_number_length scan_string_length)

function tokenize :: "string \<Rightarrow> tok list option" where
  "tokenize s =
     (if s = [] then Some []
      else if is_space (hd s) then tokenize (tl s)
      else case lex_tok s of
        None \<Rightarrow> None
      | Some (t, r) \<Rightarrow> map_option ((#) t) (tokenize r))"
  by pat_completeness auto
termination
  by (relation "measure length") (auto dest: lex_tok_length)

declare tokenize.simps [simp del]

subsection \<open>The machine\<close>

text \<open>
  What the machine expects next: a value; a value or the end of the array just opened; a member name (or, directly after
  the brace, the end of the object); the colon after a name; or, after a complete value, what the enclosing array or object
  allows. Open arrays and objects with the member whose value is being read are on the stack.
\<close>

datatype mode =
    Value
  | Elem0
  | Key "(string \<times> json) list" bool
  | AfterKey "(string \<times> json) list" string
  | After json

datatype open_value = OArr "json list" | OObj "(string \<times> json) list" string

abbreviation maxNestingDepth :: nat where
  "maxNestingDepth \<equiv> 10000"

type_synonym machine = "mode \<times> open_value list"

fun value_step :: "tok \<Rightarrow> open_value list \<Rightarrow> machine option" where
  "value_step (TStr s) st = Some (After (JStr s), st)"
| "value_step (TVal v) st = Some (After v, st)"
| "value_step LBrack st = (if length st < maxNestingDepth then Some (Elem0, OArr [] # st) else None)"
| "value_step LBrace st = (if length st < maxNestingDepth then Some (Key [] True, st) else None)"
| "value_step _ st = None"

fun after_step :: "tok \<Rightarrow> json \<Rightarrow> open_value list \<Rightarrow> machine option" where
  "after_step Comma v (OArr vs # st) = Some (Value, OArr (vs @ [v]) # st)"
| "after_step RBrack v (OArr vs # st) = Some (After (JArr (vs @ [v])), st)"
| "after_step Comma v (OObj ms k # st) = Some (Key (ms @ [(k, v)]) False, st)"
| "after_step RBrace v (OObj ms k # st) = Some (After (JObj (ms @ [(k, v)])), st)"
| "after_step _ _ _ = None"

fun machine_step :: "tok \<Rightarrow> machine \<Rightarrow> machine option" where
  "machine_step t (Value, st) = value_step t st"
| "machine_step t (Elem0, st) = (if t = RBrack then Some (After (JArr []), tl st) else value_step t st)"
| "machine_step t (Key ms first, st) =
     (case t of
        TStr k \<Rightarrow> Some (AfterKey ms k, st)
      | RBrace \<Rightarrow> if first then Some (After (JObj []), st) else None
      | _ \<Rightarrow> None)"
| "machine_step t (AfterKey ms k, st) = (if t = Colon then Some (Value, OObj ms k # st) else None)"
| "machine_step t (After v, st) = after_step t v st"

fun run :: "tok list \<Rightarrow> machine \<Rightarrow> machine option" where
  "run [] m = Some m"
| "run (t # ts) m = (case machine_step t m of None \<Rightarrow> None | Some m' \<Rightarrow> run ts m')"

fun complete :: "machine \<Rightarrow> json option" where
  "complete (After v, []) = Some v"
| "complete _ = None"

text \<open>A document as \<open>json.Unmarshal\<close> reads it: \<open>checkValid\<close> and the tree the decoder then walks.\<close>

definition parse_document :: "string \<Rightarrow> json option" where
  "parse_document s =
     (case tokenize s of
        None \<Rightarrow> None
      | Some ts \<Rightarrow> (case run ts (Value, []) of None \<Rightarrow> None | Some m \<Rightarrow> complete m))"

subsection \<open>Fields of a destination struct\<close>

text \<open>
  \<open>foldName\<close>, as far as it decides equality with an ASCII name: letters are raised, and besides them only the long s and the
  Kelvin sign fold to ASCII letters.
\<close>

fun foldName :: "string \<Rightarrow> string" where
  "foldName (a # b # c # s) =
     (if [a, b, c] = [CHR 0xE2, CHR 0x84, CHR 0xAA] then CHR ''K'' # foldName s
      else if [a, b] = [CHR 0xC5, CHR 0xBF] then CHR ''S'' # foldName (c # s)
      else (if is_lower a then char_of (code_of a - 32) else a) # foldName (b # c # s))"
| "foldName [a, b] =
     (if [a, b] = [CHR 0xC5, CHR 0xBF] then [CHR ''S'']
      else (if is_lower a then char_of (code_of a - 32) else a) # foldName [b])"
| "foldName [a] = [if is_lower a then char_of (code_of a - 32) else a]"
| "foldName [] = []"

text \<open>A member name selects the field of exactly that name, else the first that folds to the same name.\<close>

definition field_of :: "string list \<Rightarrow> string \<Rightarrow> string option" where
  "field_of names k =
     (if k \<in> set names then Some k else find (\<lambda>n. foldName n = foldName k) names)"

text \<open>
  \<open>json.Unmarshal\<close> into a struct: the members are taken in their order, unknown names are ignored, and \<open>put\<close> stores a value in a
  field or fails on a value of the wrong type. A null leaves the struct as it is; any other value is an error. The package
  goes on after a value of the wrong type and reports the error in the end; the callers drop the struct then.
\<close>

fun put_members :: "string list \<Rightarrow> (string \<Rightarrow> json \<Rightarrow> 'a \<Rightarrow> 'a option) \<Rightarrow> (string \<times> json) list \<Rightarrow> 'a \<Rightarrow> 'a option" where
  "put_members names put [] x = Some x"
| "put_members names put ((k, v) # ms) x =
     (case field_of names k of
        None \<Rightarrow> put_members names put ms x
      | Some n \<Rightarrow> (case put n v x of None \<Rightarrow> None | Some y \<Rightarrow> put_members names put ms y))"

definition Unmarshal :: "string list \<Rightarrow> (string \<Rightarrow> json \<Rightarrow> 'a \<Rightarrow> 'a option) \<Rightarrow> 'a \<Rightarrow> string \<Rightarrow> 'a option" where
  "Unmarshal names put x s =
     (case parse_document s of
        Some JNull \<Rightarrow> Some x
      | Some (JObj ms) \<Rightarrow> put_members names put ms x
      | _ \<Rightarrow> None)"

subsection \<open>Encoding\<close>

text \<open>The compact text of a document, members in the order given.\<close>

fun commas :: "string list \<Rightarrow> string" where
  "commas [] = []"
| "commas [x] = x"
| "commas (x # y # xs) = x @ CHR '','' # commas (y # xs)"

fun encode :: "json \<Rightarrow> string" where
  "encode JNull = ''null''"
| "encode (JBool b) = (if b then ''true'' else ''false'')"
| "encode (JNum n) = n"
| "encode (JStr s) = quote s"
| "encode (JArr vs) = CHR ''['' # commas (map encode vs) @ '']''"
| "encode (JObj ms) = CHR ''{'' # commas (map (\<lambda>(k, v). quote k @ CHR '':'' # encode v) ms) @ ''}''"

text \<open>What the laws below talk about: the nesting of a document, its tokens, the form of its number literals, and its strings after one passage
through the encoder.\<close>

fun depth :: "json \<Rightarrow> nat" where
  "depth (JArr vs) = Suc (Max (set (0 # map depth vs)))"
| "depth (JObj ms) = Suc (Max (set (0 # map (\<lambda>(k, v). depth v) ms)))"
| "depth _ = 0"

fun tok_commas :: "tok list list \<Rightarrow> tok list" where
  "tok_commas [] = []"
| "tok_commas [x] = x"
| "tok_commas (x # y # xs) = x @ Comma # tok_commas (y # xs)"

fun toks :: "json \<Rightarrow> tok list" where
  "toks (JStr s) = [TStr (to_valid s)]"
| "toks (JArr vs) = LBrack # tok_commas (map toks vs) @ [RBrack]"
| "toks (JObj ms) = LBrace # tok_commas (map (\<lambda>(k, v). TStr (to_valid k) # Colon # toks v) ms) @ [RBrace]"
| "toks v = [TVal v]"

fun clean :: "json \<Rightarrow> json" where
  "clean (JStr s) = JStr (to_valid s)"
| "clean (JArr vs) = JArr (map clean vs)"
| "clean (JObj ms) = JObj (map (\<lambda>(k, v). (to_valid k, clean v)) ms)"
| "clean v = v"

fun numbers_ok :: "json \<Rightarrow> bool" where
  "numbers_ok (JNum n) \<longleftrightarrow> lex_number n = Some (n, [])"
| "numbers_ok (JArr vs) \<longleftrightarrow> list_all numbers_ok vs"
| "numbers_ok (JObj ms) \<longleftrightarrow> list_all (\<lambda>(k, v). numbers_ok v) ms"
| "numbers_ok _ \<longleftrightarrow> True"

subsection \<open>The machine on the tokens of a value\<close>

lemma run_append: "run (ts @ us) m = (case run ts m of None \<Rightarrow> None | Some m' \<Rightarrow> run us m')"
  by (induction ts arbitrary: m) (auto split: option.split)

definition reads :: "json \<Rightarrow> bool" where
  "reads v \<longleftrightarrow> (\<forall>ts st. length st + depth v \<le> maxNestingDepth \<longrightarrow>
     run (toks v @ ts) (Value, st) = run ts (After (clean v), st))"

lemma run_Elem0:
  "run (toks v @ ts) (Elem0, st) = run (toks v @ ts) (Value, st)"
  by (cases v) auto

lemma run_elems:
  assumes "list_all reads (v # vs)" "\<forall>w \<in> set (v # vs). Suc (length st) + depth w \<le> maxNestingDepth"
  shows "run (tok_commas (map toks (v # vs)) @ RBrack # ts) (Value, OArr acc # st) =
    run ts (After (JArr (acc @ map clean (v # vs))), st)"
  using assms
proof (induction vs arbitrary: v acc)
  case Nil
  then show ?case by (simp add: reads_def)
next
  case (Cons w vs)
  have "run (toks v @ Comma # tok_commas (map toks (w # vs)) @ RBrack # ts) (Value, OArr acc # st) =
    run (tok_commas (map toks (w # vs)) @ RBrack # ts) (Value, OArr (acc @ [clean v]) # st)"
    using Cons.prems by (simp add: reads_def)
  then show ?case using Cons.IH [of w "acc @ [clean v]"] Cons.prems by simp
qed

lemma run_members:
  assumes "list_all (reads \<circ> snd) (m # ms)" "\<forall>w \<in> set (m # ms). Suc (length st) + depth (snd w) \<le> maxNestingDepth"
  shows "run (tok_commas (map (\<lambda>(k, v). TStr (to_valid k) # Colon # toks v) (m # ms)) @ RBrace # ts) (Key acc first, st) =
    run ts (After (JObj (acc @ map (\<lambda>(k, v). (to_valid k, clean v)) (m # ms))), st)"
  using assms
proof (induction ms arbitrary: m acc first)
  case Nil
  then show ?case by (cases m) (simp add: reads_def)
next
  case (Cons m' ms)
  obtain k v where m: "m = (k, v)" by (cases m)
  have "run (toks v @ Comma # tok_commas (map (\<lambda>(k, v). TStr (to_valid k) # Colon # toks v) (m' # ms)) @ RBrace # ts)
      (Value, OObj acc (to_valid k) # st) =
    run (tok_commas (map (\<lambda>(k, v). TStr (to_valid k) # Colon # toks v) (m' # ms)) @ RBrace # ts)
      (Key (acc @ [(to_valid k, clean v)]) False, st)"
    using Cons.prems by (simp add: reads_def m)
  then show ?case using Cons.IH [of m' "acc @ [(to_valid k, clean v)]" False] Cons.prems by (simp add: m)
qed

lemma depth_elem: "w \<in> set vs \<Longrightarrow> depth w < depth (JArr vs)"
  by (simp add: less_Suc_eq_le)

lemma depth_member: "w \<in> set ms \<Longrightarrow> depth (snd w) < depth (JObj ms)"
  by (auto simp: less_Suc_eq_le split_beta intro!: Max_ge)

lemma reads_arr: "list_all reads vs \<Longrightarrow> reads (JArr vs)"
proof (cases vs)
  case Nil
  then show ?thesis by (simp add: reads_def)
next
  case (Cons v ws)
  assume r: "list_all reads vs"
  have "run (toks (JArr vs) @ ts) (Value, st) = run ts (After (clean (JArr vs)), st)"
    if d: "length st + depth (JArr vs) \<le> maxNestingDepth" for ts st
  proof -
    have "\<forall>w \<in> set vs. Suc (length st) + depth w \<le> maxNestingDepth"
      using d depth_elem [of _ vs] by fastforce
    moreover have "run (tok_commas (map toks (v # ws)) @ RBrack # ts) (Elem0, OArr [] # st) =
        run (tok_commas (map toks (v # ws)) @ RBrack # ts) (Value, OArr [] # st)"
      by (cases ws) (simp_all add: run_Elem0)
    ultimately show ?thesis using r d run_elems [of v ws st ts "[]"] by (simp add: Cons)
  qed
  then show ?thesis by (simp add: reads_def)
qed

lemma reads_obj: "list_all (reads \<circ> snd) ms \<Longrightarrow> reads (JObj ms)"
proof (cases ms)
  case Nil
  then show ?thesis by (simp add: reads_def)
next
  case (Cons m ws)
  assume r: "list_all (reads \<circ> snd) ms"
  have "run (toks (JObj ms) @ ts) (Value, st) = run ts (After (clean (JObj ms)), st)"
    if d: "length st + depth (JObj ms) \<le> maxNestingDepth" for ts st
  proof -
    have "\<forall>w \<in> set ms. Suc (length st) + depth (snd w) \<le> maxNestingDepth"
      using d depth_member [of _ ms] by fastforce
    then show ?thesis using r d run_members [of m ws st ts "[]" True] by (simp add: Cons)
  qed
  then show ?thesis by (simp add: reads_def)
qed

lemma reads_all: "reads v"
proof (induction v)
  case (JArr vs)
  then show ?case by (simp add: reads_arr list_all_iff)
next
  case (JObj ms)
  then have "list_all (reads \<circ> snd) ms" by (auto simp: list_all_iff)
  then show ?case by (rule reads_obj)
qed (simp_all add: reads_def)

lemma run_toks: "depth v \<le> maxNestingDepth \<Longrightarrow> run (toks v) (Value, []) = Some (After (clean v), [])"
  using reads_all [of v] unfolding reads_def by (metis add_0 append_Nil2 list.size(3) run.simps(1))

subsection \<open>The tokens of an encoded document\<close>

text \<open>What follows a value in a document.\<close>

definition stops :: "string \<Rightarrow> bool" where
  "stops r \<longleftrightarrow> r = [] \<or> hd r \<in> set '',]}''"

lemma stops_laws [simp]: "stops []" "stops (CHR '','' # r)" "stops (CHR '']'' # r)" "stops (CHR ''}'' # r)"
  by (simp_all add: stops_def)

lemma stops_hd: "stops (c # r) \<Longrightarrow> \<not> is_digit c \<and> c \<noteq> CHR ''.'' \<and> c \<noteq> CHR ''e'' \<and> c \<noteq> CHR ''E'' \<and> c \<noteq> CHR ''+'' \<and> c \<noteq> CHR ''-''"
  by (auto simp: stops_def is_digit_def code_of_def)

lemma digits_stop:
  assumes "stops r"
  shows "takeWhile is_digit (s @ r) = takeWhile is_digit s" "dropWhile is_digit (s @ r) = dropWhile is_digit s @ r"
proof -
  have "takeWhile is_digit r = []" "dropWhile is_digit r = r"
    using stops_hd assms by (cases r; simp)+
  then show "takeWhile is_digit (s @ r) = takeWhile is_digit s" "dropWhile is_digit (s @ r) = dropWhile is_digit s @ r"
    by (induction s) auto
qed

lemma int_part_append: "stops r \<Longrightarrow> int_part s = Some (i, t) \<Longrightarrow> int_part (s @ r) = Some (i, t @ r)"
  using digits_stop [of r "tl s"] by (cases s) (auto simp: int_part_def split: if_splits)

lemma frac_part_append: "stops r \<Longrightarrow> frac_part s = Some (i, t) \<Longrightarrow> frac_part (s @ r) = Some (i, t @ r)"
  using digits_stop [of r "tl s"] stops_hd
  by (cases s; cases r) (auto simp: frac_part_def split: if_splits)

lemma exp_part_append:
  assumes r: "stops r" and s: "exp_part s = Some (i, t)"
  shows "exp_part (s @ r) = Some (i, t @ r)"
proof (cases s)
  case Nil
  then show ?thesis using assms stops_hd by (cases r) (auto simp: exp_part_def)
next
  case (Cons c s')
  then show ?thesis
    using s digits_stop [OF r] by (cases s') (auto simp: exp_part_def Let_def split: if_splits)
qed

lemma lex_number_append:
  assumes "stops r" "lex_number n = Some (n', t)"
  shows "lex_number (n @ r) = Some (n', t @ r)"
proof -
  have "n \<noteq> []" using assms(2) by (auto simp: lex_number_def int_part_def)
  then have "takeWhile (\<lambda>x. x = CHR ''-'') (take 1 (n @ r)) = takeWhile (\<lambda>x. x = CHR ''-'') (take 1 n)"
    and "length (takeWhile (\<lambda>x. x = CHR ''-'') (take 1 n)) \<le> length n"
    by (cases n; simp)+
  then show ?thesis
    using assms int_part_append [OF assms(1)] frac_part_append [OF assms(1)] exp_part_append [OF assms(1)]
    by (fastforce simp: lex_number_def Let_def split: option.splits)
qed

lemma lex_number_hd: "lex_number n = Some p \<Longrightarrow> \<exists>c s. n = c # s \<and> (c = CHR ''-'' \<or> is_digit c)"
  by (cases n) (auto simp: lex_number_def int_part_def is_digit_def code_of_def Let_def split: if_splits option.splits)

lemma lex_step:
  "lex_tok s = Some (t, r) \<Longrightarrow> \<not> is_space (hd s) \<Longrightarrow> tokenize s = map_option ((#) t) (tokenize r)"
  by (subst tokenize.simps) (auto simp: lex_tok_def)

lemma lex_Nil [simp]: "tokenize [] = Some []"
  by (simp add: tokenize.simps)

lemma lex_punct [simp]:
  "tokenize (CHR ''{'' # s) = map_option ((#) LBrace) (tokenize s)" "tokenize (CHR ''}'' # s) = map_option ((#) RBrace) (tokenize s)"
  "tokenize (CHR ''['' # s) = map_option ((#) LBrack) (tokenize s)" "tokenize (CHR '']'' # s) = map_option ((#) RBrack) (tokenize s)"
  "tokenize (CHR '':'' # s) = map_option ((#) Colon) (tokenize s)" "tokenize (CHR '','' # s) = map_option ((#) Comma) (tokenize s)"
  by (rule lex_step; simp add: lex_tok_def is_space_def)+

lemma lex_words:
  "tokenize (''null'' @ s) = map_option ((#) (TVal JNull)) (tokenize s)"
  "tokenize (''true'' @ s) = map_option ((#) (TVal (JBool True))) (tokenize s)"
  "tokenize (''false'' @ s) = map_option ((#) (TVal (JBool False))) (tokenize s)"
  by (rule lex_step; simp add: lex_tok_def is_space_def HasPrefix_def)+

lemma lex_quote: "tokenize (quote s @ r) = map_option ((#) (TStr (to_valid s))) (tokenize r)"
  by (rule lex_step) (simp_all add: quote_def lex_tok_def is_space_def scan_quote_body)

lemma lex_num:
  assumes "stops r" "lex_number n = Some (n, [])"
  shows "tokenize (n @ r) = map_option ((#) (TVal (JNum n))) (tokenize r)"
proof (rule lex_step)
  obtain c s where n: "n = c # s" "c = CHR ''-'' \<or> is_digit c" using lex_number_hd [OF assms(2)] by blast
  then show "\<not> is_space (hd (n @ r))" by (auto simp: is_space_def is_digit_def code_of_def)
  have "c \<notin> set ''{}[]:,ntf''" "c \<noteq> CHR 0x22" using n(2) by (auto simp: is_digit_def code_of_def)
  then have "lex_tok (n @ r) = map_option (apfst (TVal \<circ> JNum)) (lex_number (n @ r))"
    by (simp add: n(1) lex_tok_def HasPrefix_def)
  then show "lex_tok (n @ r) = Some (TVal (JNum n), r)" using lex_number_append [OF assms] by simp
qed

lemma append_funs: "(@) (x # xs) = (\<lambda>r. x # (xs @ r))" "(@) (xs @ ys) = (\<lambda>r. xs @ (ys @ r))"
  by auto

definition lexes :: "json \<Rightarrow> bool" where
  "lexes v \<longleftrightarrow> (\<forall>r. stops r \<longrightarrow> tokenize (encode v @ r) = map_option ((@) (toks v)) (tokenize r))"

lemma lex_elems:
  "list_all lexes vs \<Longrightarrow>
    tokenize (commas (map encode vs) @ CHR '']'' # r) = map_option ((@) (tok_commas (map toks vs) @ [RBrack])) (tokenize r)"
proof (induction "map encode vs" arbitrary: vs rule: commas.induct)
  case (2 x)
  then show ?case by (auto simp: lexes_def option.map_comp o_def append_funs)
next
  case (3 x y xs)
  then obtain v w ws where "vs = v # w # ws" by (auto simp: Cons_eq_map_conv)
  then show ?case using 3(1) [of "w # ws"] 3(2-) by (auto simp: lexes_def option.map_comp o_def append_funs)
qed (simp add: append_funs)

lemma lex_members:
  "list_all (lexes \<circ> snd) ms \<Longrightarrow>
    tokenize (commas (map (\<lambda>(k, v). quote k @ CHR '':'' # encode v) ms) @ CHR ''}'' # r) =
      map_option ((@) (tok_commas (map (\<lambda>(k, v). TStr (to_valid k) # Colon # toks v) ms) @ [RBrace])) (tokenize r)"
proof (induction "map (\<lambda>(k, v). quote k @ CHR '':'' # encode v) ms" arbitrary: ms rule: commas.induct)
  case (2 x)
  then show ?case by (auto simp: lexes_def lex_quote option.map_comp o_def append_funs)
next
  case (3 x y xs)
  then obtain v w ws where "ms = v # w # ws" by (auto simp: Cons_eq_map_conv)
  then show ?case using 3(1) [of "w # ws"] 3(2-) by (cases v) (auto simp: lexes_def lex_quote option.map_comp o_def append_funs)
qed (simp add: append_funs)

lemma lexes_all: "numbers_ok v \<Longrightarrow> lexes v"
proof (induction v)
  case (JBool b)
  then show ?case by (cases b) (simp_all add: lexes_def lex_words [simplified] append_funs)
next
  case (JArr vs)
  then have "list_all lexes vs" by (simp add: list_all_iff)
  then show ?case by (simp add: lexes_def lex_elems option.map_comp o_def append_funs)
next
  case (JObj ms)
  then have "list_all (lexes \<circ> snd) ms" by (auto simp: list_all_iff)
  then show ?case by (simp add: lexes_def lex_members option.map_comp o_def append_funs)
next
  case JNull
  then show ?case by (simp add: lexes_def lex_words [simplified] append_funs)
qed (simp_all add: lexes_def lex_num lex_quote append_funs)

text \<open>Reading an encoded document gives the document, with malformed bytes of its strings replaced.\<close>

lemma parse_encode:
  assumes "numbers_ok v" "depth v \<le> maxNestingDepth"
  shows "parse_document (encode v) = Some (clean v)"
proof -
  have "tokenize (encode v) = Some (toks v)"
    using lexes_all [OF assms(1)] unfolding lexes_def by (metis append_Nil2 lex_Nil option.simps(9) stops_laws(1))
  then show ?thesis using run_toks [OF assms(2)] by (simp add: parse_document_def)
qed

end
