(* ===== verification/Go_Float.thy ===== *)
theory Go_Float
  imports Kit_Prelude
begin

text \<open>
  The finite \<open>float64\<close> values as the JSON numbers of the log bridge need them: reading a decimal literal (\<open>strconv.ParseFloat\<close>, correctly
  rounded, ties to even), conversion to \<open>int64\<close>, and printing (the shortest decimal that reads back as the same value, in the form
  \<open>encoding/json\<close> chooses). A value is a sign, an integer mantissa below 2^53 and a binary exponent.
\<close>

datatype float64 = F64 (f_neg: bool) (f_mant: int) (f_exp: int)

definition f_zero :: float64 where
  "f_zero = F64 False 0 0"

function bits :: "int \<Rightarrow> int" where
  "bits n = (if n \<le> 0 then 0 else 1 + bits (n div 2))"
  by pat_completeness auto
termination
  by (relation "measure nat") auto

declare bits.simps [simp del]

text \<open>Quotients of positive integers scaled by a power of two, rounded to the nearest integer, ties to even.\<close>

definition scaled :: "int \<Rightarrow> int \<Rightarrow> int \<Rightarrow> int \<times> int" where
  "scaled a b e = (if 0 \<le> e then (a, b * 2 ^ nat e) else (a * 2 ^ nat (- e), b))"

definition div_even :: "int \<Rightarrow> int \<Rightarrow> int" where
  "div_even a b =
     (let q = a div b; r = a mod b in if b < 2 * r \<or> 2 * r = b \<and> odd q then q + 1 else q)"

text \<open>The float nearest to \<open>a / b\<close>; \<open>None\<close> when it is out of range.\<close>

definition round_f64 :: "bool \<Rightarrow> int \<Rightarrow> int \<Rightarrow> float64 option" where
  "round_f64 neg a b =
     (if a = 0 then Some (F64 neg 0 0)
      else
        (let e0 = bits a - bits b - 53;
             q = (case scaled a b e0 of (x, y) \<Rightarrow> x div y);
             e = max (-1074) (if 2 ^ 53 \<le> q then e0 + 1 else e0);
             m = (case scaled a b e of (x, y) \<Rightarrow> div_even x y);
             r = (if m = 2 ^ 53 then (2 ^ 52, e + 1) else (m, e))
         in if 971 < snd r then None else Some (F64 neg (fst r) (snd r))))"

text \<open>A literal is its sign, its digits as an integer, and a power of ten.\<close>

definition int_of_literal :: "string \<Rightarrow> int" where
  "int_of_literal s =
     (if HasPrefix s ''-'' then - decimal_value (tl s)
      else if HasPrefix s ''+'' then decimal_value (tl s) else decimal_value s)"

definition ParseFloat :: "string \<Rightarrow> float64 option" where
  "ParseFloat lit =
     (let neg = HasPrefix lit ''-'';
          s = (if neg then tl lit else lit);
          mant = takeWhile (\<lambda>c. c \<noteq> CHR ''e'' \<and> c \<noteq> CHR ''E'') s;
          ex = int_of_literal (drop (Suc (length mant)) s);
          whole = takeWhile (\<lambda>c. c \<noteq> CHR ''.'') mant;
          frac = drop (Suc (length whole)) mant;
          d = decimal_value (whole @ frac);
          p = ex - int (length frac)
      in if 0 \<le> p then round_f64 neg (d * 10 ^ nat p) 1 else round_f64 neg d (10 ^ nat (- p)))"

text \<open>
  \<open>int64(f)\<close> drops the fraction. What a value outside the range of \<open>int64\<close> becomes is up to the implementation: it is the
  parameter \<open>beyond\<close>.
\<close>

definition f_trunc :: "float64 \<Rightarrow> int" where
  "f_trunc f =
     (let t = (if 0 \<le> f_exp f then f_mant f * 2 ^ nat (f_exp f) else f_mant f div 2 ^ nat (- f_exp f))
      in if f_neg f then - t else t)"

definition int64_of :: "(float64 \<Rightarrow> int) \<Rightarrow> float64 \<Rightarrow> int" where
  "int64_of beyond f =
     (if min_int64 \<le> f_trunc f \<and> f_trunc f \<le> max_int64 then f_trunc f else beyond f)"

definition f_positive :: "float64 \<Rightarrow> bool" where
  "f_positive f \<longleftrightarrow> \<not> f_neg f \<and> 0 < f_mant f"

text \<open>
  Sums of finite values, and the conversion of durations to seconds (\<open>Duration.Seconds\<close>, whose division truncates towards zero). \<open>None\<close> is a sum out of range.
\<close>

definition f_ratio :: "float64 \<Rightarrow> int \<times> int" where
  "f_ratio f = (if 0 \<le> f_exp f then (f_mant f * 2 ^ nat (f_exp f), 1) else (f_mant f, 2 ^ nat (- f_exp f)))"

definition f_add :: "float64 \<Rightarrow> float64 \<Rightarrow> float64 option" where
  "f_add f g =
     (case (f_ratio f, f_ratio g) of ((a, b), (c, d)) \<Rightarrow>
        let n = (if f_neg f then - a else a) * d + (if f_neg g then - c else c) * b
        in round_f64 (if n = 0 then f_neg f \<and> f_neg g else n < 0) \<bar>n\<bar> (b * d))"

definition quotient_f64 :: "int \<Rightarrow> int \<Rightarrow> float64 option" where
  "quotient_f64 i b = round_f64 (i < 0) \<bar>i\<bar> b"

definition Seconds :: "duration \<Rightarrow> float64 option" where
  "Seconds d =
     (let sec = sgn d * (\<bar>d\<bar> div second); nsec = sgn d * (\<bar>d\<bar> mod second) in
      case (quotient_f64 sec 1, quotient_f64 nsec second) of
        (Some a, Some b) \<Rightarrow> f_add a b
      | _ \<Rightarrow> None)"

subsection \<open>Printing\<close>

text \<open>Where the decimal point is: \<open>a / b\<close> lies between a tenth and one times ten to this power.\<close>

definition point_of :: "int \<Rightarrow> int \<Rightarrow> int" where
  "point_of a b =
     (if b \<le> a then int (length (Itoa (a div b)))
      else (case find (\<lambda>k. b \<le> a * 10 ^ k) [1..<400] of Some k \<Rightarrow> 1 - int k | None \<Rightarrow> 0))"

definition ten_scaled :: "int \<Rightarrow> int \<Rightarrow> int \<Rightarrow> int \<times> int" where
  "ten_scaled a b k = (if 0 \<le> k then (a * 10 ^ nat k, b) else (a, b * 10 ^ nat (- k)))"

definition reads_back :: "float64 \<Rightarrow> int \<Rightarrow> int \<Rightarrow> bool" where
  "reads_back f d k = ((case ten_scaled d 1 (- k) of (a, b) \<Rightarrow> round_f64 (f_neg f) a b) = Some f)"

text \<open>The digits of length \<open>n\<close> below and above the value, if one of them reads back; the nearer one if both do.\<close>

definition digits_at :: "float64 \<Rightarrow> nat \<Rightarrow> int option" where
  "digits_at f n =
     (case f_ratio f of (a, b) \<Rightarrow>
        let k = int n - point_of a b in
        case ten_scaled a b k of (x, y) \<Rightarrow>
          let lo = x div y; down = reads_back f lo k; up = reads_back f (lo + 1) k
          in if x mod y = 0 then Some lo
             else if down \<and> up then Some (div_even x y)
             else if down then Some lo
             else if up then Some (lo + 1)
             else None)"

definition shortest :: "float64 \<Rightarrow> string \<times> int" where
  "shortest f =
     (if f_mant f = 0 then (''0'', 1)
      else
        (let dp = (case f_ratio f of (a, b) \<Rightarrow> point_of a b);
             n = (case find (\<lambda>n. digits_at f n \<noteq> None) [1..<18] of Some n \<Rightarrow> n | None \<Rightarrow> 17);
             ds = (case digits_at f n of Some d \<Rightarrow> Itoa d | None \<Rightarrow> [])
         in (TrimRight ds CHR ''0'', dp + int (length ds) - int n)))"

definition format_f :: "string \<Rightarrow> int \<Rightarrow> string" where
  "format_f ds dp =
     (if dp \<le> 0 then ''0.'' @ replicate (nat (- dp)) CHR ''0'' @ ds
      else if int (length ds) \<le> dp then ds @ replicate (nat dp - length ds) CHR ''0''
      else take (nat dp) ds @ CHR ''.'' # drop (nat dp) ds)"

definition format_e :: "string \<Rightarrow> int \<Rightarrow> string" where
  "format_e ds dp =
     take 1 ds @ (if length ds = 1 then [] else CHR ''.'' # drop 1 ds) @
     CHR ''e'' # (if dp - 1 < 0 then CHR ''-'' else CHR ''+'') # Itoa \<bar>dp - 1\<bar>"

text \<open>The encoder of the package: exponents for magnitudes below 1e-6 and from 1e21 on.\<close>

definition format_float :: "float64 \<Rightarrow> string" where
  "format_float f =
     (case shortest f of (ds, dp) \<Rightarrow>
        (if f_neg f then ''-'' else []) @
        (if f_mant f = 0 then ''0'' else if dp < -5 \<or> 21 < dp then format_e ds dp else format_f ds dp))"

subsection \<open>Integers are read exactly\<close>

lemma bits_bounds: "0 < n \<Longrightarrow> 1 \<le> bits n \<and> 2 ^ nat (bits n - 1) \<le> n \<and> n < 2 ^ nat (bits n)"
proof (induction n rule: bits.induct)
  case (1 n)
  show ?case
  proof (cases "n = 1")
    case True
    then show ?thesis by (simp add: bits.simps)
  next
    case False
    let ?k = "nat (bits (n div 2) - 1)"
    have IH: "1 \<le> bits (n div 2)" "2 ^ ?k \<le> n div 2" "n div 2 < 2 ^ nat (bits (n div 2))" using 1 False by auto
    have b: "bits n = 1 + bits (n div 2)" using 1(2) by (subst bits.simps) simp
    then have "nat (bits n - 1) = Suc ?k" "nat (bits n) = Suc (nat (bits (n div 2)))" using IH(1) by auto
    moreover have "2 * 2 ^ ?k \<le> n" using IH(2) by linarith
    moreover have "n < 2 * 2 ^ nat (bits (n div 2))" using IH(3) by linarith
    ultimately show ?thesis using IH(1) b by simp
  qed
qed

lemma bits_1 [simp]: "bits 1 = 1"
  by (simp add: bits.simps)

lemma scaled_down: "e \<le> 0 \<Longrightarrow> scaled n 1 e = (n * 2 ^ nat (- e), 1)"
  by (auto simp: scaled_def)

lemma div_even_1 [simp]: "div_even n 1 = n"
  by (simp add: div_even_def)

lemma round_int_exact:
  assumes "0 \<le> n" "n \<le> 2 ^ 53"
  shows "\<exists>f. round_f64 neg n 1 = Some f \<and> f_trunc f = (if neg then - n else n)"
proof (cases "n = 0")
  case True
  then show ?thesis by (simp add: round_f64_def f_trunc_def)
next
  case False
  define l where "l = nat (bits n)"
  have l: "bits n = int l" "1 \<le> l" "2 ^ (l - 1) \<le> n" "n < 2 ^ l"
    using bits_bounds [of n] False assms by (auto simp: l_def nat_diff_distrib)
  have "(2::int) ^ (l - 1) \<le> 2 ^ 53" using l(3) assms(2) by linarith
  then have "l - 1 \<le> 53" by (rule power_le_imp_le_exp [rotated]) simp
  then have top: "l \<le> 54" by simp
  have q: "2 ^ 53 \<le> n * 2 ^ (54 - l)"
  proof -
    have "(2::int) ^ 53 = 2 ^ (l - 1) * 2 ^ (54 - l)" using top l(2) by (simp flip: power_add)
    then show ?thesis using mult_right_mono [OF l(3), of "2 ^ (54 - l)"] by simp
  qed
  have e0: "scaled n 1 (int l - 54) = (n * 2 ^ (54 - l), 1)"
    using top by (simp add: scaled_down nat_diff_distrib)
  show ?thesis
  proof (cases "l \<le> 53")
    case True
    have m: "n * 2 ^ (53 - l) < 2 ^ 53"
    proof -
      have "(2::int) ^ 53 = 2 ^ l * 2 ^ (53 - l)" using True by (simp flip: power_add)
      then show ?thesis using mult_strict_right_mono [OF l(4), of "2 ^ (53 - l)"] by simp
    qed
    have "scaled n 1 (int l - 53) = (n * 2 ^ (53 - l), 1)" using True by (simp add: scaled_down nat_diff_distrib)
    then have "round_f64 neg n 1 = Some (F64 neg (n * 2 ^ (53 - l)) (int l - 53))"
      using False l(1,2) e0 q m True by (simp add: round_f64_def Let_def)
    then show ?thesis using True by (auto simp: f_trunc_def nat_diff_distrib)
  next
    case False
    then have "l = 54" using top by simp
    then have "n = 2 ^ 53" using l(3) assms(2) by simp
    then show ?thesis
      using l(1) \<open>l = 54\<close> by (simp add: round_f64_def scaled_def div_even_def f_trunc_def Let_def)
  qed
qed

subsection \<open>Seconds are finite\<close>

lemma bits_le: "n < 2 ^ k \<Longrightarrow> bits n \<le> int k"
proof (cases "0 < n")
  case True
  assume "n < 2 ^ k"
  then have "(2 :: int) ^ nat (bits n - 1) < 2 ^ k" using bits_bounds [OF True] by linarith
  then have "nat (bits n - 1) < k" by (rule power_less_imp_less_exp [rotated]) simp
  then show ?thesis by linarith
qed (simp add: bits.simps)

lemma bits_ge_1: "0 < n \<Longrightarrow> 1 \<le> bits n"
  using bits_bounds by blast

lemma bits_scale: "0 < m \<Longrightarrow> n \<le> 2 ^ k * m \<Longrightarrow> bits n \<le> bits m + int k"
proof -
  assume m: "0 < m" and n: "n \<le> 2 ^ k * m"
  have "m < 2 ^ nat (bits m)" "1 \<le> bits m" using bits_bounds [OF m] by auto
  then have "n < 2 ^ (k + nat (bits m))" using n by (simp add: power_add) (smt (verit) mult_strict_left_mono zero_less_power)
  then show "bits n \<le> bits m + int k" using bits_le [of n "k + nat (bits m)"] \<open>1 \<le> bits m\<close> by simp
qed

lemma int_div_le: "0 \<le> a \<Longrightarrow> 0 < b \<Longrightarrow> a div b \<le> a" for a b :: int
  using zdiv_mono2 [of a 1 b] by simp

lemma div_even_bounds: "0 \<le> a \<Longrightarrow> 0 < b \<Longrightarrow> 0 \<le> div_even a b \<and> div_even a b \<le> a div b + 1"
  by (simp add: div_even_def Let_def pos_imp_zdiv_nonneg_iff)

lemma round_f64_cases:
  assumes "0 < a" "0 < b"
  obtains e m where "e = - 1074 \<or> e \<le> bits a - bits b - 52" "m = (case scaled a b e of (x, y) \<Rightarrow> div_even x y)"
    "round_f64 neg a b = (let r = (if m = 2 ^ 53 then (2 ^ 52, e + 1) else (m, e)) in if 971 < snd r then None else Some (F64 neg (fst r) (snd r)))"
proof -
  let ?e0 = "bits a - bits b - 53"
  let ?q = "case scaled a b ?e0 of (x, y) \<Rightarrow> x div y"
  let ?e = "max (- 1074) (if 2 ^ 53 \<le> ?q then ?e0 + 1 else ?e0)"
  have "?e = - 1074 \<or> ?e \<le> bits a - bits b - 52" by (simp add: max_def)
  moreover have "round_f64 neg a b = (let r = (if (case scaled a b ?e of (x, y) \<Rightarrow> div_even x y) = 2 ^ 53 then (2 ^ 52, ?e + 1)
      else (case scaled a b ?e of (x, y) \<Rightarrow> div_even x y, ?e)) in if 971 < snd r then None else Some (F64 neg (fst r) (snd r)))"
    using assms(1) unfolding round_f64_def Let_def by (simp only: if_False less_irrefl less_imp_neq [symmetric] split: if_split)
  ultimately show ?thesis using that by blast
qed

lemma round_defined: "0 \<le> a \<Longrightarrow> 0 < b \<Longrightarrow> bits a \<le> bits b + 900 \<Longrightarrow> round_f64 neg a b \<noteq> None"
proof (cases "a = 0")
  case False
  assume "0 \<le> a" "0 < b" and bits: "bits a \<le> bits b + 900"
  then have "0 < a" using False by simp
  from round_f64_cases [OF this \<open>0 < b\<close>, of neg] obtain e m where
    "e = - 1074 \<or> e \<le> bits a - bits b - 52"
    "round_f64 neg a b = (let r = (if m = 2 ^ 53 then (2 ^ 52, e + 1) else (m, e)) in if 971 < snd r then None else Some (F64 neg (fst r) (snd r)))"
    by blast
  then show ?thesis using bits by (auto simp: Let_def)
qed (simp add: round_f64_def)

text \<open>A rounded quotient is at most about twice its numerator.\<close>

definition ratio_le :: "float64 \<Rightarrow> int \<Rightarrow> bool" where
  "ratio_le f c \<longleftrightarrow> (case f_ratio f of (x, y) \<Rightarrow> 0 < y \<and> 0 \<le> x \<and> x \<le> c * y)"

lemma ratio_le_halve:
  assumes "ratio_le (F64 neg (2 * m) e) c" "0 \<le> m"
  shows "ratio_le (F64 neg m (e + 1)) c"
proof (cases "0 \<le> e")
  case True
  then have "nat (e + 1) = Suc (nat e)" by simp
  then show ?thesis using assms True by (simp add: ratio_le_def f_ratio_def mult.assoc mult.left_commute)
next
  case False
  define k where "k = nat (- e - 1)"
  have k: "nat (- e) = Suc k" using False by (simp add: k_def)
  have "e + 1 \<ge> 0 \<longleftrightarrow> k = 0" "nat (- (e + 1)) = k" "e + 1 \<ge> 0 \<longrightarrow> nat (e + 1) = 0" using False by (auto simp: k_def)
  then have r: "f_ratio (F64 neg m (e + 1)) = (m, 2 ^ k)" by (auto simp: f_ratio_def)
  have "2 * m \<le> c * (2 * 2 ^ k)" using assms False k by (simp add: ratio_le_def f_ratio_def)
  then show ?thesis using assms(2) unfolding ratio_le_def r by simp
qed

lemma round_ratio:
  assumes "0 \<le> a" "0 < b" "round_f64 neg a b = Some f"
  shows "ratio_le f (2 * a + 2)"
proof (cases "a = 0")
  case True
  then show ?thesis using assms(3) by (auto simp: round_f64_def ratio_le_def f_ratio_def)
next
  case False
  then have a: "0 < a" using assms(1) by simp
  obtain e m where e: "e = - 1074 \<or> e \<le> bits a - bits b - 52" and m: "m = (case scaled a b e of (x, y) \<Rightarrow> div_even x y)"
    and r: "round_f64 neg a b = (let r = (if m = 2 ^ 53 then (2 ^ 52, e + 1) else (m, e)) in if 971 < snd r then None else Some (F64 neg (fst r) (snd r)))"
    using round_f64_cases [OF a assms(2), of neg] by blast
  have le: "ratio_le (F64 neg m e) (2 * a + 2)"
  proof (cases "0 \<le> e")
    case True
    then have "nat e \<le> nat (bits a - 1)" using e bits_ge_1 [OF assms(2)] by linarith
    then have "(2 :: int) ^ nat e \<le> a" using bits_bounds [OF a] power_increasing [of "nat e" "nat (bits a - 1)" "2 :: int"] by linarith
    moreover have m0: "0 \<le> m" and "m \<le> a div (b * 2 ^ nat e) + 1" using m True div_even_bounds [of a "b * 2 ^ nat e"] a assms(2) by (simp_all add: scaled_def)
    moreover have "a div (b * 2 ^ nat e) \<le> a div 2 ^ nat e" using a assms(2) by (intro zdiv_mono2) auto
    moreover have "a div 2 ^ nat e * 2 ^ nat e \<le> a" by (simp add: minus_mod_eq_div_mult [symmetric])
    ultimately have "m * 2 ^ nat e \<le> (a div 2 ^ nat e + 1) * 2 ^ nat e" by (intro mult_right_mono) auto
    then show ?thesis
      using True m0 \<open>a div 2 ^ nat e * 2 ^ nat e \<le> a\<close> \<open>2 ^ nat e \<le> a\<close> by (simp add: ratio_le_def f_ratio_def distrib_right)
  next
    case False
    have y: "(1 :: int) \<le> 2 ^ nat (- e)" by simp
    have "0 \<le> m" "m \<le> a * 2 ^ nat (- e) div b + 1" using m False div_even_bounds [of "a * 2 ^ nat (- e)" b] a assms(2) by (simp_all add: scaled_def)
    moreover have "a * 2 ^ nat (- e) div b \<le> a * 2 ^ nat (- e)" using a assms(2) by (intro int_div_le) auto
    ultimately have "0 \<le> m" "m \<le> (a + 1) * 2 ^ nat (- e)" using y unfolding distrib_right mult_1 by linarith+
    moreover have "(a + 1) * 2 ^ nat (- e) \<le> (2 * a + 2) * 2 ^ nat (- e)" using a by (intro mult_right_mono) auto
    ultimately have "0 \<le> m" "m \<le> (2 * a + 2) * 2 ^ nat (- e)" by (meson order.trans)+
    then show ?thesis using False by (simp add: ratio_le_def f_ratio_def)
  qed
  show ?thesis
  proof (cases "m = 2 ^ 53")
    case True
    then show ?thesis using assms(3) r ratio_le_halve [of neg "2 ^ 52" e] le by (auto simp: Let_def split: if_splits)
  next
    case False
    then show ?thesis using assms(3) r le by (auto simp: Let_def split: if_splits)
  qed
qed

lemma ratio_le_mono: "ratio_le f c \<Longrightarrow> c \<le> c' \<Longrightarrow> ratio_le f c'"
  by (auto simp: ratio_le_def intro: order.trans mult_right_mono)

lemma f_add_defined:
  assumes "ratio_le f c" "ratio_le g c" "2 * c \<le> 2 ^ 900"
  shows "f_add f g \<noteq> None"
proof -
  obtain a b where f: "f_ratio f = (a, b)" "0 < b" "0 \<le> a" "a \<le> c * b" using assms(1) by (auto simp: ratio_le_def)
  obtain a' d where g: "f_ratio g = (a', d)" "0 < d" "0 \<le> a'" "a' \<le> c * d" using assms(2) by (auto simp: ratio_le_def)
  define n where "n = (if f_neg f then - a else a) * d + (if f_neg g then - a' else a') * b"
  have "a * d \<le> c * b * d" using f(4) g(2) by (simp add: mult_right_mono)
  moreover have "a' * b \<le> c * d * b" using g(4) f(2) by (simp add: mult_right_mono)
  moreover have "0 \<le> a * d" "0 \<le> a' * b" using f(2,3) g(2,3) by simp_all
  then have "\<bar>n\<bar> \<le> a * d + a' * b" by (auto simp: n_def abs_le_iff)
  moreover have "c * b * d + c * d * b = 2 * c * (b * d)" by (simp add: algebra_simps)
  ultimately have "\<bar>n\<bar> \<le> 2 * c * (b * d)" by linarith
  also have "\<dots> \<le> 2 ^ 900 * (b * d)" using f(2) g(2) assms(3) by (intro mult_right_mono) auto
  finally have "bits \<bar>n\<bar> \<le> bits (b * d) + int 900" using f(2) g(2) by (intro bits_scale) auto
  then have "round_f64 neg \<bar>n\<bar> (b * d) \<noteq> None" for neg using f(2) g(2) by (intro round_defined) auto
  then show ?thesis using f(1) g(1) by (simp add: f_add_def n_def Let_def)
qed

lemma second_pos: "0 < second"
  by simp

lemma Seconds_finite:
  assumes "min_int64 \<le> d" "d \<le> max_int64"
  shows "\<exists>f. Seconds d = Some f"
proof -
  let ?s = "sgn d * (\<bar>d\<bar> div second)" and ?n = "sgn d * (\<bar>d\<bar> mod second)"
  have d: "\<bar>d\<bar> < 2 ^ 64" using assms by auto
  have "\<bar>d\<bar> div second \<le> \<bar>d\<bar>" by (intro int_div_le) simp_all
  moreover have "\<bar>d\<bar> mod second \<le> \<bar>d\<bar>" by (intro zmod_le_nonneg_dividend) simp
  moreover have "\<bar>sgn d * i\<bar> \<le> i" if "0 \<le> i" for i :: int using that by (simp add: abs_mult abs_sgn_eq)
  ultimately have s: "\<bar>?s\<bar> < 2 ^ 64" "\<bar>?n\<bar> < 2 ^ 64"
    using d by (meson abs_ge_zero order.trans order.strict_trans1 pos_imp_zdiv_nonneg_iff pos_mod_sign second_pos)+
  have q: "quotient_f64 i b \<noteq> None" if "\<bar>i\<bar> < 2 ^ 64" "0 < b" for i b
    unfolding quotient_f64_def using bits_le [OF that(1)] bits_ge_1 [OF that(2)] that(2) by (intro round_defined) auto
  obtain f where f: "quotient_f64 ?s 1 = Some f" using q [OF s(1), of 1] by auto
  obtain g where g: "quotient_f64 ?n second = Some g" using q [OF s(2), of second] by auto
  have big: "ratio_le h (2 * 2 ^ 64 + 2)" if "quotient_f64 i b = Some h" "\<bar>i\<bar> < 2 ^ 64" "0 < b" for h i b
  proof -
    have "ratio_le h (2 * \<bar>i\<bar> + 2)" using that round_ratio [of "\<bar>i\<bar>" b "i < 0" h] by (simp add: quotient_f64_def)
    then show ?thesis by (rule ratio_le_mono) (use that(2) in linarith)
  qed
  have "f_add f g \<noteq> None" using big [OF f s(1)] big [OF g s(2)] by (intro f_add_defined) auto
  then show ?thesis using f g by (simp add: Seconds_def Let_def)
qed

lemma decimal_value_snoc: "decimal_value (s @ [c]) = 10 * decimal_value s + int (code_of c - 48)"
  by (simp add: decimal_value_def)

lemma digit_code: "d < 10 \<Longrightarrow> code_of (char_of (48 + d)) = 48 + d"
  by (simp add: code_of_def)

lemma decimal_value_nat_digits: "decimal_value (nat_digits n) = int n"
proof (induction n rule: nat_digits.induct)
  case (1 n)
  show ?case
  proof (cases "n < 10")
    case True
    then show ?thesis by (simp add: nat_digits.simps decimal_value_def digit_code)
  next
    case False
    then show ?thesis
      using 1 by (subst nat_digits.simps) (simp add: decimal_value_snoc digit_code zdiv_int zmod_int)
  qed
qed

lemma nat_digits_digit: "c \<in> set (nat_digits n) \<Longrightarrow> is_digit c"
proof (induction n rule: nat_digits.induct)
  case (1 n)
  have "is_digit (char_of (48 + d))" if "d < 10" for d :: nat using that by (simp add: is_digit_def digit_code)
  then show ?case
    using 1 by (subst (asm) (2) nat_digits.simps) (auto split: if_splits)
qed

text \<open>A count written as a decimal integer is read as that count, up to 2^53.\<close>

lemma ParseFloat_count:
  assumes "n \<le> 2 ^ 53"
  shows "\<exists>f. ParseFloat (Itoa (int n)) = Some f \<and> int64_of beyond f = int n"
proof -
  have d: "\<forall>c \<in> set (nat_digits n). c \<noteq> CHR ''e'' \<and> c \<noteq> CHR ''E'' \<and> c \<noteq> CHR ''.'' \<and> c \<noteq> CHR ''-''"
  proof
    fix c
    assume "c \<in> set (nat_digits n)"
    then have "is_digit c" by (rule nat_digits_digit)
    then show "c \<noteq> CHR ''e'' \<and> c \<noteq> CHR ''E'' \<and> c \<noteq> CHR ''.'' \<and> c \<noteq> CHR ''-''" by (auto simp: is_digit_def code_of_def)
  qed
  have ne: "nat_digits n \<noteq> []" by (subst nat_digits.simps) simp
  have "\<not> HasPrefix (nat_digits n) ''-''" using d ne by (cases "nat_digits n") (auto simp: HasPrefix_def)
  moreover have "takeWhile (\<lambda>c. c \<noteq> CHR ''e'' \<and> c \<noteq> CHR ''E'') (nat_digits n) = nat_digits n"
    "takeWhile (\<lambda>c. c \<noteq> CHR ''.'') (nat_digits n) = nat_digits n"
    using d by (auto simp: takeWhile_eq_all_conv)
  moreover have "int_of_literal [] = 0" by code_simp
  ultimately have "ParseFloat (Itoa (int n)) = round_f64 False (int n) 1"
    unfolding ParseFloat_def Itoa_def Let_def by (simp add: decimal_value_nat_digits del: takeWhile_eq_all_conv)
  moreover have "int n \<le> 2 ^ 53" using assms by (metis of_nat_le_iff of_nat_numeral of_nat_power)
  ultimately show ?thesis using round_int_exact [of "int n" False] by (auto simp: int64_of_def)
qed

end
