(* ===== verification/Go_Any.thy ===== *)
theory Go_Any
  imports Json Go_Float "HOL-Library.AList" "HOL-Library.Char_ord" "HOL-Library.List_Lexorder"
begin

text \<open>
  Dynamic values as \<open>json.Unmarshal\<close> stores them in a variable of type \<open>any\<close>: numbers are floats, objects are maps (association lists with
  distinct keys here). \<open>any_of\<close> is the conversion, which fails on a number no \<open>float64\<close> holds; \<open>put_map\<close> decodes an object into a
  \<open>map[string]any\<close> that may hold members already; \<open>doc_of\<close> is what \<open>json.Marshal\<close> makes of a value, with the members of
  maps in the order of their keys.
\<close>

datatype any =
    ANil
  | ABool bool
  | AFloat float64
  | AStr string
  | AArr "any list"
  | AMap "(string \<times> any) list"

type_synonym go_map = "(string \<times> any) list"

definition store_all :: "(string \<times> any) list \<Rightarrow> go_map \<Rightarrow> go_map" where
  "store_all kvs m = fold (\<lambda>(k, v). AList.update k v) kvs m"

fun any_of :: "json \<Rightarrow> any option" where
  "any_of JNull = Some ANil"
| "any_of (JBool b) = Some (ABool b)"
| "any_of (JNum n) = map_option AFloat (ParseFloat n)"
| "any_of (JStr s) = Some (AStr s)"
| "any_of (JArr vs) = map_option AArr (those (map any_of vs))"
| "any_of (JObj ms) =
     map_option (\<lambda>kvs. AMap (store_all kvs [])) (those (map (\<lambda>(k, v). map_option (Pair k) (any_of v)) ms))"

definition put_map :: "(string \<times> json) list \<Rightarrow> go_map \<Rightarrow> go_map option" where
  "put_map ms m =
     map_option (\<lambda>kvs. store_all kvs m) (those (map (\<lambda>(k, v). map_option (Pair k) (any_of v)) ms))"

fun doc_of :: "any \<Rightarrow> json" where
  "doc_of ANil = JNull"
| "doc_of (ABool b) = JBool b"
| "doc_of (AFloat f) = JNum (format_float f)"
| "doc_of (AStr s) = JStr s"
| "doc_of (AArr vs) = JArr (map doc_of vs)"
| "doc_of (AMap ms) = JObj (sort_key fst (map (\<lambda>(k, v). (k, doc_of v)) ms))"

lemma store_all_simps [simp]:
  "store_all [] m = m" "store_all ((k, v) # kvs) m = store_all kvs (AList.update k v m)"
  by (simp_all add: store_all_def)

lemma map_of_update: "map_of (AList.update k v m) k' = (if k' = k then Some v else map_of m k')"
  by (simp add: update_conv')

end
