(* ===== verification/Hub.thy ===== *)
theory Hub
  imports Kit_Prelude "HOL-Library.Word" "HOL-Library.AList" "HOL-Library.Multiset"
begin

text \<open>
  \<open>logbridge/hub.go\<close>: the fan-out hub. The type \<open>'e\<close> stands for \<open>protocol.LogEntry\<close>, which the hub
  looks at through \<open>keyOf\<close> only. A channel is its buffer, its capacity and whether it is closed;
  the subscriber map is an association list, whose order is the (arbitrary) order in which a
  Go \<open>range\<close> visits it; the counter of subscriber ids is a 64-bit word. \<open>None\<close> as the result of
  an operation means that the goroutine does not get past it: it panics (send on a closed channel,
  close of a closed channel) or blocks for ever holding the mutex (send on a full channel). The
  mutex makes each operation atomic, so concurrent use is a sequence of events: \<open>hub_step\<close>. The
  receive of a consumer on its channel is an event of its own.
\<close>

subsection \<open>Channels\<close>

record 'e chan =
  buf :: "'e list"
  room :: nat
  closed :: bool

datatype 'e send_result = Sent "'e chan" | Full | SendPanic

definition make_chan :: "nat \<Rightarrow> 'e chan" where
  "make_chan n = \<lparr>buf = [], room = n, closed = False\<rparr>"

definition try_send :: "'e \<Rightarrow> 'e chan \<Rightarrow> 'e send_result" where
  "try_send e c =
     (if closed c then SendPanic
      else if length (buf c) < room c then Sent (c\<lparr>buf := buf c @ [e]\<rparr>)
      else Full)"

text \<open>Blocking sends in order; a send that blocks with the mutex held never returns.\<close>

fun send_all :: "'e list \<Rightarrow> 'e chan \<Rightarrow> 'e chan option" where
  "send_all [] c = Some c"
| "send_all (e # es) c = (case try_send e c of Sent c' \<Rightarrow> send_all es c' | _ \<Rightarrow> None)"

definition close_chan :: "'e chan \<Rightarrow> 'e chan option" where
  "close_chan c = (if closed c then None else Some (c\<lparr>closed := True\<rparr>))"

subsection \<open>The hub\<close>

record 'e sub =
  sub_ch :: "'e chan"
  sub_filter :: string

type_synonym sub_id = "64 word"

record 'e hub =
  subs :: "(sub_id \<times> 'e sub) list"
  nextID :: sub_id
  keyOf :: "('e \<Rightarrow> string) option"
  observed :: bool
  drops :: nat
  retained :: "string \<rightharpoonup> 'e list"

definition subBufSize :: nat where
  "subBufSize = 256"

definition NewHub :: "('e \<Rightarrow> string) option \<Rightarrow> bool \<Rightarrow> 'e hub" where
  "NewHub kf obs =
     \<lparr>subs = [], nextID = 0, keyOf = kf, observed = obs, drops = 0, retained = Map.empty\<rparr>"

text \<open>\<open>drops\<close> counts the calls of \<open>ObserveDrop\<close>; without an observer there are none.\<close>

definition observeDrop :: "'e hub \<Rightarrow> 'e hub" where
  "observeDrop h = (if observed h then h\<lparr>drops := Suc (drops h)\<rparr> else h)"

definition Retain :: "string \<Rightarrow> 'e hub \<Rightarrow> 'e hub" where
  "Retain key h =
     (if key = [] \<or> keyOf h = None then h
      else if retained h key = None then h\<lparr>retained := (retained h)(key \<mapsto> [])\<rparr>
      else h)"

definition Release :: "string \<Rightarrow> 'e hub \<Rightarrow> 'e hub" where
  "Release key h = h\<lparr>retained := (retained h)(key := None)\<rparr>"

definition Subscribe :: "string \<Rightarrow> 'e hub \<Rightarrow> (sub_id \<times> 'e hub) option" where
  "Subscribe flt h =
     (let held = (case retained h flt of None \<Rightarrow> [] | Some b \<Rightarrow> b) in
      case send_all held (make_chan (subBufSize + length held)) of
        None \<Rightarrow> None
      | Some ch \<Rightarrow>
          let ret = (if retained h flt \<noteq> None then (retained h)(flt \<mapsto> []) else retained h);
              sid = nextID h + 1
          in Some (sid, h\<lparr>retained := ret, nextID := sid,
               subs := AList.update sid \<lparr>sub_ch = ch, sub_filter = flt\<rparr> (subs h)\<rparr>))"

definition hub_holds :: "string \<Rightarrow> 'e hub \<Rightarrow> bool" where
  "hub_holds flt h = list_ex (\<lambda>p. sub_filter (snd p) = flt) (subs h)"

text \<open>The loop that drops the oldest entries beyond the buffer size.\<close>

fun shrink :: "'e list \<Rightarrow> 'e hub \<Rightarrow> 'e list \<times> 'e hub" where
  "shrink [] h = ([], h)"
| "shrink (x # merged) h =
     (if length (x # merged) > subBufSize then shrink merged (observeDrop h) else (x # merged, h))"

text \<open>Receives without blocking until the buffer is empty, then merges with the backlog.\<close>

definition requeue :: "'e chan \<Rightarrow> 'e list \<Rightarrow> 'e hub \<Rightarrow> 'e list \<times> 'e chan \<times> 'e hub" where
  "requeue ch backlog h =
     (let unread = buf ch; (merged, h') = shrink (unread @ backlog) h
      in (merged, ch\<lparr>buf := []\<rparr>, h'))"

text \<open>The result also carries the closed channel as the leaving consumer still sees it.\<close>

definition leave_backlog :: "'e sub \<Rightarrow> 'e hub \<Rightarrow> 'e chan \<times> 'e hub" where
  "leave_backlog s h =
     (case retained h (sub_filter s) of
        None \<Rightarrow> (sub_ch s, h)
      | Some backlog \<Rightarrow>
          (if hub_holds (sub_filter s) h then (sub_ch s, h)
           else (case requeue (sub_ch s) backlog h of
                   (merged, ch, h') \<Rightarrow>
                     (ch, h'\<lparr>retained := (retained h')(sub_filter s := Some merged)\<rparr>))))"

definition Unsubscribe :: "sub_id \<Rightarrow> 'e hub \<Rightarrow> ('e chan option \<times> 'e hub) option" where
  "Unsubscribe sid h =
     (case map_of (subs h) sid of
        None \<Rightarrow> Some (None, h)
      | Some s \<Rightarrow>
          (case leave_backlog s (h\<lparr>subs := AList.delete sid (subs h)\<rparr>) of
             (ch, h') \<Rightarrow>
               (case close_chan ch of None \<Rightarrow> None | Some ch' \<Rightarrow> Some (Some ch', h'))))"

definition entry_key :: "'e hub \<Rightarrow> 'e \<Rightarrow> string" where
  "entry_key h e = (case keyOf h of None \<Rightarrow> [] | Some f \<Rightarrow> f e)"

text \<open>
  The delivery loop of \<open>Publish\<close>: the subscribers still to visit, whether a subscriber with the
  exact key was seen, and the hub whose observer is notified. It rebuilds the subscriber list.
\<close>

fun publish_loop :: "'e \<Rightarrow> string \<Rightarrow> (sub_id \<times> 'e sub) list \<Rightarrow> bool \<Rightarrow> 'e hub \<Rightarrow>
    ((sub_id \<times> 'e sub) list \<times> bool \<times> 'e hub) option" where
  "publish_loop e key [] attached h = Some ([], attached, h)"
| "publish_loop e key ((sid, s) # rest) attached h =
     (if sub_filter s \<noteq> [] \<and> keyOf h \<noteq> None \<and> sub_filter s \<noteq> key then
        map_option (\<lambda>(out, r). ((sid, s) # out, r)) (publish_loop e key rest attached h)
      else
        let attached' = (if sub_filter s \<noteq> [] \<and> sub_filter s = key then True else attached) in
        case try_send e (sub_ch s) of
          Sent ch \<Rightarrow>
            map_option (\<lambda>(out, r). ((sid, s\<lparr>sub_ch := ch\<rparr>) # out, r)) (publish_loop e key rest attached' h)
        | Full \<Rightarrow>
            map_option (\<lambda>(out, r). ((sid, s) # out, r)) (publish_loop e key rest attached' (observeDrop h))
        | SendPanic \<Rightarrow> None)"

definition Publish :: "'e \<Rightarrow> 'e hub \<Rightarrow> 'e hub option" where
  "Publish e h =
     (let key = entry_key h e in
      case publish_loop e key (subs h) False h of
        None \<Rightarrow> None
      | Some (out, attached, h1) \<Rightarrow>
          let h2 = h1\<lparr>subs := out\<rparr> in
          if attached then Some h2
          else (case retained h2 key of
                  None \<Rightarrow> Some h2
                | Some backlog \<Rightarrow>
                    let (backlog', h3) =
                      (if length backlog \<ge> subBufSize then (tl backlog, observeDrop h2) else (backlog, h2))
                    in Some (h3\<lparr>retained := (retained h3)(key \<mapsto> backlog' @ [e])\<rparr>)))"

text \<open>A consumer receives from its channel; \<open>None\<close>: nothing is buffered, the receive waits.\<close>

definition hub_recv :: "sub_id \<Rightarrow> 'e hub \<Rightarrow> ('e \<times> 'e hub) option" where
  "hub_recv sid h =
     (case map_of (subs h) sid of
        None \<Rightarrow> None
      | Some s \<Rightarrow>
          (case buf (sub_ch s) of
             [] \<Rightarrow> None
           | e # es \<Rightarrow>
               Some (e, h\<lparr>subs := AList.update sid (s\<lparr>sub_ch := (sub_ch s)\<lparr>buf := es\<rparr>\<rparr>) (subs h)\<rparr>)))"

subsection \<open>Events\<close>

datatype 'e hub_event =
    Retained string
  | Released string
  | Subscribed string sub_id
  | Unsubscribed string sub_id
  | Published 'e
  | Received string 'e

text \<open>\<open>Unsubscribed\<close> and \<open>Received\<close> carry the filter of the subscriber they are about.\<close>

inductive hub_step :: "'e hub \<Rightarrow> 'e hub_event \<Rightarrow> 'e hub \<Rightarrow> bool" where
  retain: "hub_step h (Retained k) (Retain k h)"
| release: "hub_step h (Released k) (Release k h)"
| subscribe: "Subscribe flt h = Some (sid, h') \<Longrightarrow> hub_step h (Subscribed flt sid) h'"
| unsubscribe: "map_of (subs h) sid = Some s \<Longrightarrow> Unsubscribe sid h = Some (ch, h') \<Longrightarrow>
    hub_step h (Unsubscribed (sub_filter s) sid) h'"
| publish: "Publish e h = Some h' \<Longrightarrow> hub_step h (Published e) h'"
| receive: "map_of (subs h) sid = Some s \<Longrightarrow> hub_recv sid h = Some (e, h') \<Longrightarrow>
    hub_step h (Received (sub_filter s) e) h'"

inductive hub_trace :: "'e hub \<Rightarrow> 'e hub_event list \<Rightarrow> 'e hub \<Rightarrow> bool" where
  nil: "hub_trace h [] h"
| cons: "hub_step h ev h1 \<Longrightarrow> hub_trace h1 evs h' \<Longrightarrow> hub_trace h (ev # evs) h'"

inductive_cases hub_stepE: "hub_step h ev h'"
inductive_cases hub_trace_NilE: "hub_trace h [] h'"
inductive_cases hub_trace_ConsE: "hub_trace h (ev # evs) h'"

subsection \<open>Invariant\<close>

definition sub_ok :: "'e sub \<Rightarrow> bool" where
  "sub_ok s \<longleftrightarrow> \<not> closed (sub_ch s) \<and> length (buf (sub_ch s)) \<le> room (sub_ch s) \<and>
     subBufSize \<le> room (sub_ch s) \<and> room (sub_ch s) \<le> 2 * subBufSize"

text \<open>
  Ids are distinct and were handed out; every registered channel is open and within its capacity;
  a backlog belongs to a non-empty key of a hub with a key function, fits the buffer size, and is
  empty while a subscriber carries the key.
\<close>

definition hub_inv :: "'e hub \<Rightarrow> bool" where
  "hub_inv h \<longleftrightarrow>
     distinct (map fst (subs h)) \<and>
     (\<forall>p \<in> set (subs h). sub_ok (snd p) \<and> fst p \<le> nextID h) \<and>
     (\<forall>k b. retained h k = Some b \<longrightarrow>
        k \<noteq> [] \<and> keyOf h \<noteq> None \<and> length b \<le> subBufSize \<and> (hub_holds k h \<longrightarrow> b = []))"

text \<open>The notifications of \<open>n\<close> drops at once.\<close>

definition bump :: "nat \<Rightarrow> 'e hub \<Rightarrow> 'e hub" where
  "bump n h = (if observed h then h\<lparr>drops := drops h + n\<rparr> else h)"

text \<open>What one publication does to one subscriber.\<close>

definition wants :: "'e hub \<Rightarrow> string \<Rightarrow> 'e sub \<Rightarrow> bool" where
  "wants h key s \<longleftrightarrow> sub_filter s = [] \<or> keyOf h = None \<or> sub_filter s = key"

definition deliver :: "'e hub \<Rightarrow> 'e \<Rightarrow> string \<Rightarrow> 'e sub \<Rightarrow> 'e sub" where
  "deliver h e key s =
     (if wants h key s \<and> length (buf (sub_ch s)) < room (sub_ch s)
      then s\<lparr>sub_ch := (sub_ch s)\<lparr>buf := buf (sub_ch s) @ [e]\<rparr>\<rparr> else s)"

definition misses :: "'e hub \<Rightarrow> string \<Rightarrow> 'e sub \<Rightarrow> bool" where
  "misses h key s \<longleftrightarrow> wants h key s \<and> \<not> length (buf (sub_ch s)) < room (sub_ch s)"

definition missed :: "'e hub \<Rightarrow> string \<Rightarrow> (sub_id \<times> 'e sub) list \<Rightarrow> nat" where
  "missed h key ss = length (filter (\<lambda>p. misses h key (snd p)) ss)"

definition carriers :: "string \<Rightarrow> (sub_id \<times> 'e sub) list \<Rightarrow> (sub_id \<times> 'e sub) list" where
  "carriers k ss = filter (\<lambda>p. sub_filter (snd p) = k) ss"

text \<open>Everything of key \<open>k\<close> that is waiting: unread on its subscribers' channels, then the backlog.\<close>

definition pending :: "string \<Rightarrow> 'e hub \<Rightarrow> 'e list" where
  "pending k h =
     concat (map (\<lambda>p. buf (sub_ch (snd p))) (carriers k (subs h))) @
     (case retained h k of None \<Rightarrow> [] | Some b \<Rightarrow> b)"

subsection \<open>Channels and drops\<close>

lemma send_all_room:
  "\<not> closed c \<Longrightarrow> length (buf c) + length es \<le> room c \<Longrightarrow> send_all es c = Some (c\<lparr>buf := buf c @ es\<rparr>)"
  by (induction es arbitrary: c) (simp_all add: try_send_def)

lemma bump_simps [simp]:
  "bump 0 h = h" "bump m (bump n h) = bump (n + m) h" "observeDrop h = bump 1 h"
  "subs (bump n h) = subs h" "nextID (bump n h) = nextID h" "keyOf (bump n h) = keyOf h"
  "observed (bump n h) = observed h" "retained (bump n h) = retained h"
  "drops (bump n h) = (if observed h then drops h + n else drops h)"
  by (simp_all add: bump_def observeDrop_def)

lemma bump_update [simp]:
  "bump n (h\<lparr>subs := ss\<rparr>) = (bump n h)\<lparr>subs := ss\<rparr>"
  "bump n (h\<lparr>retained := r\<rparr>) = (bump n h)\<lparr>retained := r\<rparr>"
  by (simp_all add: bump_def)

lemma shrink_eq: "shrink xs h = (drop (length xs - subBufSize) xs, bump (length xs - subBufSize) h)"
proof (induction xs arbitrary: h)
  case (Cons x xs)
  show ?case by (simp add: Cons.IH Suc_diff_le)
qed simp

lemma requeue_eq:
  "requeue ch b h =
    (drop (length (buf ch @ b) - subBufSize) (buf ch @ b), ch\<lparr>buf := []\<rparr>,
     bump (length (buf ch @ b) - subBufSize) h)"
  by (simp add: requeue_def shrink_eq Let_def)

subsection \<open>Publication in closed form\<close>

lemma wants_bump [simp]: "wants (bump n h) = wants h" "deliver (bump n h) = deliver h" "misses (bump n h) = misses h"
  by (auto simp: fun_eq_iff wants_def deliver_def misses_def)

lemma deliver_filter [simp]: "sub_filter (deliver h e key s) = sub_filter s"
  by (simp add: deliver_def)

lemma publish_loop_eq:
  assumes "\<forall>p \<in> set ss. \<not> closed (sub_ch (snd p))"
  shows "publish_loop e key ss att h =
    Some (map (\<lambda>p. (fst p, deliver h e key (snd p))) ss,
          att \<or> (key \<noteq> [] \<and> carriers key ss \<noteq> []), bump (missed h key ss) h)"
  using assms
proof (induction ss arbitrary: att h)
  case (Cons p ss)
  obtain i s where p: "p = (i, s)" by (cases p)
  have op: "\<not> closed (sub_ch s)" and rest: "\<forall>q \<in> set ss. \<not> closed (sub_ch (snd q))"
    using Cons.prems p by auto
  show ?case
  proof (cases "wants h key s")
    case False
    then show ?thesis
      by (auto simp: p Cons.IH [OF rest] wants_def deliver_def misses_def missed_def carriers_def)
  next
    case True
    then show ?thesis
      using op
      by (auto simp: p Cons.IH [OF rest] wants_def try_send_def deliver_def misses_def missed_def carriers_def)
  qed
qed (simp add: missed_def carriers_def)

definition backlogged :: "'e \<Rightarrow> 'e list \<Rightarrow> 'e list" where
  "backlogged e b = (if length b \<ge> subBufSize then tl b else b) @ [e]"

lemma Publish_eq:
  assumes "hub_inv h"
  shows "Publish e h =
    (let key = entry_key h e;
         h1 = (bump (missed h key (subs h)) h)\<lparr>subs := map (\<lambda>p. (fst p, deliver h e key (snd p))) (subs h)\<rparr>
     in case retained h key of
          None \<Rightarrow> Some h1
        | Some b \<Rightarrow>
            if carriers key (subs h) \<noteq> [] then Some h1
            else Some ((bump (if length b \<ge> subBufSize then 1 else 0) h1)
                   \<lparr>retained := (retained h)(key := Some (backlogged e b))\<rparr>))"
proof -
  have "\<forall>p \<in> set (subs h). \<not> closed (sub_ch (snd p))"
    using assms by (auto simp: hub_inv_def sub_ok_def)
  note loop = publish_loop_eq [OF this, of e "entry_key h e" False h]
  have "retained h [] = None" using assms by (cases "retained h []") (auto simp: hub_inv_def)
  then show ?thesis
    by (auto simp: Publish_def Let_def loop backlogged_def split: option.splits)
qed

subsection \<open>Subscription in closed form\<close>

lemma update_fresh: "k \<notin> fst ` set al \<Longrightarrow> AList.update k v al = al @ [(k, v)]"
  by (induction al) auto

lemma update_present:
  "distinct (map fst al) \<Longrightarrow> map_of al k = Some w \<Longrightarrow>
   AList.update k v al = map (\<lambda>p. if fst p = k then (k, v) else p) al"
proof (induction al)
  case (Cons p al)
  then show ?case
    by (cases "fst p = k") (auto intro!: map_idI [symmetric] simp: image_iff)
qed simp

lemma next_id_fresh:
  fixes n :: "64 word"
  assumes "n \<noteq> - 1" "i \<le> n"
  shows "i \<noteq> n + 1" "i \<le> n + 1"
proof -
  have "uint n \<noteq> 2 ^ 64 - 1"
  proof
    assume "uint n = 2 ^ 64 - 1"
    then have "n = word_of_int (2 ^ 64 - 1)" by (metis word_of_int_uint)
    then show False using assms(1) by simp
  qed
  then have "uint n + uint (1 :: 64 word) < 2 ^ 64" using uint_lt2p [of n] by simp
  then have "n \<le> n + 1" by (simp add: no_olen_add)
  moreover have "n + 1 \<noteq> n" by simp
  ultimately show "i \<noteq> n + 1" "i \<le> n + 1" using assms(2) by auto
qed

lemma Subscribe_eq:
  assumes "hub_inv h" "nextID h \<noteq> - 1"
  shows "Subscribe flt h =
    (let held = (case retained h flt of None \<Rightarrow> [] | Some b \<Rightarrow> b)
     in Some (nextID h + 1,
          h\<lparr>retained := (if retained h flt \<noteq> None then (retained h)(flt \<mapsto> []) else retained h),
            nextID := nextID h + 1,
            subs := subs h @ [(nextID h + 1,
              \<lparr>sub_ch = \<lparr>buf = held, room = subBufSize + length held, closed = False\<rparr>, sub_filter = flt\<rparr>)]\<rparr>))"
proof -
  have "nextID h + 1 \<notin> fst ` set (subs h)"
    using assms next_id_fresh(1) by (fastforce simp: hub_inv_def)
  then show ?thesis
    by (simp add: Subscribe_def Let_def make_chan_def send_all_room update_fresh)
qed

lemma Unsubscribe_eq:
  assumes "hub_inv h" "map_of (subs h) sid = Some s"
  shows "Unsubscribe sid h =
    (let rest = filter (\<lambda>p. fst p \<noteq> sid) (subs h); u = buf (sub_ch s)
     in if retained h (sub_filter s) = None \<or> carriers (sub_filter s) rest \<noteq> []
        then Some (Some ((sub_ch s)\<lparr>closed := True\<rparr>), h\<lparr>subs := rest\<rparr>)
        else Some (Some ((sub_ch s)\<lparr>buf := [], closed := True\<rparr>),
          (bump (length u - subBufSize) h)
            \<lparr>subs := rest, retained := (retained h)(sub_filter s := Some (drop (length u - subBufSize) u))\<rparr>))"
proof -
  have s: "(sid, s) \<in> set (subs h)" using assms(2) by (rule map_of_SomeD)
  then have op: "\<not> closed (sub_ch s)" using assms(1) by (auto simp: hub_inv_def sub_ok_def)
  have "hub_holds (sub_filter s) h" using s by (force simp: hub_holds_def list_ex_iff)
  then have b: "retained h (sub_filter s) = Some b \<Longrightarrow> b = []" for b
    using assms(1) by (auto simp: hub_inv_def)
  have holds: "hub_holds k (h\<lparr>subs := ss\<rparr>) \<longleftrightarrow> carriers k ss \<noteq> []" for k and ss :: "(sub_id \<times> 'a sub) list"
    by (auto simp: hub_holds_def carriers_def list_ex_iff filter_empty_conv)
  show ?thesis
    using op b
    by (auto simp: Unsubscribe_def assms(2) leave_backlog_def delete_filter holds requeue_eq close_chan_def Let_def
        split: option.splits)
qed

lemma hub_recv_eq:
  assumes "hub_inv h" "map_of (subs h) sid = Some s" "buf (sub_ch s) = e # es"
  shows "hub_recv sid h = Some (e, h\<lparr>subs :=
    map (\<lambda>p. if fst p = sid then (sid, s\<lparr>sub_ch := (sub_ch s)\<lparr>buf := es\<rparr>\<rparr>) else p) (subs h)\<rparr>)"
  using assms update_present [of "subs h" sid s] by (simp add: hub_recv_def hub_inv_def)

subsection \<open>Every operation keeps the invariant\<close>

lemma hub_holds_carriers: "hub_holds k h \<longleftrightarrow> carriers k (subs h) \<noteq> []"
  by (auto simp: hub_holds_def carriers_def list_ex_iff filter_empty_conv)

lemma carriers_deliver [simp]:
  "carriers k (map (\<lambda>p. (fst p, deliver h e key (snd p))) ss) =
   map (\<lambda>p. (fst p, deliver h e key (snd p))) (carriers k ss)"
  by (induction ss) (auto simp: carriers_def)

lemma carriers_append [simp]: "carriers k (xs @ ys) = carriers k xs @ carriers k ys"
  by (simp add: carriers_def)

lemma carriers_mono: "set xs \<subseteq> set ys \<Longrightarrow> carriers k xs \<noteq> [] \<Longrightarrow> carriers k ys \<noteq> []"
  by (auto simp: carriers_def filter_empty_conv)

lemma deliver_ok [intro]: "sub_ok s \<Longrightarrow> sub_ok (deliver h e key s)"
  by (simp add: sub_ok_def deliver_def)

lemma hub_invI:
  assumes "distinct (map fst (subs h))" "\<And>p. p \<in> set (subs h) \<Longrightarrow> sub_ok (snd p) \<and> fst p \<le> nextID h"
    and "\<And>k b. retained h k = Some b \<Longrightarrow> k \<noteq> [] \<and> keyOf h \<noteq> None \<and> length b \<le> subBufSize"
    and "\<And>k b. retained h k = Some b \<Longrightarrow> carriers k (subs h) \<noteq> [] \<Longrightarrow> b = []"
  shows "hub_inv h"
  unfolding hub_inv_def hub_holds_carriers using assms by blast

lemma hub_invD:
  assumes "hub_inv h"
  shows "distinct (map fst (subs h))" "p \<in> set (subs h) \<Longrightarrow> sub_ok (snd p)" "p \<in> set (subs h) \<Longrightarrow> fst p \<le> nextID h"
    and "retained h k = Some b \<Longrightarrow> k \<noteq> []" "retained h k = Some b \<Longrightarrow> keyOf h \<noteq> None"
    and "retained h k = Some b \<Longrightarrow> length b \<le> subBufSize"
    and "retained h k = Some b \<Longrightarrow> carriers k (subs h) \<noteq> [] \<Longrightarrow> b = []"
  using assms unfolding hub_inv_def hub_holds_carriers by blast+

lemma NewHub_inv [simp]: "hub_inv (NewHub kf obs)"
  by (simp add: hub_inv_def NewHub_def)

lemma Retain_inv: "hub_inv h \<Longrightarrow> hub_inv (Retain k h)"
  by (auto simp: Retain_def hub_inv_def hub_holds_def)

lemma Release_inv: "hub_inv h \<Longrightarrow> hub_inv (Release k h)"
  by (auto simp: Release_def hub_inv_def hub_holds_def)

lemma length_backlogged: "length b \<le> subBufSize \<Longrightarrow> length (backlogged e b) \<le> subBufSize"
  by (cases b) (auto simp: backlogged_def subBufSize_def)

lemma Publish_inv:
  assumes inv: "hub_inv h" and pub: "Publish e h = Some h'"
  shows "hub_inv h'"
proof (rule hub_invI)
  note eq = pub [unfolded Publish_eq [OF inv] Let_def]
  have subs': "subs h' = map (\<lambda>p. (fst p, deliver h e (entry_key h e) (snd p))) (subs h)" "nextID h' = nextID h"
    "keyOf h' = keyOf h"
    using eq by (auto split: option.splits if_splits)
  show "distinct (map fst (subs h'))" using hub_invD(1) [OF inv] by (simp add: subs' o_def)
  show "sub_ok (snd p) \<and> fst p \<le> nextID h'" if "p \<in> set (subs h')" for p
    using that by (auto simp: subs' intro!: deliver_ok dest: hub_invD(2,3) [OF inv])
  show "k \<noteq> [] \<and> keyOf h' \<noteq> None \<and> length b \<le> subBufSize" if "retained h' k = Some b" for k b
    using that eq
    by (auto simp: subs' split: option.splits if_splits intro!: length_backlogged dest: hub_invD(4,5,6) [OF inv])
  show "b = []" if "retained h' k = Some b" "carriers k (subs h') \<noteq> []" for k b
    using that eq hub_invD(7) [OF inv] by (auto simp: subs' split: option.splits if_splits)
qed

lemma Subscribe_inv:
  assumes inv: "hub_inv h" and "nextID h \<noteq> - 1" and sub: "Subscribe flt h = Some (sid, h')"
  shows "hub_inv h'"
proof (rule hub_invI)
  let ?held = "case retained h flt of None \<Rightarrow> [] | Some b \<Rightarrow> b"
  note h' = sub [unfolded Subscribe_eq [OF assms(1,2)] Let_def, simplified]
  have le: "length ?held \<le> subBufSize" using hub_invD(6) [OF inv] by (auto split: option.splits)
  have ids: "nextID h + 1 \<notin> fst ` set (subs h)" "p \<in> set (subs h) \<Longrightarrow> fst p \<le> nextID h + 1" for p
    using next_id_fresh [OF assms(2) hub_invD(3) [OF inv]] by (force, blast)
  show "distinct (map fst (subs h'))"
    using hub_invD(1) [OF inv] ids(1) h' by auto
  show "sub_ok (snd p) \<and> fst p \<le> nextID h'" if "p \<in> set (subs h')" for p
    using that hub_invD(2) [OF inv, of p] ids(2) [of p] le h' by (auto simp: sub_ok_def)
  show "k \<noteq> [] \<and> keyOf h' \<noteq> None \<and> length b \<le> subBufSize" if "retained h' k = Some b" for k b
    using that h' by (auto split: if_splits dest: hub_invD(4,5,6) [OF inv])
  show "b = []" if "retained h' k = Some b" "carriers k (subs h') \<noteq> []" for k b
    using that hub_invD(7) [OF inv] h' by (auto simp: carriers_def split: if_splits)
qed

lemma Unsubscribe_inv:
  assumes inv: "hub_inv h" and unsub: "Unsubscribe sid h = Some (ch, h')"
  shows "hub_inv h'"
proof (cases "map_of (subs h) sid")
  case None
  then show ?thesis using inv unsub by (simp add: Unsubscribe_def)
next
  case (Some s)
  note eq = unsub [unfolded Unsubscribe_eq [OF inv Some] Let_def]
  have subs': "subs h' = filter (\<lambda>p. fst p \<noteq> sid) (subs h)" "nextID h' = nextID h" "keyOf h' = keyOf h"
    using eq by (auto split: if_splits)
  show ?thesis
  proof (rule hub_invI)
    show "distinct (map fst (subs h'))" using hub_invD(1) [OF inv] by (simp add: subs' distinct_map_filter)
    show "sub_ok (snd p) \<and> fst p \<le> nextID h'" if "p \<in> set (subs h')" for p
      using that hub_invD(2,3) [OF inv, of p] by (auto simp: subs')
    show "k \<noteq> [] \<and> keyOf h' \<noteq> None \<and> length b \<le> subBufSize" if "retained h' k = Some b" for k b
      using that eq by (auto split: if_splits dest: hub_invD(4,5,6) [OF inv])
    show "b = []" if "retained h' k = Some b" "carriers k (subs h') \<noteq> []" for k b
      using that eq hub_invD(7) [OF inv, of k b] carriers_mono [of "subs h'" "subs h" k]
      by (auto simp: subs' split: if_splits)
  qed
qed

lemma hub_recv_Some:
  assumes "hub_recv sid h = Some (e, h')" "map_of (subs h) sid = Some s"
  obtains es where "buf (sub_ch s) = e # es"
  using assms by (auto simp: hub_recv_def split: list.splits)

lemma carriers_replace:
  assumes "\<And>p. p \<in> set ss \<Longrightarrow> fst p = sid \<Longrightarrow> snd p = s"
  shows "carriers k (map (\<lambda>p. if fst p = sid then (sid, s\<lparr>sub_ch := c\<rparr>) else p) ss) =
    map (\<lambda>p. if fst p = sid then (sid, s\<lparr>sub_ch := c\<rparr>) else p) (carriers k ss)"
  using assms by (induction ss) (auto simp: carriers_def)

lemma sub_unique:
  assumes "hub_inv h" "map_of (subs h) sid = Some s" "p \<in> set (subs h)" "fst p = sid"
  shows "snd p = s"
  using assms hub_invD(1) [OF assms(1)] by (metis map_of_is_SomeI option.inject prod.collapse)

lemma hub_recv_inv:
  assumes inv: "hub_inv h" and recv: "hub_recv sid h = Some (e, h')"
  shows "hub_inv h'"
proof -
  obtain s where s: "map_of (subs h) sid = Some s" using recv by (auto simp: hub_recv_def split: option.splits)
  obtain es where es: "buf (sub_ch s) = e # es" using hub_recv_Some [OF recv s] .
  note h' = recv [unfolded hub_recv_eq [OF inv s es], simplified]
  have sok: "sub_ok s" "sid \<le> nextID h"
    using hub_invD(2,3) [OF inv map_of_SomeD [OF s]] by simp_all
  show ?thesis
  proof (rule hub_invI)
    have "map fst (subs h') = map fst (subs h)" using h' by auto
    then show "distinct (map fst (subs h'))" using hub_invD(1) [OF inv] by simp
    show "sub_ok (snd p) \<and> fst p \<le> nextID h'" if "p \<in> set (subs h')" for p
      using that hub_invD(2,3) [OF inv, of p] sok h' es by (auto simp: sub_ok_def split: if_splits)
    show "k \<noteq> [] \<and> keyOf h' \<noteq> None \<and> length b \<le> subBufSize" if "retained h' k = Some b" for k b
      using that h' by (auto dest: hub_invD(4,5,6) [OF inv])
    show "b = []" if "retained h' k = Some b" "carriers k (subs h') \<noteq> []" for k b
      using that hub_invD(7) [OF inv] h' carriers_replace [OF sub_unique [OF inv s]] by auto
  qed
qed

lemmas hub_op_inv = Retain_inv Release_inv Publish_inv Subscribe_inv Unsubscribe_inv hub_recv_inv

lemma hub_step_inv: "hub_step h ev h' \<Longrightarrow> hub_inv h \<Longrightarrow> nextID h \<noteq> - 1 \<Longrightarrow> hub_inv h'"
  by (cases rule: hub_step.cases) (auto intro: hub_op_inv)

subsection \<open>A key's entries as a queue\<close>

text \<open>
  A component that only ever appends what goes in and hands out what waits first conserves the
  order of its entries along every execution.
\<close>

inductive chain :: "('s \<Rightarrow> 'v \<Rightarrow> 's \<Rightarrow> bool) \<Rightarrow> 's \<Rightarrow> 'v list \<Rightarrow> 's \<Rightarrow> bool" for step where
  chain_nil: "chain step s [] s"
| chain_cons: "step s ev s1 \<Longrightarrow> chain step s1 evs s' \<Longrightarrow> chain step s (ev # evs) s'"

locale feed =
  fixes step :: "'s \<Rightarrow> 'v \<Rightarrow> 's \<Rightarrow> bool"
    and content :: "'s \<Rightarrow> 'a list"
    and ins :: "'v \<Rightarrow> 'a list"
    and outs :: "'v \<Rightarrow> 'a list"
  assumes step_conserves: "step s ev s' \<Longrightarrow> content s @ ins ev = outs ev @ content s'"
begin

lemma chain_conserves:
  "chain step s evs s' \<Longrightarrow> content s @ concat (map ins evs) = concat (map outs evs) @ content s'"
proof (induction rule: chain.induct)
  case (chain_cons s ev s1 evs s')
  have "content s @ concat (map ins (ev # evs)) = outs ev @ (content s1 @ concat (map ins evs))"
    using step_conserves [OF chain_cons.hyps(1)] by simp
  then show ?case by (simp add: chain_cons.IH)
qed simp

end

fun published :: "('e \<Rightarrow> string) \<Rightarrow> string \<Rightarrow> 'e hub_event \<Rightarrow> 'e list" where
  "published f k (Published e) = (if f e = k then [e] else [])"
| "published f k _ = []"

fun received :: "string \<Rightarrow> 'e hub_event \<Rightarrow> 'e list" where
  "received k (Received flt e) = (if flt = k then [e] else [])"
| "received k _ = []"

text \<open>A step of a retained key with at most one subscriber, in which nothing is dropped.\<close>

definition calm_step :: "('e \<Rightarrow> string) \<Rightarrow> string \<Rightarrow> 'e hub \<Rightarrow> 'e hub_event \<Rightarrow> 'e hub \<Rightarrow> bool" where
  "calm_step f k h ev h' \<longleftrightarrow>
     hub_step h ev h' \<and> hub_inv h \<and> nextID h \<noteq> - 1 \<and> keyOf h = Some f \<and> observed h \<and>
     retained h k \<noteq> None \<and> length (carriers k (subs h)) \<le> 1 \<and> ev \<noteq> Released k \<and>
     (\<forall>sid. ev = Subscribed k sid \<longrightarrow> carriers k (subs h) = []) \<and> drops h' = drops h"

lemma carriers_sole:
  assumes "length (carriers k (subs h)) \<le> 1" "p \<in> set (subs h)" "sub_filter (snd p) = k"
  shows "carriers k (subs h) = [p]"
proof -
  have "p \<in> set (carriers k (subs h))" using assms(2,3) by (simp add: carriers_def)
  then show ?thesis using assms(1) by (cases "carriers k (subs h)") auto
qed

lemma missed_zero: "missed h key ss = 0 \<Longrightarrow> p \<in> set ss \<Longrightarrow> \<not> misses h key (snd p)"
  by (auto simp: missed_def filter_empty_conv)

lemma pending_publish:
  assumes inv: "hub_inv h" and obs: "observed h" and f: "keyOf h = Some f" and k: "retained h k = Some b"
    and one: "length (carriers k (subs h)) \<le> 1"
    and pub: "Publish e h = Some h'" and calm: "drops h' = drops h"
  shows "pending k h' = pending k h @ (if f e = k then [e] else [])"
proof -
  have key: "entry_key h e = f e" by (simp add: entry_key_def f)
  note eq = pub [unfolded Publish_eq [OF inv] Let_def key]
  have knil: "k \<noteq> []" using hub_invD(4) [OF inv k] .
  have subs': "subs h' = map (\<lambda>p. (fst p, deliver h e (f e) (snd p))) (subs h)"
    using eq by (auto split: option.splits if_splits)
  have none: "missed h (f e) (subs h) = 0"
    using eq calm obs by (auto split: option.splits if_splits)
  show ?thesis
  proof (cases "f e = k")
    case False
    have "buf (sub_ch (deliver h e (f e) (snd p))) = buf (sub_ch (snd p))" if "p \<in> set (carriers k (subs h))" for p
      using that False f knil by (auto simp: carriers_def deliver_def wants_def)
    then have "map (\<lambda>p. buf (sub_ch (snd p))) (carriers k (subs h')) = map (\<lambda>p. buf (sub_ch (snd p))) (carriers k (subs h))"
      by (simp add: subs' o_def)
    moreover have "retained h' k = retained h k" using eq False by (auto split: option.splits if_splits)
    ultimately show ?thesis using False by (simp add: pending_def)
  next
    case True
    show ?thesis
    proof (cases "carriers k (subs h)")
      case Nil
      then have "retained h' k = Some (backlogged e b)" "length b < subBufSize"
        using eq True k calm obs none by (auto split: if_splits)
      then show ?thesis using Nil True k by (simp add: pending_def subs' backlogged_def)
    next
      case (Cons p ps)
      then have c: "carriers k (subs h) = [p]" using one by simp
      then have p: "p \<in> set (subs h)" "sub_filter (snd p) = k" by (auto simp: carriers_def dest: filter_eq_ConsD)
      have "b = []" using hub_invD(7) [OF inv k] c by simp
      moreover have "buf (sub_ch (deliver h e k (snd p))) = buf (sub_ch (snd p)) @ [e]"
        using missed_zero [OF none p(1)] True p(2) by (auto simp: misses_def deliver_def wants_def)
      moreover have "retained h' k = retained h k" using eq True k c by (auto split: if_splits)
      ultimately show ?thesis using True c k by (simp add: pending_def subs')
    qed
  qed
qed

lemma pending_subscribe:
  assumes inv: "hub_inv h" "nextID h \<noteq> - 1" and k: "retained h k = Some b"
    and free: "flt = k \<Longrightarrow> carriers k (subs h) = []" and sub: "Subscribe flt h = Some (sid, h')"
  shows "pending k h' = pending k h"
  using sub [unfolded Subscribe_eq [OF inv] Let_def, simplified] k free
  by (cases "flt = k") (auto simp: pending_def carriers_def)

lemma carriers_without:
  assumes "\<And>p. p \<in> set ss \<Longrightarrow> fst p = sid \<Longrightarrow> sub_filter (snd p) \<noteq> k"
  shows "carriers k (filter (\<lambda>p. fst p \<noteq> sid) ss) = carriers k ss"
  using assms by (induction ss) (auto simp: carriers_def)

lemma carriers_rest:
  assumes inv: "hub_inv h" and s: "map_of (subs h) sid = Some s" and one: "length (carriers k (subs h)) \<le> 1"
  shows "carriers k (filter (\<lambda>p. fst p \<noteq> sid) (subs h)) = (if sub_filter s = k then [] else carriers k (subs h))"
proof (cases "sub_filter s = k")
  case True
  have c: "carriers k (subs h) = [(sid, s)]"
    using carriers_sole [OF one map_of_SomeD [OF s]] True by simp
  have "carriers k (filter (\<lambda>p. fst p \<noteq> sid) (subs h)) = filter (\<lambda>p. fst p \<noteq> sid) (carriers k (subs h))"
    by (simp add: carriers_def conj_commute)
  then show ?thesis using True c by simp
next
  case False
  then show ?thesis using carriers_without [of "subs h" sid k] sub_unique [OF inv s] by simp
qed

lemma pending_unsubscribe:
  assumes inv: "hub_inv h" and obs: "observed h" and k: "retained h k = Some b"
    and one: "length (carriers k (subs h)) \<le> 1" and s: "map_of (subs h) sid = Some s"
    and unsub: "Unsubscribe sid h = Some (ch, h')" and calm: "drops h' = drops h"
  shows "pending k h' = pending k h"
proof -
  note eq = unsub [unfolded Unsubscribe_eq [OF inv s] Let_def] and rest = carriers_rest [OF inv s one]
  show ?thesis
  proof (cases "sub_filter s = k")
    case True
    have c: "carriers k (subs h) = [(sid, s)]"
      using carriers_sole [OF one map_of_SomeD [OF s]] True by simp
    then have "b = []" using hub_invD(7) [OF inv k] by simp
    moreover have "retained h' k = Some (buf (sub_ch s))" "subs h' = filter (\<lambda>p. fst p \<noteq> sid) (subs h)"
      using eq True k rest calm obs by auto
    ultimately show ?thesis using c k True rest by (simp add: pending_def)
  next
    case False
    have "retained h' k = retained h k" "subs h' = filter (\<lambda>p. fst p \<noteq> sid) (subs h)"
      using eq False by (auto split: if_splits)
    then show ?thesis using False rest by (simp add: pending_def)
  qed
qed

lemma hub_recv_frame:
  assumes inv: "hub_inv h" and s: "map_of (subs h) sid = Some s" and recv: "hub_recv sid h = Some (e, h')"
  obtains es where "buf (sub_ch s) = e # es" "retained h' = retained h"
    and "carriers k (subs h') =
      map (\<lambda>p. if fst p = sid then (sid, s\<lparr>sub_ch := (sub_ch s)\<lparr>buf := es\<rparr>\<rparr>) else p) (carriers k (subs h))"
proof -
  obtain es where es: "buf (sub_ch s) = e # es" using hub_recv_Some [OF recv s] .
  note h' = recv [unfolded hub_recv_eq [OF inv s es], simplified]
  have "carriers k (subs h') =
      map (\<lambda>p. if fst p = sid then (sid, s\<lparr>sub_ch := (sub_ch s)\<lparr>buf := es\<rparr>\<rparr>) else p) (carriers k (subs h))"
    and "retained h' = retained h"
    using h' carriers_replace [of "subs h" sid s] sub_unique [OF inv s] by auto
  with es show thesis using that by blast
qed

lemma pending_receive:
  assumes inv: "hub_inv h" and one: "length (carriers k (subs h)) \<le> 1"
    and s: "map_of (subs h) sid = Some s" and recv: "hub_recv sid h = Some (e, h')"
  shows "pending k h = (if sub_filter s = k then [e] else []) @ pending k h'"
proof -
  obtain es where es: "buf (sub_ch s) = e # es" and r: "retained h' = retained h"
    and c': "carriers k (subs h') =
      map (\<lambda>p. if fst p = sid then (sid, s\<lparr>sub_ch := (sub_ch s)\<lparr>buf := es\<rparr>\<rparr>) else p) (carriers k (subs h))"
    using hub_recv_frame [OF inv s recv] .
  show ?thesis
  proof (cases "sub_filter s = k")
    case True
    have c: "carriers k (subs h) = [(sid, s)]"
      using carriers_sole [OF one map_of_SomeD [OF s]] True by simp
    show ?thesis using c c' r es True by (simp add: pending_def)
  next
    case False
    have "fst p \<noteq> sid" if "p \<in> set (carriers k (subs h))" for p
      using that sub_unique [OF inv s, of p] False by (auto simp: carriers_def)
    then have "carriers k (subs h') = carriers k (subs h)" using c' by (simp add: map_idI)
    then show ?thesis using False r by (simp add: pending_def)
  qed
qed

lemma calm_conserves:
  assumes "calm_step f k h ev h'"
  shows "pending k h @ published f k ev = received k ev @ pending k h'"
proof -
  obtain b where b: "retained h k = Some b" using assms by (auto simp: calm_step_def)
  note calm = assms [unfolded calm_step_def] and inv = assms [unfolded calm_step_def, THEN conjunct2, THEN conjunct1]
  from calm have "hub_step h ev h'" by simp
  then show ?thesis
  proof cases
    case (retain k')
    then show ?thesis using b by (auto simp: pending_def Retain_def)
  next
    case (release k')
    then show ?thesis using calm by (auto simp: pending_def Release_def)
  next
    case (subscribe flt sid)
    then show ?thesis using pending_subscribe [OF inv _ b _ subscribe(2)] calm by simp
  next
    case (unsubscribe sid s ch)
    then show ?thesis using pending_unsubscribe [OF inv _ b _ unsubscribe(2,3)] calm by simp
  next
    case (publish e)
    then show ?thesis using pending_publish [OF inv _ _ b _ publish(2)] calm by simp
  next
    case (receive sid s e)
    then show ?thesis using pending_receive [OF inv _ receive(2,3)] calm by simp
  qed
qed

interpretation hub_feed: feed "calm_step f k" "pending k" "published f k" "received k" for f k
  by unfold_locales (rule calm_conserves)

subsection \<open>Executions\<close>

fun exclusive :: "string \<Rightarrow> bool \<Rightarrow> 'e hub_event list \<Rightarrow> bool" where
  "exclusive k att [] = True"
| "exclusive k att (Subscribed flt sid # evs) =
     (if flt = k then \<not> att \<and> exclusive k True evs else exclusive k att evs)"
| "exclusive k att (Unsubscribed flt sid # evs) = exclusive k (att \<and> flt \<noteq> k) evs"
| "exclusive k att (ev # evs) = exclusive k att evs"

lemma unat_suc_le: "unat (n + 1 :: 64 word) \<le> Suc (unat n)"
  by (simp add: unat_word_ariths)

lemma hub_step_frame:
  assumes "hub_step h ev h'" "hub_inv h" "nextID h \<noteq> - 1"
  shows "drops h \<le> drops h' \<and> observed h' = observed h \<and> keyOf h' = keyOf h \<and>
    unat (nextID h') \<le> Suc (unat (nextID h)) \<and>
    (retained h k \<noteq> None \<and> ev \<noteq> Released k \<longrightarrow> retained h' k \<noteq> None)"
  using assms(1)
proof cases
  case (subscribe flt sid)
  then show ?thesis using Subscribe_eq [OF assms(2,3), of flt] unat_suc_le [of "nextID h"] by (auto simp: Let_def)
next
  case (unsubscribe sid s ch)
  then show ?thesis using Unsubscribe_eq [OF assms(2) unsubscribe(2)] by (auto simp: Let_def split: if_splits)
next
  case (publish e)
  then show ?thesis using Publish_eq [OF assms(2), of e] by (auto simp: Let_def split: option.splits if_splits)
next
  case (receive sid s e)
  then show ?thesis by (auto simp: hub_recv_def split: list.splits)
qed (auto simp: Retain_def Release_def)

lemma hub_step_carriers:
  assumes "hub_step h ev h'" "hub_inv h" "nextID h \<noteq> - 1" "length (carriers k (subs h)) \<le> 1"
    and "exclusive k (carriers k (subs h) \<noteq> []) (ev # evs)"
  shows "length (carriers k (subs h')) \<le> 1 \<and> exclusive k (carriers k (subs h') \<noteq> []) evs"
  using assms(1)
proof cases
  case (subscribe flt sid)
  then show ?thesis
    using Subscribe_eq [OF assms(2,3), of flt] assms(4,5)
    by (cases "flt = k") (auto simp: Let_def carriers_def)
next
  case (unsubscribe sid s ch)
  then have "subs h' = filter (\<lambda>p. fst p \<noteq> sid) (subs h)"
    using Unsubscribe_eq [OF assms(2) unsubscribe(2)] by (auto simp: Let_def split: if_splits)
  then show ?thesis using carriers_rest [OF assms(2) unsubscribe(2) assms(4)] unsubscribe(1) assms(4,5) by auto
next
  case (publish e)
  then have "subs h' = map (\<lambda>p. (fst p, deliver h e (entry_key h e) (snd p))) (subs h)"
    using Publish_eq [OF assms(2), of e] by (auto simp: Let_def split: option.splits if_splits)
  then show ?thesis using publish(1) assms(4,5) by simp
next
  case (receive sid s e)
  obtain es where "carriers k (subs h') =
      map (\<lambda>p. if fst p = sid then (sid, s\<lparr>sub_ch := (sub_ch s)\<lparr>buf := es\<rparr>\<rparr>) else p) (carriers k (subs h))"
    using hub_recv_frame [OF assms(2) receive(2,3)] .
  then show ?thesis using receive(1) assms(4,5) by simp
qed (use assms(4,5) in \<open>auto simp: Retain_def Release_def\<close>)

lemma not_max: "unat (n :: 64 word) < 2 ^ 64 - 1 \<Longrightarrow> n \<noteq> - 1"
proof
  assume "unat n < 2 ^ 64 - 1" "n = - 1"
  then show False by (simp add: unsigned_minus_1_eq_mask mask_eq_exp_minus_1)
qed

lemma hub_trace_inv:
  assumes "hub_trace h evs h'" "hub_inv h" "unat (nextID h) + length evs < 2 ^ 64"
  shows "hub_inv h' \<and> drops h \<le> drops h' \<and> unat (nextID h') \<le> unat (nextID h) + length evs"
  using assms
proof (induction rule: hub_trace.induct)
  case (cons h ev h1 evs h')
  have n: "nextID h \<noteq> - 1" using cons.prems(2) by (intro not_max) simp
  note frame = hub_step_frame [OF cons.hyps(1) cons.prems(1) n, of "[]"]
  have inv: "hub_inv h1" using hub_step_inv [OF cons.hyps(1) cons.prems(1) n] .
  have len: "unat (nextID h1) + length evs < 2 ^ 64" using frame cons.prems(2) by simp
  show ?case using cons.IH [OF inv len] frame by auto
qed simp

lemma calm_chain:
  assumes "hub_trace h evs h'" "hub_inv h" "unat (nextID h) + length evs < 2 ^ 64"
    and "keyOf h = Some f" "observed h" "retained h k \<noteq> None" "length (carriers k (subs h)) \<le> 1"
    and "Released k \<notin> set evs" "exclusive k (carriers k (subs h) \<noteq> []) evs" "drops h' = drops h"
  shows "chain (calm_step f k) h evs h'"
  using assms
proof (induction rule: hub_trace.induct)
  case (nil h)
  show ?case by (rule chain_nil)
next
  case (cons h ev h1 evs h')
  have n: "nextID h \<noteq> - 1" using cons.prems(2) by (intro not_max) simp
  note frame = hub_step_frame [OF cons.hyps(1) cons.prems(1) n, of k]
  note c = hub_step_carriers [OF cons.hyps(1) cons.prems(1) n cons.prems(6,8)]
  have inv: "hub_inv h1" using hub_step_inv [OF cons.hyps(1) cons.prems(1) n] .
  have len: "unat (nextID h1) + length evs < 2 ^ 64" using frame cons.prems(2) by simp
  have "drops h1 \<le> drops h'" using hub_trace_inv [OF cons.hyps(2) inv len] by simp
  then have d: "drops h1 = drops h" using frame cons.prems(9) by simp
  have "calm_step f k h ev h1"
    using cons.hyps(1) cons.prems n d by (auto simp: calm_step_def)
  moreover have "chain (calm_step f k) h1 evs h'"
    using cons.IH [OF inv len] frame c cons.prems d by auto
  ultimately show ?case by (rule chain_cons)
qed

subsection \<open>Properties\<close>

lemma hub_ops_total:
  assumes "hub_inv h"
  shows "Publish e h \<noteq> None" "nextID h \<noteq> - 1 \<Longrightarrow> Subscribe flt h \<noteq> None" "Unsubscribe sid h \<noteq> None"
proof -
  show "Publish e h \<noteq> None" by (simp add: Publish_eq [OF assms] Let_def split: option.splits)
  show "Subscribe flt h \<noteq> None" if "nextID h \<noteq> - 1" by (simp add: Subscribe_eq [OF assms that] Let_def)
  show "Unsubscribe sid h \<noteq> None"
    by (cases "map_of (subs h) sid") (simp add: Unsubscribe_def, simp add: Unsubscribe_eq [OF assms] Let_def)
qed

lemma missed_mset:
  "mset ss = mset ss' \<Longrightarrow> missed h key ss = missed h key ss'"
  by (metis missed_def mset_filter size_mset)

lemma carriers_mset:
  "mset ss = mset ss' \<Longrightarrow> carriers k ss = [] \<longleftrightarrow> carriers k ss' = []"
  by (metis carriers_def mset_filter mset_zero_iff)

text \<open>C12: No operation of the hub panics or blocks with the mutex held, in any state that an execution
of the hub reaches before the id counter has run through its 64 bits: no send or close meets a
closed channel, and the replay of a backlog never fills the channel made for it. In every such
state a channel buffers at most twice the buffer size and a backlog at most the buffer size.\<close>

theorem hub_safe:
  assumes "hub_trace (NewHub kf obs) evs h" and "length evs < 2 ^ 64 - 1"
  shows "Publish e h \<noteq> None \<and> Subscribe flt h \<noteq> None \<and> Unsubscribe sid h \<noteq> None \<and>
    (\<forall>p \<in> set (subs h). length (buf (sub_ch (snd p))) \<le> 512) \<and>
    (\<forall>k b. retained h k = Some b \<longrightarrow> length b \<le> 256)"
proof -
  have n0: "unat (nextID (NewHub kf obs)) = 0" by (simp add: NewHub_def)
  have inv: "hub_inv h" and n: "unat (nextID h) \<le> length evs"
    using hub_trace_inv [OF assms(1)] assms(2) n0 by simp_all
  have "nextID h \<noteq> - 1" using n assms(2) by (intro not_max) simp
  moreover have "length (buf (sub_ch (snd p))) \<le> 512" if "p \<in> set (subs h)" for p
    using hub_invD(2) [OF inv that] by (simp add: sub_ok_def subBufSize_def)
  ultimately show ?thesis
    using hub_ops_total [OF inv] hub_invD(6) [OF inv] by (auto simp: subBufSize_def)
qed

theorem hub_safe_witness:
  "Publish (7 :: nat) (Retain ''p'' (NewHub (Some (\<lambda>_. ''p'')) True)) \<noteq> None"
proof -
  have "hub_trace (NewHub (Some (\<lambda>_ :: nat. ''p'')) True) [Retained ''p''] (Retain ''p'' (NewHub (Some (\<lambda>_. ''p'')) True))"
    by (rule hub_trace.cons [OF hub_step.retain hub_trace.nil])
  from hub_safe [OF this] show ?thesis by simp
qed

text \<open>C11: Lossless, in-order, exactly-once delivery across reconnects. For a retained key with at most
one subscriber at a time, along any execution in which the drop observer is not notified: what
was waiting, followed by what was published for the key, is what the key's subscribers received
in order, followed by what is still waiting. So every loss is reported to the observer.\<close>

theorem feed_lossless:
  assumes "hub_trace h evs h'" and "hub_inv h" and "unat (nextID h) + length evs < 2 ^ 64"
    and "keyOf h = Some f" and "observed h" and "retained h k \<noteq> None"
    and "length (carriers k (subs h)) \<le> 1" and "exclusive k (carriers k (subs h) \<noteq> []) evs"
    and "Released k \<notin> set evs" and "drops h' = drops h"
  shows "pending k h @ concat (map (published f k) evs) = concat (map (received k) evs) @ pending k h'"
  using calm_chain [OF assms(1-7,9,8,10)] by (rule hub_feed.chain_conserves)

theorem feed_lossless_witness:
  "\<exists>h'. pending ''p'' h' = [(''p'', 2 :: nat)] \<and>
    hub_trace (Retain ''p'' (NewHub (Some fst) True))
      [Published (''p'', 1), Subscribed ''p'' 1, Published (''p'', 2), Received ''p'' (''p'', 1), Unsubscribed ''p'' 1] h'"
proof -
  let ?start = "Retain ''p'' (NewHub (Some fst) True) :: (string \<times> nat) hub"
  let ?evs = "[Published (''p'', 1), Subscribed ''p'' 1, Published (''p'', 2), Received ''p'' (''p'', 1), Unsubscribed ''p'' 1]
    :: (string \<times> nat) hub_event list"
  let ?s = "\<lambda>b. [(1, \<lparr>sub_ch = \<lparr>buf = b, room = 257, closed = False\<rparr>, sub_filter = ''p''\<rparr>)]"
  let ?mid = "\<lambda>b. ?start\<lparr>nextID := 1, subs := ?s b\<rparr>"
  let ?fin = "?start\<lparr>nextID := 1, retained := [''p'' \<mapsto> [(''p'', 2)]]\<rparr>"
  have inv: "hub_inv ?start" by (rule Retain_inv) simp
  have 1: "hub_step ?start (Published (''p'', 1)) (?start\<lparr>retained := [''p'' \<mapsto> [(''p'', 1)]]\<rparr>)"
    by (rule hub_step.publish) (simp add: Retain_def NewHub_def Publish_def entry_key_def Let_def subBufSize_def)
  have 2: "hub_step (?start\<lparr>retained := [''p'' \<mapsto> [(''p'', 1)]]\<rparr>) (Subscribed ''p'' 1) (?mid [(''p'', 1)])"
    by (rule hub_step.subscribe)
      (simp add: Retain_def NewHub_def Subscribe_def make_chan_def try_send_def Let_def subBufSize_def)
  have 3: "hub_step (?mid [(''p'', 1)]) (Published (''p'', 2)) (?mid [(''p'', 1), (''p'', 2)])"
    by (rule hub_step.publish)
      (simp add: Retain_def NewHub_def Publish_def entry_key_def try_send_def Let_def)
  have 4: "hub_step (?mid [(''p'', 1), (''p'', 2)]) (Received ''p'' (''p'', 1)) (?mid [(''p'', 2)])"
    using hub_step.receive [of "?mid [(''p'', 1), (''p'', 2)]" 1 "snd (hd (?s [(''p'', 1), (''p'', 2)]))" "(''p'', 1)" "?mid [(''p'', 2)]"]
    by (simp add: hub_recv_def)
  have 5: "hub_step (?mid [(''p'', 2)]) (Unsubscribed ''p'' 1) ?fin"
    using hub_step.unsubscribe [of "?mid [(''p'', 2)]" 1 "snd (hd (?s [(''p'', 2)]))" _ ?fin]
    by (simp add: Unsubscribe_def leave_backlog_def requeue_eq hub_holds_def close_chan_def subBufSize_def
        Retain_def NewHub_def bump_def)
  have trace: "hub_trace ?start ?evs ?fin" 
    by (rule hub_trace.cons [OF 1 hub_trace.cons [OF 2 hub_trace.cons [OF 3 hub_trace.cons [OF 4 hub_trace.cons [OF 5 hub_trace.nil]]]]])
  have "pending ''p'' ?start @ concat (map (published fst ''p'') ?evs) = concat (map (received ''p'') ?evs) @ pending ''p'' ?fin"
    by (rule feed_lossless [OF trace inv]) (simp_all add: Retain_def NewHub_def carriers_def)
  then have "pending ''p'' ?fin = [(''p'', 2)]" by (simp add: pending_def carriers_def Retain_def NewHub_def)
  with trace show ?thesis by blast
qed

text \<open>C21: A publication reaches each subscriber on its own: whatever the state of the others, a subscriber
that wants the entry and has room gets it at the end of its buffer, one that wants it and is full
loses it, and any other is untouched; each loss and an overflow of the backlog is one notification.\<close>

theorem Publish_per_subscriber:
  assumes "hub_inv h" and "observed h" and "Publish e h = Some h'"
  shows "map_of (subs h') sid = map_option (deliver h e (entry_key h e)) (map_of (subs h) sid) \<and>
    drops h' = drops h + length (filter (\<lambda>p. misses h (entry_key h e) (snd p)) (subs h)) +
      (if carriers (entry_key h e) (subs h) = [] \<and>
          (\<exists>b. retained h (entry_key h e) = Some b \<and> length b \<ge> subBufSize) then 1 else 0)"
proof -
  have "map_of (map (\<lambda>p. (fst p, g (snd p))) ss) sid = map_option g (map_of ss sid)" for g and ss :: "(sub_id \<times> 'a sub) list"
    by (induction ss) auto
  then show ?thesis
    using assms(2,3) by (auto simp: Publish_eq [OF assms(1)] Let_def missed_def split: option.splits if_splits)
qed

theorem Publish_per_subscriber_witness:
  "map_of (subs (the (Publish (7 :: nat) (snd (the (Subscribe ''p'' (NewHub (Some (\<lambda>_. ''p'')) True))))))) 1 =
   Some \<lparr>sub_ch = \<lparr>buf = [7], room = 256, closed = False\<rparr>, sub_filter = ''p''\<rparr>"
proof -
  let ?h = "snd (the (Subscribe ''p'' (NewHub (Some (\<lambda>_ :: nat. ''p'')) True)))"
  have s: "Subscribe ''p'' (NewHub (Some (\<lambda>_ :: nat. ''p'')) True) = Some (1, ?h)"
    by (simp add: Subscribe_def make_chan_def NewHub_def Let_def)
  have inv: "hub_inv ?h" by (rule Subscribe_inv [OF NewHub_inv _ s]) (simp add: NewHub_def)
  obtain h' where h': "Publish 7 ?h = Some h'" using hub_ops_total(1) [OF inv] by blast
  have "observed ?h" by (simp add: Subscribe_def make_chan_def NewHub_def Let_def)
  from Publish_per_subscriber [OF inv this h', of 1] h' show ?thesis
    by (simp add: Subscribe_def make_chan_def NewHub_def Let_def deliver_def wants_def entry_key_def subBufSize_def)
qed

text \<open>C22: The order in which a Go \<open>range\<close> visits the subscriber map is not observable: publishing with
the subscribers visited in two orders leaves the same subscribers with the same buffers, the same
backlogs and the same number of notifications.\<close>

theorem Publish_order_irrelevant:
  assumes "hub_inv h" and "mset ss = mset (subs h)"
    and "Publish e h = Some h1" and "Publish e (h\<lparr>subs := ss\<rparr>) = Some h2"
  shows "mset (subs h2) = mset (subs h1) \<and> retained h2 = retained h1 \<and> drops h2 = drops h1"
proof -
  have "set ss = set (subs h)" using assms(2) by (rule mset_eq_setD)
  moreover have "distinct (map fst ss)"
    using hub_invD(1) [OF assms(1)] assms(2) by (metis mset_eq_imp_distinct_iff mset_map)
  moreover have "carriers k ss = [] \<longleftrightarrow> carriers k (subs h) = []" for k using assms(2) by (rule carriers_mset)
  ultimately have inv: "hub_inv (h\<lparr>subs := ss\<rparr>)" using assms(1) by (simp add: hub_inv_def hub_holds_carriers)
  have c: "carriers k ss = [] \<longleftrightarrow> carriers k (subs h) = []" for k using assms(2) by (rule carriers_mset)
  have d: "deliver (h\<lparr>subs := ss\<rparr>) = deliver h" "missed (h\<lparr>subs := ss\<rparr>) key ss = missed h key (subs h)"
    "entry_key (h\<lparr>subs := ss\<rparr>) = entry_key h" for key
    using missed_mset [OF assms(2), of h key]
    by (auto simp: fun_eq_iff deliver_def wants_def missed_def misses_def entry_key_def)
  show ?thesis
    using assms(2-4) Publish_eq [OF assms(1), of e] Publish_eq [OF inv, of e]
    by (auto simp: Let_def d c split: option.splits if_splits)
qed

theorem Publish_order_irrelevant_witness:
  "\<exists>h h1 h2. length (subs h) = 2 \<and> Publish (7 :: nat) h = Some h1 \<and> Publish 7 (h\<lparr>subs := rev (subs h)\<rparr>) = Some h2 \<and>
     mset (subs h2) = mset (subs h1) \<and> drops h2 = drops h1"
proof -
  let ?s = "\<lambda>b n. \<lparr>sub_ch = \<lparr>buf = b, room = n, closed = False\<rparr>, sub_filter = []\<rparr>"
  let ?h = "(NewHub (Some (\<lambda>_ :: nat. ''p'')) True)\<lparr>nextID := 2, subs := [(1, ?s [] 256), (2, ?s [3] 256)]\<rparr>"
  have inv: "hub_inv ?h" by (simp add: hub_inv_def NewHub_def sub_ok_def subBufSize_def)
  have inv': "hub_inv (?h\<lparr>subs := rev (subs ?h)\<rparr>)" by (simp add: hub_inv_def NewHub_def sub_ok_def subBufSize_def)
  obtain h1 where h1: "Publish 7 ?h = Some h1" using hub_ops_total(1) [OF inv, of 7] by (auto simp del: Publish_def)
  obtain h2 where h2: "Publish 7 (?h\<lparr>subs := rev (subs ?h)\<rparr>) = Some h2" using hub_ops_total(1) [OF inv', of 7] by auto
  from Publish_order_irrelevant [OF inv _ h1 h2] h1 h2 show ?thesis
    by (intro exI [of _ ?h] exI [of _ h1] exI [of _ h2]) simp
qed

end
