(* ===== verification/Redactor_Registry.thy ===== *)
theory Redactor_Registry
  imports Kit_Prelude
begin

text \<open>
  \<open>logbridge/registry.go\<close>: the registry that composes the redactor of the log bridge from the secrets of the
  live sessions. The redactor is a type of another package: \<open>mk\<close> stands for \<open>redact.New\<close> and \<open>masked\<close> for
  \<open>Redactor.Apply\<close>, both parameters. The registry and the pointer of the bridge it swaps are one record; sessions
  are an association list in the order an iteration visits them.
\<close>

record 'r RedactorRegistry =
  rr_bridge :: "'r option"
  rr_redactor :: "'r option"
  rr_session :: "(string \<times> string list) list"

definition rebuild :: "(string list \<Rightarrow> 'r) \<Rightarrow> 'r RedactorRegistry \<Rightarrow> 'r RedactorRegistry" where
  "rebuild mk r =
     (let all = concat (map snd (rr_session r)); redactor = mk all
      in r\<lparr>rr_redactor := Some redactor, rr_bridge := Some redactor\<rparr>)"

text \<open>The argument is the redactor the bridge held before.\<close>

definition NewRedactorRegistry :: "(string list \<Rightarrow> 'r) \<Rightarrow> 'r option \<Rightarrow> 'r RedactorRegistry" where
  "NewRedactorRegistry mk bridge = rebuild mk \<lparr>rr_bridge = bridge, rr_redactor = None, rr_session = []\<rparr>"

definition AddSessionKey :: "(string list \<Rightarrow> 'r) \<Rightarrow> string \<Rightarrow> string \<Rightarrow> 'r RedactorRegistry \<Rightarrow> 'r RedactorRegistry" where
  "AddSessionKey mk sessionID key r =
     (if key = [] then r
      else
        (let keys = (case map_of (rr_session r) sessionID of None \<Rightarrow> [] | Some ks \<Rightarrow> ks)
         in rebuild mk (r\<lparr>rr_session := AList.update sessionID (keys @ [key]) (rr_session r)\<rparr>)))"

definition RemoveSessionKey :: "(string list \<Rightarrow> 'r) \<Rightarrow> string \<Rightarrow> 'r RedactorRegistry \<Rightarrow> 'r RedactorRegistry" where
  "RemoveSessionKey mk sessionID r =
     (if map_of (rr_session r) sessionID = None then r
      else rebuild mk (r\<lparr>rr_session := AList.delete sessionID (rr_session r)\<rparr>))"

definition RedactLine :: "('r option \<Rightarrow> string \<Rightarrow> string) \<Rightarrow> string \<Rightarrow> 'r RedactorRegistry \<Rightarrow> string" where
  "RedactLine masked line r = masked (rr_redactor r) line"

subsection \<open>Executions and what they should leave\<close>

datatype redact_op = Add string string | Remove string

fun redact_step :: "(string list \<Rightarrow> 'r) \<Rightarrow> redact_op \<Rightarrow> 'r RedactorRegistry \<Rightarrow> 'r RedactorRegistry" where
  "redact_step mk (Add sid key) r = AddSessionKey mk sid key r"
| "redact_step mk (Remove sid) r = RemoveSessionKey mk sid r"

text \<open>The secrets of one session: those added since it was last removed.\<close>

fun live_step :: "string \<Rightarrow> redact_op \<Rightarrow> string list \<Rightarrow> string list" where
  "live_step sid (Add s key) ks = (if s = sid \<and> key \<noteq> [] then ks @ [key] else ks)"
| "live_step sid (Remove s) ks = (if s = sid then [] else ks)"

definition live_keys :: "string \<Rightarrow> redact_op list \<Rightarrow> string list" where
  "live_keys sid ops = fold (live_step sid) ops []"

definition keys_of :: "string \<Rightarrow> 'r RedactorRegistry \<Rightarrow> string list" where
  "keys_of sid r = (case map_of (rr_session r) sid of None \<Rightarrow> [] | Some ks \<Rightarrow> ks)"

definition redact_ok :: "(string list \<Rightarrow> 'r) \<Rightarrow> 'r RedactorRegistry \<Rightarrow> bool" where
  "redact_ok mk r \<longleftrightarrow> distinct (map fst (rr_session r)) \<and>
     rr_redactor r = Some (mk (concat (map snd (rr_session r)))) \<and> rr_bridge r = rr_redactor r"

lemma redact_step_keys: "keys_of sid (redact_step mk op r) = live_step sid op (keys_of sid r)"
  by (cases op)
    (auto simp: keys_of_def AddSessionKey_def RemoveSessionKey_def rebuild_def update_conv' delete_conv' Let_def
      split: option.splits)

lemma redact_run_keys: "keys_of sid (fold (redact_step mk) ops r) = fold (live_step sid) ops (keys_of sid r)"
  by (induction ops arbitrary: r) (simp_all add: redact_step_keys)

lemma redact_step_ok: "redact_ok mk r \<Longrightarrow> redact_ok mk (redact_step mk op r)"
  by (cases op)
    (auto simp: redact_ok_def AddSessionKey_def RemoveSessionKey_def rebuild_def Let_def distinct_update distinct_delete)

lemma redact_run_ok: "redact_ok mk r \<Longrightarrow> redact_ok mk (fold (redact_step mk) ops r)"
  by (induction ops arbitrary: r) (simp_all add: redact_step_ok)

lemma all_keys:
  assumes "distinct (map fst (rr_session r))"
  shows "set (concat (map snd (rr_session r))) = (\<Union>sid. set (keys_of sid r))"
proof -
  have "key \<in> set (keys_of sid r) \<longleftrightarrow> (\<exists>ks. (sid, ks) \<in> set (rr_session r) \<and> key \<in> set ks)" for key sid
    using assms by (auto simp: keys_of_def map_of_eq_Some_distinct split: option.split dest: map_of_SomeD)
  then have "(\<Union>sid. set (keys_of sid r)) = {key. \<exists>sid ks. (sid, ks) \<in> set (rr_session r) \<and> key \<in> set ks}"
    by auto
  moreover have "set (concat (map snd (rr_session r))) = {key. \<exists>sid ks. (sid, ks) \<in> set (rr_session r) \<and> key \<in> set ks}"
    by force
  ultimately show ?thesis by simp
qed

lemma registry_run:
  "\<exists>all. rr_bridge (fold (redact_step mk) ops (NewRedactorRegistry mk bridge)) = Some (mk all) \<and>
    rr_redactor (fold (redact_step mk) ops (NewRedactorRegistry mk bridge)) = Some (mk all) \<and>
    set all = (\<Union>sid. set (live_keys sid ops))"
proof -
  let ?r0 = "NewRedactorRegistry mk bridge"
  have "redact_ok mk ?r0" "keys_of sid ?r0 = []" for sid
    by (simp_all add: redact_ok_def NewRedactorRegistry_def rebuild_def keys_of_def Let_def)
  then have ok: "redact_ok mk (fold (redact_step mk) ops ?r0)"
    and keys: "keys_of sid (fold (redact_step mk) ops ?r0) = live_keys sid ops" for sid
    by (simp_all add: redact_run_ok redact_run_keys live_keys_def)
  have "set (concat (map snd (rr_session (fold (redact_step mk) ops ?r0)))) = (\<Union>sid. set (live_keys sid ops))"
    using all_keys [of "fold (redact_step mk) ops ?r0"] ok keys by (simp add: redact_ok_def)
  then show ?thesis
    using ok by (intro exI [of _ "concat (map snd (rr_session (fold (redact_step mk) ops ?r0)))"])
      (simp add: redact_ok_def)
qed

text \<open>C13: After any sequence of additions and removals the bridge and the registry hold one and the same
redactor, built from exactly the secrets of the live sessions: every non-empty key added to a
session since its last removal, also several per session, and no key of a removed session.\<close>

theorem redactor_tracks_sessions:
  "\<exists>all. rr_bridge (fold (redact_step mk) ops (NewRedactorRegistry mk bridge)) = Some (mk all) \<and>
    (\<forall>line. RedactLine masked line (fold (redact_step mk) ops (NewRedactorRegistry mk bridge)) = masked (Some (mk all)) line) \<and>
    set all = (\<Union>sid. set (live_keys sid ops))"
  using registry_run [of mk ops bridge] by (auto simp: RedactLine_def)

end
