(* ===== verification/Bridge.thy ===== *)
theory Bridge
  imports Go_Any Hub Redactor_Registry
begin

text \<open>
  \<open>logbridge/bridge.go\<close>: one line of worker output becomes at most one entry on the hub. The entry type belongs to the wire contract
  package; the record has the fields the bridge sets. The redactor is the parameter \<open>masked\<close> (\<open>Redactor.Apply\<close>, also on a nil redactor), and the hooks of
  a backend are parameters: \<open>MapExtra\<close> as a function, \<open>OnAwaiting\<close> as whether it is set, with the calls it gets kept in the state. Lines are parsed with the
  JSON model; what \<open>int64(f)\<close> gives beyond the range of \<open>int64\<close> is the parameter \<open>beyond\<close>. \<open>None\<close> as a result is a panic of the
  hub.
\<close>

record LogTokenUsage =
  InputTokens :: int
  OutputTokens :: int
  CacheReadTokens :: int
  CacheCreateTokens :: int
  CostUSD :: float64

record LogEntry =
  le_Timestamp :: instant
  le_Type :: string
  le_Content :: string
  le_Model :: string
  le_ToolUseID :: string
  le_Usage :: "LogTokenUsage option"
  le_Project :: string
  le_CardID :: string
  le_SessionID :: string

definition no_entry :: LogEntry where
  "no_entry = \<lparr>le_Timestamp = 0, le_Type = [], le_Content = [], le_Model = [], le_ToolUseID = [], le_Usage = None,
     le_Project = [], le_CardID = [], le_SessionID = []\<rparr>"

record Key =
  key_Project :: string
  key_CardID :: string
  key_SessionID :: string

definition stamp :: "Key \<Rightarrow> LogEntry \<Rightarrow> LogEntry" where
  "stamp k e0 =
     (let e1 = (if key_Project k \<noteq> [] then e0\<lparr>le_Project := key_Project k\<rparr> else e0);
          e2 = (if key_CardID k \<noteq> [] then e1\<lparr>le_CardID := key_CardID k\<rparr> else e1)
      in if key_SessionID k \<noteq> [] then e2\<lparr>le_SessionID := key_SessionID k\<rparr> else e2)"

subsection \<open>State\<close>

type_synonym map_extra = "string \<Rightarrow> go_map option \<Rightarrow> LogEntry \<times> bool \<times> bool"

record 'r Bridge =
  br_hub :: "LogEntry hub"
  br_redactor :: "'r option"
  br_onAwaiting :: bool
  br_surfaceAwaitingHuman :: bool
  br_surfaceRunState :: bool
  br_mapExtra :: "map_extra option"
  br_awaiting :: "(Key \<times> bool) list"

record 'r BridgeConfig =
  cfg_Hub :: "LogEntry hub"
  cfg_Redactor :: "'r option"
  cfg_OnAwaiting :: bool
  cfg_SurfaceAwaitingHuman :: bool
  cfg_SurfaceRunState :: bool
  cfg_MapExtra :: "map_extra option"

definition NewBridge :: "'r BridgeConfig \<Rightarrow> 'r Bridge" where
  "NewBridge cfg =
     \<lparr>br_hub = cfg_Hub cfg, br_redactor = cfg_Redactor cfg, br_onAwaiting = cfg_OnAwaiting cfg,
      br_surfaceAwaitingHuman = cfg_SurfaceAwaitingHuman cfg, br_surfaceRunState = cfg_SurfaceRunState cfg,
      br_mapExtra = cfg_MapExtra cfg, br_awaiting = []\<rparr>"

definition setRedactor :: "'r option \<Rightarrow> 'r Bridge \<Rightarrow> 'r Bridge" where
  "setRedactor r b = b\<lparr>br_redactor := r\<rparr>"

subsection \<open>Fields of an event\<close>

record event =
  ev_Kind :: string
  ev_Data :: "go_map option"

definition data_get :: "go_map option \<Rightarrow> string \<Rightarrow> any option" where
  "data_get data key = (case data of None \<Rightarrow> None | Some m \<Rightarrow> map_of m key)"

definition strField :: "go_map option \<Rightarrow> string \<Rightarrow> string" where
  "strField data key =
     (case data of
        None \<Rightarrow> []
      | Some m \<Rightarrow> (case map_of m key of None \<Rightarrow> [] | Some v \<Rightarrow> (case v of AStr s \<Rightarrow> s | _ \<Rightarrow> [])))"

text \<open>The cases for \<open>int64\<close> and \<open>int\<close> of the code never apply: a decoded number is a float.\<close>

definition int64Field :: "(float64 \<Rightarrow> int) \<Rightarrow> go_map option \<Rightarrow> string \<Rightarrow> int" where
  "int64Field beyond data key =
     (case data of
        None \<Rightarrow> 0
      | Some m \<Rightarrow> (case map_of m key of None \<Rightarrow> 0 | Some v \<Rightarrow> (case v of AFloat f \<Rightarrow> int64_of beyond f | _ \<Rightarrow> 0)))"

definition positiveFloatField :: "go_map option \<Rightarrow> string \<Rightarrow> float64" where
  "positiveFloatField data key =
     (case data_get data key of Some (AFloat f) \<Rightarrow> if f_positive f then f else f_zero | _ \<Rightarrow> f_zero)"

fun back_off :: "string \<Rightarrow> nat \<Rightarrow> nat" where
  "back_off s 0 = 0"
| "back_off s (Suc n) = (if RuneStart (s ! Suc n) then Suc n else back_off s n)"

definition truncate :: "string \<Rightarrow> nat \<Rightarrow> string" where
  "truncate s limit = (if length s \<le> limit then s else take (back_off s limit) s)"

definition summarizeData :: "go_map option \<Rightarrow> string" where
  "summarizeData data =
     (case data of
        None \<Rightarrow> []
      | Some m \<Rightarrow> if m = [] then [] else truncate (encode (doc_of (AMap m))) 200)"

subsection \<open>The mapping of events\<close>

text \<open>The entry, the awaiting flag, and whether the event is skipped.\<close>

definition skipped :: "LogEntry \<times> bool \<times> bool" where
  "skipped = (no_entry, False, True)"

definition not_run :: string where
  "not_run = '' [not run - the turn ended first]''"

definition mapEvent :: "(float64 \<Rightarrow> int) \<Rightarrow> 'r Bridge \<Rightarrow> string \<Rightarrow> go_map option \<Rightarrow> LogEntry \<times> bool \<times> bool" where
  "mapEvent beyond b kind data =
     (if kind = ''model_response'' then
        (let content = strField data ''content'' in
         if TrimSpace content = [] then skipped
         else (no_entry\<lparr>le_Type := ''text'', le_Content := content, le_Model := strField data ''model''\<rparr>, False, False))
      else if kind = ''thinking'' then
        (no_entry\<lparr>le_Type := ''thinking'', le_Content := strField data ''content''\<rparr>, False, False)
      else if kind = ''tool_call'' then
        (let name = strField data ''name'';
             args = strField data ''raw_args'';
             content = name @ ''('' @ args @ '')'';
             content' = (if data_get data ''dispatched'' = Some (ABool False) then content @ not_run else content)
         in (no_entry\<lparr>le_Type := ''tool_call'', le_Content := truncate content' 200, le_ToolUseID := strField data ''id''\<rparr>,
             False, False))
      else if kind = ''usage'' then
        (no_entry\<lparr>le_Type := ''usage'', le_Model := strField data ''model'',
           le_Usage := Some \<lparr>InputTokens = int64Field beyond data ''prompt_tokens'',
             OutputTokens = int64Field beyond data ''completion_tokens'',
             CacheReadTokens = int64Field beyond data ''cache_read_tokens'',
             CacheCreateTokens = int64Field beyond data ''cache_creation_tokens'',
             CostUSD = positiveFloatField data ''cost_usd''\<rparr>\<rparr>, False, False)
      else if kind = ''state_change'' then
        (if strField data ''state'' = ''awaiting_human'' then
           (if br_surfaceAwaitingHuman b then
              (no_entry\<lparr>le_Type := ''system'', le_Content := ''awaiting human input''\<rparr>, True, False)
            else if br_surfaceRunState b then (no_entry\<lparr>le_Type := ''status'', le_Content := ''idle''\<rparr>, False, False)
            else skipped)
         else (no_entry\<lparr>le_Type := ''system'', le_Content := summarizeData data\<rparr>, False, False))
      else if kind = ''context_limit'' then
        (no_entry\<lparr>le_Type := ''system'', le_Content := summarizeData data\<rparr>, False, False)
      else if kind = ''error'' then
        (let content = strField data ''error'';
             defect = strField data ''suspected_upstream_defect'';
             content' = (if defect \<noteq> [] then content @ '' (suspected upstream defect: '' @ defect @ '')'' else content)
         in (no_entry\<lparr>le_Type := ''stderr'', le_Content := content'\<rparr>, False, False))
      else if kind = ''model_request'' \<or> kind = ''user_input'' then
        (if br_surfaceRunState b then (no_entry\<lparr>le_Type := ''status'', le_Content := ''working''\<rparr>, False, False) else skipped)
      else if kind = ''tool_result'' \<or> kind = ''tool_repair'' \<or> kind = ''verification'' then skipped
      else
        (case br_mapExtra b of
           None \<Rightarrow> skipped
         | Some extra \<Rightarrow> (case extra kind data of (e, aw, ok) \<Rightarrow> if ok then (e, aw, False) else skipped)))"

subsection \<open>Bridging a line\<close>

definition publish :: "LogEntry \<Rightarrow> bool \<Rightarrow> 'r Bridge \<Rightarrow> 'r Bridge option" where
  "publish e awaiting b =
     (case Publish e (br_hub b) of
        None \<Rightarrow> None
      | Some h \<Rightarrow>
          let b' = b\<lparr>br_hub := h\<rparr> in
          Some (if br_onAwaiting b \<and> le_Type e \<noteq> ''stderr''
                then b'\<lparr>br_awaiting := br_awaiting b @
                  [(\<lparr>key_Project = le_Project e, key_CardID = le_CardID e, key_SessionID = le_SessionID e\<rparr>, awaiting)]\<rparr>
                else b'))"

definition put_event :: "string \<Rightarrow> json \<Rightarrow> event \<Rightarrow> event option" where
  "put_event n v ev =
     (if n = ''kind'' then
        (case v of JNull \<Rightarrow> Some ev | JStr s \<Rightarrow> Some (ev\<lparr>ev_Kind := s\<rparr>) | _ \<Rightarrow> None)
      else
        (case v of
           JNull \<Rightarrow> Some (ev\<lparr>ev_Data := None\<rparr>)
         | JObj ms \<Rightarrow>
             map_option (\<lambda>m. ev\<lparr>ev_Data := Some m\<rparr>) (put_map ms (case ev_Data ev of None \<Rightarrow> [] | Some m \<Rightarrow> m))
         | _ \<Rightarrow> None))"

definition unmarshal_event :: "string \<Rightarrow> event option" where
  "unmarshal_event line = Unmarshal [''kind'', ''data''] put_event \<lparr>ev_Kind = [], ev_Data = None\<rparr> line"

definition BridgeLine :: "('r option \<Rightarrow> string \<Rightarrow> string) \<Rightarrow> (float64 \<Rightarrow> int) \<Rightarrow> instant \<Rightarrow> Key \<Rightarrow> string \<Rightarrow> bool \<Rightarrow>
    'r Bridge \<Rightarrow> 'r Bridge option" where
  "BridgeLine masked beyond now key line isStderr b =
     (let raw = stamp key (no_entry\<lparr>le_Timestamp := now, le_Type := ''stderr'', le_Content := masked (br_redactor b) line\<rparr>) in
      if isStderr then publish raw False b
      else case unmarshal_event line of
        None \<Rightarrow> publish raw False b
      | Some ev \<Rightarrow>
          (case mapEvent beyond b (ev_Kind ev) (ev_Data ev) of (entry, awaiting, skip) \<Rightarrow>
             if skip then Some b
             else
               (let e1 = stamp key (entry\<lparr>le_Timestamp := now\<rparr>);
                    e2 = e1\<lparr>le_Content := masked (br_redactor b) (le_Content e1)\<rparr>
                in publish e2 awaiting b)))"

subsection \<open>Truncation\<close>

lemma back_off_le: "back_off s n \<le> n"
  by (induction n) (auto simp: le_SucI)

lemma back_off_start: "back_off s n = 0 \<or> RuneStart (s ! back_off s n)"
  by (induction n) auto

lemma back_off_ge: "j \<le> n \<Longrightarrow> RuneStart (s ! j) \<Longrightarrow> j \<le> back_off s n"
  by (induction n) (auto simp: le_Suc_eq)

lemma take_rune_split:
  "rune_len s \<le> k \<Longrightarrow> take k s = take (rune_len s) s @ take (k - rune_len s) (drop (rune_len s) s)"
  by (metis le_add_diff_inverse take_add)

lemma valid_take: "valid_utf8 s \<Longrightarrow> k < length s \<Longrightarrow> RuneStart (s ! k) \<Longrightarrow> valid_utf8 (take k s)"
proof (induction s arbitrary: k rule: valid_utf8.induct)
  case (1 s)
  have s: "s \<noteq> []" "rune_len s \<noteq> 0" "valid_utf8 (drop (rune_len s) s)"
    using 1(2,3) valid_utf8_step [of s] by (cases "s = []"; simp)+
  consider "k = 0" | "0 < k" "k < rune_len s" | "rune_len s \<le> k" by linarith
  then show ?case
  proof cases
    case 2
    then show ?thesis using rune_tail_cont [of k s] 1(4) by (simp add: RuneStart_def)
  next
    case 3
    have "valid_utf8 (take (k - rune_len s) (drop (rune_len s) s))"
      using 1(1) [of "k - rune_len s"] s 3 1(3,4) by simp
    then show ?thesis using s(2) 3 by (simp add: take_rune_split [OF 3] valid_utf8_rune_append)
  qed simp
qed

lemma near_start: "valid_utf8 s \<Longrightarrow> k < length s \<Longrightarrow> \<exists>j \<le> k. k < j + 4 \<and> RuneStart (s ! j)"
proof (induction s arbitrary: k rule: valid_utf8.induct)
  case (1 s)
  have s: "s \<noteq> []" "rune_len s \<noteq> 0" "valid_utf8 (drop (rune_len s) s)"
    using 1(2,3) valid_utf8_step [of s] by (cases "s = []"; simp)+
  show ?case
  proof (cases "k < rune_len s")
    case True
    then show ?thesis
      using rune_len_le4 [of s] rune_head_start [OF s(2)] s(1) by (intro exI [of _ 0]) (auto simp: hd_conv_nth)
  next
    case False
    then have "k - rune_len s < length (drop (rune_len s) s)" using 1(3) by simp
    then obtain j where "j \<le> k - rune_len s" "k - rune_len s < j + 4" "RuneStart (drop (rune_len s) s ! j)"
      using 1(1) [OF s] by blast
    then show ?thesis using False rune_len_le [of s] by (intro exI [of _ "rune_len s + j"]) auto
  qed
qed

text \<open>Truncation keeps a prefix of at most \<open>limit\<close> bytes; it keeps well-formed UTF-8 well-formed, and of a longer well-formed string it keeps
all but at most three of the \<open>limit\<close> bytes.\<close>

theorem truncate_keeps_runes:
  "length (truncate s limit) \<le> limit \<and> (\<exists>r. s = truncate s limit @ r) \<and>
    (valid_utf8 s \<longrightarrow> valid_utf8 (truncate s limit) \<and> min limit (length s) \<le> length (truncate s limit) + 3)"
proof (cases "length s \<le> limit")
  case True
  then show ?thesis by (simp add: truncate_def)
next
  case False
  let ?k = "back_off s limit"
  have k: "?k \<le> limit" "length (take ?k s) = ?k" using back_off_le [of s limit] False by auto
  have "valid_utf8 (take ?k s)" if "valid_utf8 s"
    using that valid_take [of s ?k] back_off_start [of s limit] k False by (cases "?k = 0") auto
  moreover have "limit \<le> ?k + 3" if v: "valid_utf8 s"
  proof -
    obtain j where "j \<le> limit" "limit < j + 4" "RuneStart (s ! j)" using near_start [OF v, of limit] False by auto
    then show ?thesis using back_off_ge [of j limit s] by linarith
  qed
  moreover have "\<exists>r. s = take ?k s @ r" by (metis append_take_drop_id)
  ultimately show ?thesis using False k by (simp add: truncate_def)
qed

theorem truncate_keeps_runes_witness:
  "valid_utf8 (truncate [CHR ''a'', CHR 0xC3, CHR 0xA9] 2) \<and> length (truncate [CHR ''a'', CHR 0xC3, CHR 0xA9] 2) \<le> 2"
proof -
  have "valid_utf8 [CHR ''a'', CHR 0xC3, CHR 0xA9]" by code_simp
  then show ?thesis using truncate_keeps_runes [of "[CHR ''a'', CHR 0xC3, CHR 0xA9]" 2] by blast
qed

subsection \<open>One line\<close>

text \<open>A line is skipped, or one entry is published whose content went through the redactor of the bridge.\<close>

lemma publish_Some:
  assumes "hub_inv (br_hub b)"
  obtains b' where "publish e aw b = Some b'" "hub_step (br_hub b) (Published e) (br_hub b')" "br_redactor b' = br_redactor b"
    "br_awaiting b' = br_awaiting b @
      (if br_onAwaiting b \<and> le_Type e \<noteq> ''stderr''
       then [(\<lparr>key_Project = le_Project e, key_CardID = le_CardID e, key_SessionID = le_SessionID e\<rparr>, aw)] else [])"
proof -
  obtain h where h: "Publish e (br_hub b) = Some h" using hub_ops_total(1) [OF assms, of e] by blast
  have "hub_step (br_hub b) (Published e) h" using h by (rule hub_step.publish)
  then show ?thesis using h that by (auto simp: publish_def Let_def)
qed

lemma stamp_simps [simp]:
  "le_Content (stamp k e) = le_Content e" "le_Type (stamp k e) = le_Type e" "le_Timestamp (stamp k e) = le_Timestamp e"
  "le_Model (stamp k e) = le_Model e" "le_ToolUseID (stamp k e) = le_ToolUseID e" "le_Usage (stamp k e) = le_Usage e"
  "le_Project (stamp k e) = (if key_Project k \<noteq> [] then key_Project k else le_Project e)"
  "le_CardID (stamp k e) = (if key_CardID k \<noteq> [] then key_CardID k else le_CardID e)"
  "le_SessionID (stamp k e) = (if key_SessionID k \<noteq> [] then key_SessionID k else le_SessionID e)"
  by (simp_all add: stamp_def Let_def)

lemma BridgeLine_raw:
  "isStderr \<or> unmarshal_event line = None \<Longrightarrow>
    BridgeLine masked beyond now key line isStderr b =
      publish (stamp key (no_entry\<lparr>le_Timestamp := now, le_Type := ''stderr'', le_Content := masked (br_redactor b) line\<rparr>)) False b"
  by (auto simp: BridgeLine_def Let_def)

lemma BridgeLine_skip:
  "unmarshal_event line = Some ev \<Longrightarrow> mapEvent beyond b (ev_Kind ev) (ev_Data ev) = (entry, aw, True) \<Longrightarrow>
    BridgeLine masked beyond now key line False b = Some b"
  by (simp add: BridgeLine_def)

lemma stamp_content: "(stamp k e)\<lparr>le_Content := x\<rparr> = stamp k (e\<lparr>le_Content := x\<rparr>)"
  by (simp add: stamp_def Let_def)

lemma BridgeLine_event:
  "unmarshal_event line = Some ev \<Longrightarrow> mapEvent beyond b (ev_Kind ev) (ev_Data ev) = (entry, aw, False) \<Longrightarrow>
    BridgeLine masked beyond now key line False b =
      publish (stamp key (entry\<lparr>le_Timestamp := now, le_Content := masked (br_redactor b) (le_Content entry)\<rparr>)) aw b"
  by (simp add: BridgeLine_def Let_def stamp_content)

lemma bridge_cases:
  obtains (raw) "isStderr \<or> unmarshal_event line = None"
    | (skip) ev entry aw where "\<not> isStderr" "unmarshal_event line = Some ev"
        "mapEvent beyond b (ev_Kind ev) (ev_Data ev) = (entry, aw, True)"
    | (event) ev entry aw where "\<not> isStderr" "unmarshal_event line = Some ev"
        "mapEvent beyond b (ev_Kind ev) (ev_Data ev) = (entry, aw, False)"
  by (metis (full_types) not_None_eq prod_cases3)

lemma BridgeLine_step:
  assumes "hub_inv (br_hub b)"
  obtains b' where "BridgeLine masked beyond now key line isStderr b = Some b'" "br_redactor b' = br_redactor b"
    "br_hub b' = br_hub b \<or> (\<exists>e raw. hub_step (br_hub b) (Published e) (br_hub b') \<and> le_Content e = masked (br_redactor b) raw)"
proof (cases rule: bridge_cases [where isStderr = isStderr and line = line and beyond = beyond and b = b])
  case raw
  show ?thesis
    by (rule publish_Some [OF assms]) (rule that, simp only: BridgeLine_raw [OF raw], simp_all, force)
next
  case (skip ev entry aw)
  then show ?thesis using that [of b] BridgeLine_skip [OF skip(2,3)] by simp
next
  case (event ev entry aw)
  have st: "isStderr = False" using event(1) by simp
  show ?thesis
    by (rule publish_Some [OF assms]) (rule that, simp only: st BridgeLine_event [OF event(2,3)], simp_all, force)
qed

subsection \<open>Instances\<close>

text \<open>A redactor that answers a line holding a secret with asterisks, the configuration of a backend, and the origin of a line.\<close>

definition sample_masked :: "string list option \<Rightarrow> string \<Rightarrow> string" where
  "sample_masked r s =
     (case r of None \<Rightarrow> s | Some keys \<Rightarrow> if list_ex (Contains s) keys then ''***'' else s)"

definition sample_cfg :: "string list BridgeConfig" where
  "sample_cfg = \<lparr>cfg_Hub = NewHub None False, cfg_Redactor = None, cfg_OnAwaiting = True, cfg_SurfaceAwaitingHuman = True,
     cfg_SurfaceRunState = False, cfg_MapExtra = None\<rparr>"

definition sample_key :: Key where
  "sample_key = \<lparr>key_Project = ''p'', key_CardID = ''c'', key_SessionID = []\<rparr>"

end
