(* ===== verification/Bridge_System.thy ===== *)
theory Bridge_System
  imports Bridge
begin

text \<open>
  The bridge together with the registry of secrets that swaps its redactor and with the hub it publishes on: executions in which lines
  of workers, additions and removals of secrets, and the operations of the hub's other users interleave. The locale \<open>conveyor\<close> is what
  the bridge needs of the hub: nothing comes out that did not go in.
\<close>

subsection \<open>The hub as a conveyor\<close>

locale conveyor =
  fixes step :: "'s \<Rightarrow> 'v \<Rightarrow> 's \<Rightarrow> bool"
    and ok :: "'s \<Rightarrow> bool"
    and waiting :: "'s \<Rightarrow> 'e set"
    and ins :: "'v \<Rightarrow> 'e set"
    and outs :: "'v \<Rightarrow> 'e set"
  assumes step_in: "ok s \<Longrightarrow> step s ev s' \<Longrightarrow> waiting s' \<subseteq> waiting s \<union> ins ev"
    and step_out: "ok s \<Longrightarrow> step s ev s' \<Longrightarrow> outs ev \<subseteq> waiting s"
begin

lemma step_keeps:
  assumes "ok s" "step s ev s'" "\<And>e. e \<in> waiting s \<Longrightarrow> P e" "\<And>e. e \<in> ins ev \<Longrightarrow> P e"
  shows "e \<in> waiting s' \<Longrightarrow> P e" "e \<in> outs ev \<Longrightarrow> P e"
  using assms step_in step_out by blast+

end

definition hub_waiting :: "'e hub \<Rightarrow> 'e set" where
  "hub_waiting h = (\<Union>p \<in> set (subs h). set (buf (sub_ch (snd p)))) \<union> (\<Union>b \<in> ran (retained h). set b)"

fun event_in :: "'e hub_event \<Rightarrow> 'e set" where
  "event_in (Published e) = {e}"
| "event_in _ = {}"

fun event_out :: "'e hub_event \<Rightarrow> 'e set" where
  "event_out (Received k e) = {e}"
| "event_out _ = {}"

lemma hub_waiting_iff:
  "e \<in> hub_waiting h \<longleftrightarrow>
    (\<exists>i s. (i, s) \<in> set (subs h) \<and> e \<in> set (buf (sub_ch s))) \<or> (\<exists>k b. retained h k = Some b \<and> e \<in> set b)"
  by (force simp: hub_waiting_def ran_def)

lemma publish_waiting:
  assumes "hub_inv h" "Publish e h = Some h'" "x \<in> hub_waiting h'"
  shows "x = e \<or> x \<in> hub_waiting h"
proof -
  have logged: "y \<in> set (backlogged e b) \<Longrightarrow> y = e \<or> y \<in> set b" for y b by (cases b) (auto simp: backlogged_def split: if_splits)
  note eq = assms(2) [unfolded Publish_eq [OF assms(1)] Let_def]
  have subs': "subs h' = map (\<lambda>p. (fst p, deliver h e (entry_key h e) (snd p))) (subs h)"
    using eq by (auto split: option.splits if_splits)
  have ret: "retained h' k = Some b' \<Longrightarrow> retained h k = Some b' \<or> (\<exists>b. retained h k = Some b \<and> b' = backlogged e b)" for k b'
    using eq by (auto split: option.splits if_splits)
  consider i s where "(i, s) \<in> set (subs h')" "x \<in> set (buf (sub_ch s))" | k b where "retained h' k = Some b" "x \<in> set b"
    using assms(3) by (auto simp: hub_waiting_iff)
  then show ?thesis
  proof cases
    case 1
    then obtain s0 where "(i, s0) \<in> set (subs h)" "s = deliver h e (entry_key h e) s0" by (auto simp: subs')
    then show ?thesis using 1(2) by (auto simp: deliver_def hub_waiting_iff split: if_splits)
  next
    case 2
    then show ?thesis unfolding hub_waiting_iff using ret [OF 2(1)] logged by blast
  qed
qed

lemma hub_step_waiting:
  assumes "hub_inv h" "nextID h \<noteq> - 1" "hub_step h ev h'" "x \<in> hub_waiting h'"
  shows "x \<in> hub_waiting h \<or> x \<in> event_in ev"
  using assms(3)
proof cases
  case (subscribe flt sid)
  then show ?thesis
    using Subscribe_eq [OF assms(1,2), of flt] assms(4)
    by (auto simp: Let_def hub_waiting_iff split: option.splits if_splits) blast+
next
  case (unsubscribe sid s ch)
  have "p = (sid, s) \<Longrightarrow> p \<in> set (subs h)" for p using map_of_SomeD [OF unsubscribe(2)] by simp
  then show ?thesis
    using Unsubscribe_eq [OF assms(1) unsubscribe(2)] unsubscribe(3) assms(4)
    by (force simp: Let_def hub_waiting_iff split: if_splits dest: in_set_dropD)
next
  case (publish e)
  then show ?thesis using publish_waiting [OF assms(1) _ assms(4)] by auto
next
  case (receive sid s e)
  obtain es where es: "buf (sub_ch s) = e # es" using hub_recv_Some [OF receive(3,2)] .
  have s: "(sid, s) \<in> set (subs h)" using map_of_SomeD [OF receive(2)] .
  have "h' = h\<lparr>subs := map (\<lambda>p. if fst p = sid then (sid, s\<lparr>sub_ch := (sub_ch s)\<lparr>buf := es\<rparr>\<rparr>) else p) (subs h)\<rparr>"
    using receive(3) hub_recv_eq [OF assms(1) receive(2) es] by simp
  then show ?thesis using assms(4) s es by (force simp: hub_waiting_iff split: if_splits)
qed (use assms(4) in \<open>auto simp: Retain_def Release_def hub_waiting_iff split: if_splits\<close>)

lemma hub_step_out:
  assumes "hub_step h ev h'" "x \<in> event_out ev"
  shows "x \<in> hub_waiting h"
  using assms(1)
proof cases
  case (receive sid s e)
  obtain es where "buf (sub_ch s) = e # es" using hub_recv_Some [OF receive(3,2)] .
  then show ?thesis using assms(2) receive(1) map_of_SomeD [OF receive(2)] by (force simp: hub_waiting_iff)
qed (use assms(2) in auto)

interpretation hub_conveyor: conveyor hub_step "\<lambda>h. hub_inv h \<and> nextID h \<noteq> - 1" hub_waiting event_in event_out
  by unfold_locales (auto dest: hub_step_waiting hub_step_out)

subsection \<open>The entry of a line\<close>

definition line_entry :: "('r option \<Rightarrow> string \<Rightarrow> string) \<Rightarrow> (float64 \<Rightarrow> int) \<Rightarrow> 'r Bridge \<Rightarrow> instant \<Rightarrow> Key \<Rightarrow> string \<Rightarrow> bool \<Rightarrow>
    (LogEntry \<times> bool) option" where
  "line_entry masked beyond b now key line isStderr =
     (let raw = Some (stamp key (no_entry\<lparr>le_Timestamp := now, le_Type := ''stderr'', le_Content := masked (br_redactor b) line\<rparr>), False) in
      if isStderr then raw
      else case unmarshal_event line of
        None \<Rightarrow> raw
      | Some ev \<Rightarrow>
          (case mapEvent beyond b (ev_Kind ev) (ev_Data ev) of (entry, aw, skip) \<Rightarrow>
             if skip then None
             else Some (stamp key (entry\<lparr>le_Timestamp := now, le_Content := masked (br_redactor b) (le_Content entry)\<rparr>), aw)))"

lemma BridgeLine_entry:
  "BridgeLine masked beyond now key line isStderr b =
    (case line_entry masked beyond b now key line isStderr of None \<Rightarrow> Some b | Some (e, aw) \<Rightarrow> publish e aw b)"
proof (cases rule: bridge_cases [where isStderr = isStderr and line = line and beyond = beyond and b = b])
  case raw
  then show ?thesis by (auto simp: BridgeLine_raw line_entry_def Let_def)
next
  case (skip ev entry aw)
  then show ?thesis using BridgeLine_skip [OF skip(2,3)] by (simp add: line_entry_def Let_def)
next
  case (event ev entry aw)
  then show ?thesis using BridgeLine_event [OF event(2,3)] by (simp add: line_entry_def Let_def)
qed

text \<open>It depends on the configuration and the redactor of the bridge alone.\<close>

definition same_setup :: "'r BridgeConfig \<Rightarrow> 'r Bridge \<Rightarrow> bool" where
  "same_setup cfg b \<longleftrightarrow> br_surfaceAwaitingHuman b = cfg_SurfaceAwaitingHuman cfg \<and> br_surfaceRunState b = cfg_SurfaceRunState cfg \<and>
     br_mapExtra b = cfg_MapExtra cfg"

lemma line_entry_setup:
  assumes "same_setup cfg b"
  shows "line_entry masked beyond b now key line isStderr =
    line_entry masked beyond ((NewBridge cfg)\<lparr>br_redactor := br_redactor b\<rparr>) now key line isStderr"
proof -
  let ?b = "(NewBridge cfg)\<lparr>br_redactor := br_redactor b\<rparr>"
  have "mapEvent beyond b kind data = mapEvent beyond ?b kind data" for kind data
    using assms by (simp add: same_setup_def mapEvent_def NewBridge_def)
  then have map: "mapEvent beyond b = mapEvent beyond ?b" by blast
  have red: "br_redactor ?b = br_redactor b" by simp
  show ?thesis unfolding line_entry_def red map ..
qed

lemma publish_hub: "publish e aw b = Some b' \<Longrightarrow> Publish e (br_hub b) = Some (br_hub b')"
  by (auto simp: publish_def Let_def split: option.splits)

lemma publish_setup: "publish e aw b = Some b' \<Longrightarrow> br_redactor b' = br_redactor b \<and> same_setup cfg b' = same_setup cfg b"
  by (auto simp: publish_def same_setup_def Let_def split: option.splits if_splits)

subsection \<open>Executions\<close>

datatype sys_event = LineIn instant Key string bool | Secret redact_op | HubUse "LogEntry hub_event"

text \<open>The other users of the hub retain, release, subscribe, unsubscribe and receive.\<close>

inductive sys_step :: "('r option \<Rightarrow> string \<Rightarrow> string) \<Rightarrow> (float64 \<Rightarrow> int) \<Rightarrow> (string list \<Rightarrow> 'r) \<Rightarrow>
    'r RedactorRegistry \<times> 'r Bridge \<Rightarrow> sys_event \<Rightarrow> 'r RedactorRegistry \<times> 'r Bridge \<Rightarrow> bool"
  for masked beyond mk where
  line: "BridgeLine masked beyond now key line isStderr b = Some b' \<Longrightarrow>
    sys_step masked beyond mk (reg, b) (LineIn now key line isStderr) (reg, b')"
| secret: "reg' = redact_step mk op reg \<Longrightarrow>
    sys_step masked beyond mk (reg, b) (Secret op) (reg', setRedactor (rr_bridge reg') b)"
| hub: "hub_step (br_hub b) ev h \<Longrightarrow> event_in ev = {} \<Longrightarrow>
    sys_step masked beyond mk (reg, b) (HubUse ev) (reg, b\<lparr>br_hub := h\<rparr>)"

inductive_cases sys_stepE: "sys_step masked beyond mk s ev s'"

text \<open>A backend creates the bridge and then the registry on it, which installs its redactor at once.\<close>

definition sys_start :: "(string list \<Rightarrow> 'r) \<Rightarrow> 'r BridgeConfig \<Rightarrow> 'r RedactorRegistry \<times> 'r Bridge" where
  "sys_start mk cfg =
     (let b = NewBridge cfg; reg = NewRedactorRegistry mk (br_redactor b) in (reg, setRedactor (rr_bridge reg) b))"

fun secret_ops :: "sys_event list \<Rightarrow> redact_op list" where
  "secret_ops [] = []"
| "secret_ops (Secret op # evs) = op # secret_ops evs"
| "secret_ops (_ # evs) = secret_ops evs"

lemma secret_ops_append [simp]: "secret_ops (xs @ ys) = secret_ops xs @ secret_ops ys"
  by (induction xs rule: secret_ops.induct) simp_all

text \<open>
  The entry is the one of a line bridged in the execution so far, made with a redactor for exactly the secrets that were live at that moment.
\<close>

definition bridged_in :: "('r option \<Rightarrow> string \<Rightarrow> string) \<Rightarrow> (float64 \<Rightarrow> int) \<Rightarrow> (string list \<Rightarrow> 'r) \<Rightarrow> 'r BridgeConfig \<Rightarrow> sys_event list \<Rightarrow> LogEntry \<Rightarrow> bool" where
  "bridged_in masked beyond mk cfg evs e \<longleftrightarrow>
     (\<exists>before now key line isStderr later all aw. evs = before @ LineIn now key line isStderr # later \<and>
        set all = (\<Union>sid. set (live_keys sid (secret_ops before))) \<and>
        line_entry masked beyond ((NewBridge cfg)\<lparr>br_redactor := Some (mk all)\<rparr>) now key line isStderr = Some (e, aw))"

lemma bridged_in_mono: "bridged_in masked beyond mk cfg evs e \<Longrightarrow> bridged_in masked beyond mk cfg (evs @ later) e"
  unfolding bridged_in_def by (metis append.assoc append_Cons)

definition sys_inv :: "('r option \<Rightarrow> string \<Rightarrow> string) \<Rightarrow> (float64 \<Rightarrow> int) \<Rightarrow> (string list \<Rightarrow> 'r) \<Rightarrow> 'r BridgeConfig \<Rightarrow> sys_event list \<Rightarrow>
    'r RedactorRegistry \<Rightarrow> 'r Bridge \<Rightarrow> bool" where
  "sys_inv masked beyond mk cfg evs reg b \<longleftrightarrow>
     reg = fold (redact_step mk) (secret_ops evs) (fst (sys_start mk cfg)) \<and>
     br_redactor b = rr_bridge reg \<and> same_setup cfg b \<and> hub_inv (br_hub b) \<and> unat (nextID (br_hub b)) \<le> length evs \<and>
     (\<forall>e \<in> hub_waiting (br_hub b). bridged_in masked beyond mk cfg evs e)"

lemma sys_redactor:
  assumes "sys_inv masked beyond mk cfg evs reg b"
  obtains all where "br_redactor b = Some (mk all)" "set all = (\<Union>sid. set (live_keys sid (secret_ops evs)))"
proof -
  obtain all where "rr_bridge reg = Some (mk all)" "set all = (\<Union>sid. set (live_keys sid (secret_ops evs)))"
    using assms registry_run [of mk "secret_ops evs" "cfg_Redactor cfg"]
    by (auto simp: sys_inv_def sys_start_def NewBridge_def Let_def)
  then show ?thesis using assms that by (simp add: sys_inv_def)
qed

lemma sys_bridged:
  assumes "sys_inv masked beyond mk cfg evs reg b" "line_entry masked beyond b now key line isStderr = Some (e, aw)"
  shows "bridged_in masked beyond mk cfg (evs @ [LineIn now key line isStderr]) e"
proof -
  obtain all where red: "br_redactor b = Some (mk all)" "set all = (\<Union>sid. set (live_keys sid (secret_ops evs)))"
    using assms(1) by (rule sys_redactor)
  have "same_setup cfg b" using assms(1) by (simp add: sys_inv_def)
  then have "line_entry masked beyond ((NewBridge cfg)\<lparr>br_redactor := Some (mk all)\<rparr>) now key line isStderr = Some (e, aw)"
    using line_entry_setup [of cfg b masked beyond now key line isStderr] assms(2) red(1) by simp
  then show ?thesis unfolding bridged_in_def using red(2) by blast
qed

lemma sys_hub_step:
  assumes inv: "sys_inv masked beyond mk cfg evs reg b" and step: "hub_step (br_hub b) ev h"
    and len: "length evs < 2 ^ 64 - 1" and new: "\<And>e. e \<in> event_in ev \<Longrightarrow> bridged_in masked beyond mk cfg (evs @ [sev]) e"
  shows "hub_inv h" "unat (nextID h) \<le> Suc (length evs)" "e \<in> hub_waiting h \<Longrightarrow> bridged_in masked beyond mk cfg (evs @ [sev]) e"
    "e \<in> event_out ev \<Longrightarrow> bridged_in masked beyond mk cfg evs e"
proof -
  have ok: "hub_inv (br_hub b)" "unat (nextID (br_hub b)) \<le> length evs"
    and old: "\<And>e. e \<in> hub_waiting (br_hub b) \<Longrightarrow> bridged_in masked beyond mk cfg evs e"
    using inv by (simp_all add: sys_inv_def)
  have n: "nextID (br_hub b) \<noteq> - 1" using ok(2) len by (intro not_max) simp
  show "hub_inv h" using hub_step_inv [OF step ok(1) n] .
  show "unat (nextID h) \<le> Suc (length evs)" using hub_step_frame [OF step ok(1) n, of "[]"] ok(2) by linarith
  show "e \<in> hub_waiting h \<Longrightarrow> bridged_in masked beyond mk cfg (evs @ [sev]) e"
    using hub_conveyor.step_keeps(1) [OF conjI [OF ok(1) n] step, of "bridged_in masked beyond mk cfg (evs @ [sev])"] old new bridged_in_mono by blast
  show "e \<in> event_out ev \<Longrightarrow> bridged_in masked beyond mk cfg evs e"
    using hub_conveyor.step_out [OF conjI [OF ok(1) n] step] old by blast
qed

lemma sys_line_inv:
  assumes inv: "sys_inv masked beyond mk cfg evs reg b" and line: "BridgeLine masked beyond now key l isStderr b = Some b'"
    and len: "length evs < 2 ^ 64 - 1"
  shows "sys_inv masked beyond mk cfg (evs @ [LineIn now key l isStderr]) reg b'"
proof (cases "line_entry masked beyond b now key l isStderr")
  case None
  then have "b' = b" using line by (simp add: BridgeLine_entry)
  then show ?thesis using inv by (auto simp: sys_inv_def bridged_in_mono)
next
  case (Some p)
  obtain e aw where e: "line_entry masked beyond b now key l isStderr = Some (e, aw)" using Some by (cases p) simp
  have pub: "publish e aw b = Some b'" using line e by (simp add: BridgeLine_entry)
  have step: "hub_step (br_hub b) (Published e) (br_hub b')" using publish_hub [OF pub] by (rule hub_step.publish)
  have "x \<in> event_in (Published e) \<Longrightarrow> bridged_in masked beyond mk cfg (evs @ [LineIn now key l isStderr]) x" for x
    using sys_bridged [OF inv e] by simp
  note new = sys_hub_step(1-3) [OF inv step len this]
  show ?thesis using inv new publish_setup [OF pub, of cfg] by (auto simp: sys_inv_def)
qed

lemma sys_secret_inv:
  "sys_inv masked beyond mk cfg evs reg b \<Longrightarrow>
    sys_inv masked beyond mk cfg (evs @ [Secret op]) (redact_step mk op reg) (setRedactor (rr_bridge (redact_step mk op reg)) b)"
  by (auto simp: sys_inv_def setRedactor_def same_setup_def bridged_in_mono)

lemma sys_use_inv:
  assumes "sys_inv masked beyond mk cfg evs reg b" "hub_step (br_hub b) ev h" "event_in ev = {}" "length evs < 2 ^ 64 - 1"
  shows "sys_inv masked beyond mk cfg (evs @ [HubUse ev]) reg (b\<lparr>br_hub := h\<rparr>)" "e \<in> event_out ev \<Longrightarrow> bridged_in masked beyond mk cfg evs e"
proof -
  have none: "x \<in> event_in ev \<Longrightarrow> bridged_in masked beyond mk cfg (evs @ [HubUse ev]) x" for x using assms(3) by simp
  note new = sys_hub_step [OF assms(1,2,4) none]
  show "sys_inv masked beyond mk cfg (evs @ [HubUse ev]) reg (b\<lparr>br_hub := h\<rparr>)"
    using assms(1) new(1-3) by (auto simp: sys_inv_def same_setup_def)
  show "e \<in> event_out ev \<Longrightarrow> bridged_in masked beyond mk cfg evs e" using new(4) .
qed

lemma sys_step_inv:
  assumes "sys_inv masked beyond mk cfg evs (fst s) (snd s)" "sys_step masked beyond mk s ev s'" "length evs < 2 ^ 64 - 1"
  shows "sys_inv masked beyond mk cfg (evs @ [ev]) (fst s') (snd s')"
  using assms(2,1,3) by cases (auto intro: sys_line_inv sys_secret_inv sys_use_inv)

lemma sys_step_out:
  assumes "sys_inv masked beyond mk cfg evs (fst s) (snd s)" "sys_step masked beyond mk s (HubUse (Received k e)) s'"
    "length evs < 2 ^ 64 - 1"
  shows "bridged_in masked beyond mk cfg evs e"
  using assms(2,1,3) by cases (auto intro: sys_use_inv(2))

lemma sys_chain:
  assumes "chain (sys_step masked beyond mk) s evs s'" "sys_inv masked beyond mk cfg hist (fst s) (snd s)"
    "length hist + length evs < 2 ^ 64"
  shows "sys_inv masked beyond mk cfg (hist @ evs) (fst s') (snd s') \<and>
    (\<forall>pre k e post. evs = pre @ HubUse (Received k e) # post \<longrightarrow> bridged_in masked beyond mk cfg (hist @ pre) e)"
  using assms
proof (induction arbitrary: hist rule: chain.induct)
  case (chain_nil s)
  then show ?case by simp
next
  case (chain_cons s ev s1 evs s')
  have len: "length hist < 2 ^ 64 - 1" using chain_cons.prems(2) by simp
  have inv: "sys_inv masked beyond mk cfg (hist @ [ev]) (fst s1) (snd s1)"
    using sys_step_inv [OF chain_cons.prems(1) chain_cons.hyps(1) len] .
  have now: "bridged_in masked beyond mk cfg hist e" if ev: "ev = HubUse (Received k e)" for k e
    using sys_step_out [OF chain_cons.prems(1) chain_cons.hyps(1) [unfolded ev] len] .
  have later: "sys_inv masked beyond mk cfg (hist @ ev # evs) (fst s') (snd s')"
    "\<forall>pre k e post. evs = pre @ HubUse (Received k e) # post \<longrightarrow> bridged_in masked beyond mk cfg (hist @ ev # pre) e"
    using chain_cons.IH [OF inv] chain_cons.prems(2) by simp_all
  show ?case using now later by (auto simp: Cons_eq_append_conv)
qed

lemma sys_start_inv: "hub_inv (cfg_Hub cfg) \<Longrightarrow> hub_waiting (cfg_Hub cfg) = {} \<Longrightarrow> nextID (cfg_Hub cfg) = 0 \<Longrightarrow>
    sys_inv masked beyond mk cfg [] (fst (sys_start mk cfg)) (snd (sys_start mk cfg))"
  by (simp add: sys_inv_def same_setup_def sys_start_def NewBridge_def setRedactor_def Let_def)

lemma hub_waiting_NewHub [simp]: "hub_waiting (NewHub kf obs) = {}"
  by (simp add: hub_waiting_def NewHub_def)

text \<open>C4: Whatever lines workers print, whatever secrets sessions add and drop, and however subscribers come and go: bridging a line never panics, and
every entry a subscriber receives is the entry of a line bridged before, its content passed through the redactor for exactly the secrets live at the moment the line was bridged: every
key added to a session since the session was last removed.\<close>

theorem subscribers_see_redacted:
  assumes "cfg_Hub cfg = NewHub kf obs" "chain (sys_step masked beyond mk) (sys_start mk cfg) evs (reg, b)" "length evs < 2 ^ 64"
  shows "BridgeLine masked beyond now key line isStderr b \<noteq> None \<and>
    (\<forall>pre k e post. evs = pre @ HubUse (Received k e) # post \<longrightarrow>
       (\<exists>before now key line isStderr later all aw. pre = before @ LineIn now key line isStderr # later \<and>
          set all = (\<Union>sid. set (live_keys sid (secret_ops before))) \<and>
          line_entry masked beyond ((NewBridge cfg)\<lparr>br_redactor := Some (mk all)\<rparr>) now key line isStderr = Some (e, aw)))"
proof -
  have "nextID (NewHub kf obs) = 0" by (simp add: NewHub_def)
  then have start: "sys_inv masked beyond mk cfg [] (fst (sys_start mk cfg)) (snd (sys_start mk cfg))"
    using sys_start_inv [of cfg] assms(1) by simp
  have inv: "sys_inv masked beyond mk cfg evs reg b"
    and out: "\<forall>pre k e post. evs = pre @ HubUse (Received k e) # post \<longrightarrow> bridged_in masked beyond mk cfg pre e"
    using sys_chain [OF assms(2) start] assms(3) by simp_all
  have "hub_inv (br_hub b)" using inv by (simp add: sys_inv_def)
  then have "BridgeLine masked beyond now key line isStderr b \<noteq> None"
    by (rule BridgeLine_step [of b masked beyond now key line isStderr]) simp
  then show ?thesis using out unfolding bridged_in_def by blast
qed

text \<open>A run in which a subscriber receives a line that held a secret.\<close>

definition sample_secret :: "string list RedactorRegistry \<times> string list Bridge" where
  "sample_secret =
     (let (reg, b) = sys_start (\<lambda>ks. ks) sample_cfg; reg' = redact_step (\<lambda>ks. ks) (Add ''s'' ''key'') reg
      in (reg', setRedactor (rr_bridge reg') b))"

lemma sample_received:
  "case Subscribe [] (br_hub (snd sample_secret)) of None \<Rightarrow> False | Some (sid, h1) \<Rightarrow>
    (case BridgeLine sample_masked f_trunc 7 sample_key ''my key'' True ((snd sample_secret)\<lparr>br_hub := h1\<rparr>) of
       None \<Rightarrow> False
     | Some b2 \<Rightarrow>
         (case (map_of (subs (br_hub b2)) sid, hub_recv sid (br_hub b2)) of
            (Some s, Some (e, h3)) \<Rightarrow> sub_filter s = [] \<and> le_Content e = ''***''
          | _ \<Rightarrow> False))"
  by code_simp

theorem subscribers_see_redacted_witness:
  "\<exists>evs reg b pre e. chain (sys_step sample_masked f_trunc (\<lambda>ks. ks)) (sys_start (\<lambda>ks. ks) sample_cfg) evs (reg, b) \<and>
    evs = pre @ HubUse (Received [] e) # [] \<and> le_Content e = ''***'' \<and>
    (\<exists>before now key line isStderr later all aw. pre = before @ LineIn now key line isStderr # later \<and>
       set all = (\<Union>sid. set (live_keys sid (secret_ops before))) \<and>
       line_entry sample_masked f_trunc ((NewBridge sample_cfg)\<lparr>br_redactor := Some all\<rparr>) now key line isStderr = Some (e, aw))"
proof -
  let ?mk = "\<lambda>ks :: string list. ks"
  let ?step = "sys_step sample_masked f_trunc ?mk" and ?b1 = "snd sample_secret"
  obtain sid h1 where sub: "Subscribe [] (br_hub ?b1) = Some (sid, h1)"
    using sample_received by (cases "Subscribe [] (br_hub ?b1)") auto
  obtain b2 where line: "BridgeLine sample_masked f_trunc 7 sample_key ''my key'' True (?b1\<lparr>br_hub := h1\<rparr>) = Some b2"
    using sample_received
    by (cases "BridgeLine sample_masked f_trunc 7 sample_key ''my key'' True (?b1\<lparr>br_hub := h1\<rparr>)") (auto simp: sub)
  obtain s e h3 where recv: "map_of (subs (br_hub b2)) sid = Some s" "hub_recv sid (br_hub b2) = Some (e, h3)"
    and e: "sub_filter s = []" "le_Content e = ''***''"
    using sample_received
    by (cases "map_of (subs (br_hub b2)) sid"; cases "hub_recv sid (br_hub b2)") (auto simp: sub line)
  let ?reg = "fst sample_secret" and ?start = "sys_start ?mk sample_cfg"
  have 1: "?step ?start (Secret (Add ''s'' ''key'')) (?reg, ?b1)"
    using sys_step.secret [of _ ?mk "Add ''s'' ''key''" "fst ?start" sample_masked f_trunc "snd ?start"]
    by (simp add: sample_secret_def sys_start_def Let_def)
  have 2: "?step (?reg, ?b1) (HubUse (Subscribed [] sid)) (?reg, ?b1\<lparr>br_hub := h1\<rparr>)"
    by (rule sys_step.hub [OF hub_step.subscribe [OF sub]]) simp
  have 3: "?step (?reg, ?b1\<lparr>br_hub := h1\<rparr>) (LineIn 7 sample_key ''my key'' True) (?reg, b2)" using line by (rule sys_step.line)
  have 4: "?step (?reg, b2) (HubUse (Received [] e)) (?reg, b2\<lparr>br_hub := h3\<rparr>)"
    by (rule sys_step.hub [OF hub_step.receive [OF recv, unfolded e(1)]]) simp
  let ?pre = "[Secret (Add ''s'' ''key''), HubUse (Subscribed [] sid), LineIn 7 sample_key ''my key'' True]"
  let ?evs = "?pre @ HubUse (Received [] e) # []"
  have c: "chain ?step ?start ?evs (?reg, b2\<lparr>br_hub := h3\<rparr>)" using 1 2 3 4 by (simp, meson chain_cons chain_nil)
  have hub: "cfg_Hub sample_cfg = NewHub None False" by (simp add: sample_cfg_def)
  have len: "length ?evs < 2 ^ 64" by simp
  have fin: "\<exists>before now key line isStderr later all aw. ?pre = before @ LineIn now key line isStderr # later \<and>
       set all = (\<Union>sid. set (live_keys sid (secret_ops before))) \<and>
       line_entry sample_masked f_trunc ((NewBridge sample_cfg)\<lparr>br_redactor := Some all\<rparr>) now key line isStderr = Some (e, aw)"
    using subscribers_see_redacted [OF hub c len] by blast
  show ?thesis
    by (rule exI [of _ ?evs], rule exI [of _ ?reg], rule exI [of _ "b2\<lparr>br_hub := h3\<rparr>"], rule exI [of _ ?pre], rule exI [of _ e])
      (rule conjI [OF c conjI [OF refl conjI [OF e(2) fin]]])
qed

end
