(* ===== verification/Element_List.thy ===== *)
theory Element_List
  imports Kit_Prelude
begin

text \<open>
  The doubly linked list of \<open>container/list\<close> together with the key index that
  \<open>webhookcore/replay.go\<close> and \<open>webhookcore/dedup.go\<close> keep beside it. An element is the
  address a \<open>*list.Element\<close> points to and the value stored there; neither cache writes to a
  value after \<open>PushBack\<close>, so a copy of the pair stands for the pointer. \<open>indexed\<close> is the
  part the two cache structs share (fields \<open>entries\<close> and \<open>index\<close>); both structs extend it.
  The lemmas show that the index and the list describe the same key-ordered log.
\<close>

record 'v element =
  addr :: nat
  val :: 'v

record 'v go_list =
  cells :: "'v element list"
  fresh :: nat

definition list_New :: "'v go_list" where
  "list_New = \<lparr>cells = [], fresh = 0\<rparr>"

definition list_PushBack :: "'v \<Rightarrow> 'v go_list \<Rightarrow> 'v element \<times> 'v go_list" where
  "list_PushBack v l =
     (let el = \<lparr>addr = fresh l, val = v\<rparr>
      in (el, l\<lparr>cells := cells l @ [el], fresh := Suc (fresh l)\<rparr>))"

definition list_Remove :: "'v element \<Rightarrow> 'v go_list \<Rightarrow> 'v go_list" where
  "list_Remove el l = l\<lparr>cells := filter (\<lambda>x. addr x \<noteq> addr el) (cells l)\<rparr>"

definition list_Front :: "'v go_list \<Rightarrow> 'v element option" where
  "list_Front l = (case cells l of [] \<Rightarrow> None | el # _ \<Rightarrow> Some el)"

definition list_Len :: "'v go_list \<Rightarrow> int" where
  "list_Len l = int (length (cells l))"

record 'v indexed =
  entries :: "'v go_list"
  index :: "string \<rightharpoonup> 'v element"

text \<open>\<open>c.entries.Remove(el)\<close> followed by \<open>delete(c.index, key)\<close>.\<close>

definition reap :: "string \<Rightarrow> 'v element \<Rightarrow> ('v, 'z) indexed_scheme \<Rightarrow> ('v, 'z) indexed_scheme" where
  "reap key el c = c\<lparr>entries := list_Remove el (entries c), index := (index c)(key := None)\<rparr>"

text \<open>\<open>c.index[key] = c.entries.PushBack(value)\<close>.\<close>

definition record_back :: "string \<Rightarrow> 'v \<Rightarrow> ('v, 'z) indexed_scheme \<Rightarrow> ('v, 'z) indexed_scheme" where
  "record_back key v c =
     (let (el, l) = list_PushBack v (entries c)
      in c\<lparr>entries := l, index := (index c)(key \<mapsto> el)\<rparr>)"

text \<open>The loop that drops the front while the list is longer than the capacity.\<close>

function evict_over :: "('v \<Rightarrow> string) \<Rightarrow> int \<Rightarrow> ('v, 'z) indexed_scheme \<Rightarrow> ('v, 'z) indexed_scheme" where
  "evict_over keyf cap c =
     (if list_Len (entries c) > cap then
        (case list_Front (entries c) of
           None \<Rightarrow> c
         | Some oldest \<Rightarrow> evict_over keyf cap (reap (keyf (val oldest)) oldest c))
      else c)"
  by pat_completeness auto
termination
proof (relation "measure (\<lambda>(keyf, cap, c). length (cells (entries c)))", goal_cases)
  case 1
  show ?case by simp
next
  case (2 keyf cap c oldest)
  then show ?case
    by (auto simp: list_Front_def reap_def list_Remove_def le_imp_less_Suc split: list.splits)
qed

declare evict_over.simps [simp del]

definition list_ok :: "'v go_list \<Rightarrow> bool" where
  "list_ok l \<longleftrightarrow> distinct (map addr (cells l)) \<and> (\<forall>el \<in> set (cells l). addr el < fresh l)"

definition index_ok :: "('v \<Rightarrow> string) \<Rightarrow> ('v, 'z) indexed_scheme \<Rightarrow> bool" where
  "index_ok keyf c \<longleftrightarrow>
     list_ok (entries c) \<and>
     (\<forall>k el. index c k = Some el \<longleftrightarrow> el \<in> set (cells (entries c)) \<and> keyf (val el) = k)"

text \<open>What the pair of list and index stands for: keys with a payload, oldest first.\<close>

definition log_of :: "('v \<Rightarrow> string) \<Rightarrow> ('v \<Rightarrow> 'p) \<Rightarrow> ('v, 'z) indexed_scheme \<Rightarrow> (string \<times> 'p) list" where
  "log_of keyf pay c = map (\<lambda>el. (keyf (val el), pay (val el))) (cells (entries c))"

subsection \<open>The index describes the list\<close>

lemma index_okD_in: "index_ok keyf c \<Longrightarrow> index c k = Some el \<Longrightarrow> el \<in> set (cells (entries c))"
  by (simp add: index_ok_def)

lemma index_okD_key: "index_ok keyf c \<Longrightarrow> index c k = Some el \<Longrightarrow> keyf (val el) = k"
  by (simp add: index_ok_def)

lemma index_okI_some:
  "index_ok keyf c \<Longrightarrow> el \<in> set (cells (entries c)) \<Longrightarrow> index c (keyf (val el)) = Some el"
  by (simp add: index_ok_def)

lemma index_ok_same_key:
  assumes "index_ok keyf c" "a \<in> set (cells (entries c))" "b \<in> set (cells (entries c))"
    and "keyf (val a) = keyf (val b)"
  shows "a = b"
  using assms by (metis index_okI_some option.inject)

lemma distinct_addr_inj:
  "list_ok l \<Longrightarrow> a \<in> set (cells l) \<Longrightarrow> b \<in> set (cells l) \<Longrightarrow> addr a = addr b \<Longrightarrow> a = b"
  by (auto simp: list_ok_def distinct_map dest: inj_onD)

lemma distinct_cells: "list_ok l \<Longrightarrow> distinct (cells l)"
  by (simp add: list_ok_def distinct_map)

lemma distinct_log: "index_ok keyf c \<Longrightarrow> distinct (map fst (log_of keyf pay c))"
  unfolding log_of_def
  by (auto simp: distinct_map o_def index_ok_def distinct_cells inj_on_def intro: index_ok_same_key)

lemma same_addr_same_key:
  assumes "index_ok keyf c" "a \<in> set (cells (entries c))" "b \<in> set (cells (entries c))"
  shows "addr a = addr b \<longleftrightarrow> keyf (val a) = keyf (val b)"
proof -
  have l: "list_ok (entries c)" using assms(1) by (simp add: index_ok_def)
  show ?thesis using distinct_addr_inj [OF l assms(2,3)] index_ok_same_key [OF assms] by blast
qed

lemma map_of_log:
  assumes "index_ok keyf c"
  shows "map_of (log_of keyf pay c) k = map_option (\<lambda>el. pay (val el)) (index c k)"
proof (cases "index c k")
  case None
  then have "\<forall>el \<in> set (cells (entries c)). keyf (val el) \<noteq> k"
    using index_okI_some [OF assms] by fastforce
  then have "map_of (log_of keyf pay c) k = None"
    by (auto simp: log_of_def map_of_eq_None_iff)
  with None show ?thesis by simp
next
  case (Some el)
  have "(k, pay (val el)) \<in> set (log_of keyf pay c)"
    using index_okD_in [OF assms Some] index_okD_key [OF assms Some] by (auto simp: log_of_def)
  then show ?thesis
    using Some map_of_is_SomeI [OF distinct_log [OF assms]] by simp
qed

subsection \<open>The operations on the log\<close>

lemma index_ok_empty [simp]: "entries c = list_New \<Longrightarrow> index c = Map.empty \<Longrightarrow> index_ok keyf c"
  by (simp add: index_ok_def list_ok_def list_New_def)

lemma log_of_empty [simp]: "entries c = list_New \<Longrightarrow> log_of keyf pay c = []"
  by (simp add: log_of_def list_New_def)

lemma cells_reap:
  assumes "index_ok keyf c" "el \<in> set (cells (entries c))"
  shows "cells (entries (reap key el c)) = filter (\<lambda>x. keyf (val x) \<noteq> keyf (val el)) (cells (entries c))"
  using same_addr_same_key [OF assms(1) _ assms(2)]
  by (auto simp: reap_def list_Remove_def intro: filter_cong)

lemma index_ok_reap:
  assumes ok: "index_ok keyf c" and el: "el \<in> set (cells (entries c))"
  shows "index_ok keyf (reap (keyf (val el)) el c)"
proof -
  have "list_ok (entries (reap (keyf (val el)) el c))"
    using ok by (auto simp: index_ok_def list_ok_def reap_def list_Remove_def distinct_map_filter)
  moreover have "index (reap (keyf (val el)) el c) k = Some x \<longleftrightarrow>
      x \<in> set (cells (entries (reap (keyf (val el)) el c))) \<and> keyf (val x) = k" for k x
    unfolding cells_reap [OF assms] using ok by (auto simp: index_ok_def reap_def)
  ultimately show ?thesis by (simp add: index_ok_def)
qed

lemma log_of_reap:
  assumes "index_ok keyf c" "el \<in> set (cells (entries c))"
  shows "log_of keyf pay (reap (keyf (val el)) el c) =
    filter (\<lambda>p. fst p \<noteq> keyf (val el)) (log_of keyf pay c)"
  by (simp add: log_of_def cells_reap [OF assms] filter_map_key)

lemma index_ok_record_back:
  assumes ok: "index_ok keyf c" and new: "index c (keyf v) = None"
  shows "index_ok keyf (record_back (keyf v) v c)"
proof -
  have "el \<in> set (cells (entries c)) \<Longrightarrow> keyf (val el) \<noteq> keyf v" for el
    using index_okI_some [OF ok] new by force
  then show ?thesis
    using ok by (auto simp: index_ok_def list_ok_def record_back_def list_PushBack_def Let_def less_Suc_eq)
qed

lemma log_of_record_back:
  "log_of keyf pay (record_back key v c) = log_of keyf pay c @ [(keyf v, pay v)]"
  by (simp add: log_of_def record_back_def list_PushBack_def Let_def)

lemma Front_log:
  "list_Front (entries c) = (case cells (entries c) of [] \<Rightarrow> None | el # _ \<Rightarrow> Some el)"
  by (rule list_Front_def)

lemma reap_front:
  assumes ok: "index_ok keyf c" and front: "list_Front (entries c) = Some el"
  shows "index_ok keyf (reap (keyf (val el)) el c)"
    and "log_of keyf pay (reap (keyf (val el)) el c) = tl (log_of keyf pay c)"
    and "log_of keyf pay c = (keyf (val el), pay (val el)) # tl (log_of keyf pay c)"
proof -
  obtain els where c: "cells (entries c) = el # els"
    using front by (auto simp: list_Front_def split: list.splits)
  then have el: "el \<in> set (cells (entries c))" by simp
  show "index_ok keyf (reap (keyf (val el)) el c)" by (rule index_ok_reap [OF ok el])
  show hd: "log_of keyf pay c = (keyf (val el), pay (val el)) # tl (log_of keyf pay c)"
    by (simp add: log_of_def c)
  have "hd (log_of keyf pay c) = (keyf (val el), pay (val el))" by (simp add: log_of_def c)
  then show "log_of keyf pay (reap (keyf (val el)) el c) = tl (log_of keyf pay c)"
    using filter_tl_distinct [OF distinct_log [OF ok, of pay]] hd
    by (simp add: log_of_reap [OF ok el]) (metis fst_conv list.discI)
qed

lemma Front_None_iff: "list_Front (entries c) = None \<longleftrightarrow> log_of keyf pay c = []"
  by (simp add: list_Front_def log_of_def split: list.splits)

lemma Len_log: "list_Len (entries c) = int (length (log_of keyf pay c))"
  by (simp add: list_Len_def log_of_def)

lemma evict_over_ok: "index_ok keyf c \<Longrightarrow> index_ok keyf (evict_over keyf cap c)"
proof (induction keyf cap c rule: evict_over.induct)
  case (1 keyf cap c)
  then show ?case
    by (subst evict_over.simps) (auto split: option.splits intro: reap_front(1))
qed

lemma log_of_evict_over:
  "index_ok keyf c \<Longrightarrow> 0 \<le> cap \<Longrightarrow>
   log_of keyf pay (evict_over keyf cap c) = drop (length (log_of keyf pay c) - nat cap) (log_of keyf pay c)"
proof (induction keyf cap c rule: evict_over.induct)
  case (1 keyf cap c)
  show ?case
  proof (cases "list_Len (entries c) > cap")
    case False
    then have "length (log_of keyf pay c) \<le> nat cap" by (simp add: Len_log [of c keyf pay])
    with False show ?thesis by (simp add: evict_over.simps)
  next
    case True
    then have "log_of keyf pay c \<noteq> []" using "1.prems"(2) Len_log [of c keyf pay] by auto
    then obtain el where el: "list_Front (entries c) = Some el"
      using Front_None_iff [of c keyf pay] by (cases "list_Front (entries c)") auto
    note r = reap_front(1) [OF "1.prems"(1) el] reap_front(2) [OF "1.prems"(1) el, of pay]
    have "log_of keyf pay (evict_over keyf cap c) =
        drop (length (tl (log_of keyf pay c)) - nat cap) (tl (log_of keyf pay c))"
      using "1.IH" [OF True el r(1) "1.prems"(2)] True el r(2) by (simp add: evict_over.simps [of keyf cap c])
    also have "\<dots> = drop (length (log_of keyf pay c) - nat cap) (log_of keyf pay c)"
      using True "1.prems"(2) Len_log [of c keyf pay] \<open>log_of keyf pay c \<noteq> []\<close>
      by (cases "log_of keyf pay c") (auto simp: Suc_diff_le nat_le_iff)
    finally show ?thesis .
  qed
qed

lemma evict_over_more:
  "indexed.more (evict_over keyf cap c) = indexed.more c"
proof (induction keyf cap c rule: evict_over.induct)
  case (1 keyf cap c)
  then show ?case by (subst evict_over.simps) (auto simp: reap_def split: option.splits)
qed

end
