(* ===== verification/Ttl_Cache.thy ===== *)
theory Ttl_Cache
  imports Element_List
begin

text \<open>
  What the replay cache and the dedup cache both promise, stated once. \<open>spec_check\<close> is the
  contract of a check-and-record step on a log of keys with their recording instants, oldest
  first: a key recorded inside the TTL is a duplicate and changes nothing; any other key is
  recorded at the end, and the capacity drops the oldest records. The locale \<open>ttl_cache\<close> fixes a
  cache with such a step and proves the window guarantee for arbitrary interleavings;
  \<open>Replay_Cache\<close> and \<open>Dedup_Cache\<close> interpret it on the two caches of the program.
\<close>

type_synonym cache_log = "(string \<times> instant) list"

definition live :: "duration \<Rightarrow> instant \<Rightarrow> instant \<Rightarrow> bool" where
  "live ttl now seen \<longleftrightarrow> ttl \<le> 0 \<or> time_Sub now seen \<le> ttl"

definition trim_to :: "int \<Rightarrow> 'a list \<Rightarrow> 'a list" where
  "trim_to cap xs = (if cap > 0 then drop (length xs - nat cap) xs else xs)"

definition forget :: "string \<Rightarrow> cache_log \<Rightarrow> cache_log" where
  "forget k xs = filter (\<lambda>p. fst p \<noteq> k) xs"

definition spec_check :: "duration \<Rightarrow> int \<Rightarrow> instant \<Rightarrow> string \<Rightarrow> cache_log \<Rightarrow> bool \<times> cache_log" where
  "spec_check ttl cap now k xs =
     (case map_of xs k of
        None \<Rightarrow> (False, trim_to cap (xs @ [(k, now)]))
      | Some seen \<Rightarrow>
          if live ttl now seen then (True, xs)
          else (False, trim_to cap (forget k xs @ [(k, now)])))"

definition spec_sweep :: "duration \<Rightarrow> instant \<Rightarrow> cache_log \<Rightarrow> cache_log" where
  "spec_sweep ttl now xs =
     (if ttl \<le> 0 then xs else dropWhile (\<lambda>p. \<not> time_After (snd p) (time_Add now (- ttl))) xs)"

text \<open>\<open>holds k t n xs\<close>: the record of \<open>k\<close> made at \<open>t\<close> is in the log with at most \<open>n\<close> younger ones.\<close>

definition holds :: "string \<Rightarrow> instant \<Rightarrow> nat \<Rightarrow> cache_log \<Rightarrow> bool" where
  "holds k t n xs \<longleftrightarrow> (\<exists>ys zs. xs = ys @ (k, t) # zs \<and> length zs \<le> n)"

text \<open>Room left by the capacity for \<open>n\<close> younger records beside one.\<close>

definition roomy :: "int \<Rightarrow> nat \<Rightarrow> bool" where
  "roomy cap n \<longleftrightarrow> cap \<le> 0 \<or> int n < cap"

subsection \<open>Laws of the specification\<close>

lemma length_trim_to: "cap > 0 \<Longrightarrow> length (trim_to cap xs) \<le> nat cap"
  by (simp add: trim_to_def)

lemma set_trim_to: "set (trim_to cap xs) \<subseteq> set xs"
  by (auto simp: trim_to_def dest: in_set_dropD)

lemma spec_check_bounded:
  assumes "spec_check ttl cap now k xs = (d, xs')" "cap > 0" "length xs \<le> nat cap"
  shows "length xs' \<le> nat cap"
  using assms length_trim_to [OF assms(2)]
  by (auto simp: spec_check_def split: option.splits if_splits)

lemma live_within: "0 < ttl \<Longrightarrow> now - seen \<le> ttl \<Longrightarrow> live ttl now seen"
  by (auto simp: live_def intro: time_Sub_le)

lemma live_mono: "live ttl now seen \<Longrightarrow> 0 < ttl \<Longrightarrow> ttl \<le> ttl' \<Longrightarrow> live ttl' now seen"
  by (auto simp: live_def)

lemma holds_map_of: "distinct (map fst xs) \<Longrightarrow> holds k t n xs \<Longrightarrow> map_of xs k = Some t"
  by (auto simp: holds_def intro: map_of_is_SomeI)

lemma holds_mono: "holds k t n xs \<Longrightarrow> n \<le> m \<Longrightarrow> holds k t m xs"
  unfolding holds_def using order_trans by blast

lemma drop_keeps_suffix:
  assumes "length (x # zs) \<le> n"
  shows "\<exists>ys'. drop (length (ys @ x # zs) - n) (ys @ x # zs) = ys' @ x # zs"
proof -
  have "length (ys @ x # zs) - n \<le> length ys" using assms by simp
  then show ?thesis by auto
qed

lemma holds_trim_append:
  assumes "holds k t n xs" "roomy cap (Suc n)"
  shows "holds k t (Suc n) (trim_to cap (xs @ [p]))"
proof -
  obtain ys zs where xs: "xs = ys @ (k, t) # zs" and n: "length zs \<le> n"
    using assms(1) by (auto simp: holds_def)
  show ?thesis
  proof (cases "cap > 0")
    case False
    then have "trim_to cap (xs @ [p]) = ys @ (k, t) # (zs @ [p])" by (simp add: trim_to_def xs)
    moreover have "length (zs @ [p]) \<le> Suc n" using n by simp
    ultimately show ?thesis unfolding holds_def by blast
  next
    case True
    then have "length ((k, t) # (zs @ [p])) \<le> nat cap" using assms(2) n by (simp add: roomy_def)
    from drop_keeps_suffix [OF this, of ys] obtain ys' where
      "trim_to cap (xs @ [p]) = ys' @ (k, t) # (zs @ [p])" using True by (auto simp: trim_to_def xs)
    moreover have "length (zs @ [p]) \<le> Suc n" using n by simp
    ultimately show ?thesis unfolding holds_def by blast
  qed
qed

lemma holds_forget:
  assumes "holds k t n xs" "k' \<noteq> k"
  shows "holds k t n (forget k' xs)"
proof -
  obtain ys zs where "xs = ys @ (k, t) # zs" "length zs \<le> n" using assms(1) by (auto simp: holds_def)
  then have "forget k' xs = forget k' ys @ (k, t) # forget k' zs" "length (forget k' zs) \<le> n"
    using assms(2) by (auto simp: forget_def intro: order_trans [OF length_filter_le])
  then show ?thesis by (auto simp: holds_def)
qed

lemma holds_recorded:
  assumes "spec_check ttl cap now k xs = (False, xs')"
  shows "holds k now 0 xs'"
proof -
  obtain ys where ys: "xs' = trim_to cap (ys @ [(k, now)])"
    using assms by (auto simp: spec_check_def split: option.splits if_splits)
  show ?thesis
  proof (cases "cap > 0")
    case True
    then show ?thesis
      using drop_keeps_suffix [of "(k, now)" "[]" "nat cap" ys] unfolding ys by (auto simp: trim_to_def holds_def)
  qed (auto simp: ys trim_to_def holds_def)
qed

lemma holds_check_other:
  assumes "spec_check ttl cap now k' xs = (d, xs')" "holds k t n xs" "k' \<noteq> k" "roomy cap (Suc n)"
  shows "holds k t (Suc n) xs'"
  using assms holds_trim_append holds_forget holds_mono [of k t n _ "Suc n"]
  by (auto simp: spec_check_def split: option.splits if_splits)

lemma check_held_live:
  assumes "distinct (map fst xs)" "holds k t n xs" "live ttl now t"
  shows "spec_check ttl cap now k xs = (True, xs)"
  unfolding spec_check_def holds_map_of [OF assms(1,2)] using assms(3) by simp

lemma holds_sweep:
  assumes "holds k t n xs" "0 < ttl \<Longrightarrow> now - t < ttl"
  shows "holds k t n (spec_sweep ttl now xs)"
proof (cases "ttl \<le> 0")
  case True
  then show ?thesis using assms(1) by (simp add: spec_sweep_def)
next
  case False
  obtain ys zs where xs: "xs = ys @ (k, t) # zs" and n: "length zs \<le> n"
    using assms(1) by (auto simp: holds_def)
  have alive: "time_After t (time_Add now (- ttl))"
    using False assms(2) by (simp add: time_After_def time_Add_def)
  let ?P = "\<lambda>p. \<not> time_After (snd p) (time_Add now (- ttl))"
  have "\<exists>ys'. dropWhile ?P xs = ys' @ (k, t) # zs"
    unfolding xs using alive by (induction ys) auto
  then show ?thesis using False n by (auto simp: spec_sweep_def holds_def)
qed

lemma spec_sweep_sorted:
  assumes "sorted (map snd xs)" "0 < ttl"
  shows "spec_sweep ttl now xs = filter (\<lambda>p. now - snd p < ttl) xs"
  using assms
  by (induction xs)
    (auto simp: spec_sweep_def time_After_def time_Add_def intro!: filter_True [symmetric])

lemma sorted_trim_to: "sorted (map f xs) \<Longrightarrow> sorted (map f (trim_to cap xs))"
  by (auto simp: trim_to_def drop_map [symmetric] intro: sorted_wrt_drop)

lemma sorted_spec_check:
  assumes "spec_check ttl cap now k xs = (d, xs')" "sorted (map snd xs)" "\<forall>p \<in> set xs. snd p \<le> now"
  shows "sorted (map snd xs') \<and> (\<forall>p \<in> set xs'. snd p \<le> now)"
proof -
  have app: "sorted (map snd (trim_to cap (ys @ [(k, now)]))) \<and>
      (\<forall>p \<in> set (trim_to cap (ys @ [(k, now)])). snd p \<le> now)"
    if "sorted (map snd ys)" "\<forall>p \<in> set ys. snd p \<le> now" for ys
  proof -
    have "sorted (map snd (ys @ [(k, now)]))" using that by (auto simp: sorted_append)
    then have "sorted (map snd (trim_to cap (ys @ [(k, now)])))" by (rule sorted_trim_to)
    moreover have "\<forall>p \<in> set (trim_to cap (ys @ [(k, now)])). snd p \<le> now"
      using that(2) set_trim_to [of cap "ys @ [(k, now)]"] by auto
    ultimately show ?thesis by blast
  qed
  have "sorted (map snd (forget k xs)) \<and> (\<forall>p \<in> set (forget k xs). snd p \<le> now)"
    using assms(2,3) by (auto simp: forget_def sorted_filter)
  then show ?thesis
    using assms app [of xs] app [of "forget k xs"]
    by (auto simp: spec_check_def split: option.splits if_splits)
qed

subsection \<open>Interleavings and the cache interface\<close>

text \<open>
  The mutex of a cache makes each call atomic, so a concurrent execution is a sequence of steps:
  checks of any keys, and the maintenance calls of the cache at hand (sweeps and TTL raises of the
  replay cache, rollbacks of the dedup cache).
\<close>

datatype 'm cache_step = Check instant string | Maint 'm

fun run_steps :: "(instant \<Rightarrow> string \<Rightarrow> 's \<Rightarrow> bool \<times> 's) \<Rightarrow> ('m \<Rightarrow> 's \<Rightarrow> 's) \<Rightarrow> 'm cache_step list \<Rightarrow> 's \<Rightarrow> 's" where
  "run_steps check maint [] s = s"
| "run_steps check maint (Check now k # steps) s = run_steps check maint steps (snd (check now k s))"
| "run_steps check maint (Maint m # steps) s = run_steps check maint steps (maint m s)"

fun check_count :: "'m cache_step list \<Rightarrow> nat" where
  "check_count [] = 0"
| "check_count (Check now k # steps) = Suc (check_count steps)"
| "check_count (Maint m # steps) = check_count steps"

text \<open>\<open>lasting d d'\<close>: a TTL of \<open>d'\<close> remembers at least as long as one of \<open>d\<close> (non-positive: for ever).\<close>

definition lasting :: "duration \<Rightarrow> duration \<Rightarrow> bool" where
  "lasting d d' \<longleftrightarrow> d' \<le> 0 \<or> (0 < d \<and> d \<le> d')"

lemma lasting_refl [simp]: "lasting d d"
  by (auto simp: lasting_def)

lemma lasting_trans: "lasting a b \<Longrightarrow> lasting b c \<Longrightarrow> lasting a c"
  by (auto simp: lasting_def)

lemma live_lasting: "live d now t \<Longrightarrow> lasting d d' \<Longrightarrow> live d' now t"
  by (auto simp: live_def lasting_def)

locale ttl_cache =
  fixes invar :: "'s \<Rightarrow> bool"
    and content :: "'s \<Rightarrow> cache_log"
    and ttl :: "'s \<Rightarrow> duration"
    and cap :: "'s \<Rightarrow> int"
    and check :: "instant \<Rightarrow> string \<Rightarrow> 's \<Rightarrow> bool \<times> 's"
    and maint :: "'m \<Rightarrow> 's \<Rightarrow> 's"
    and harmless :: "duration \<Rightarrow> 'm \<Rightarrow> string \<Rightarrow> instant \<Rightarrow> bool"
  assumes content_distinct: "invar s \<Longrightarrow> distinct (map fst (content s))"
    and check_spec: "invar s \<Longrightarrow>
      spec_check (ttl s) (cap s) now k (content s) = (fst (check now k s), content (snd (check now k s)))"
    and check_invar: "invar s \<Longrightarrow> invar (snd (check now k s))"
    and check_ttl: "invar s \<Longrightarrow> ttl (snd (check now k s)) = ttl s"
    and check_cap: "invar s \<Longrightarrow> cap (snd (check now k s)) = cap s"
    and maint_invar: "invar s \<Longrightarrow> invar (maint m s)"
    and maint_ttl: "invar s \<Longrightarrow> lasting (ttl s) (ttl (maint m s))"
    and maint_cap: "invar s \<Longrightarrow> cap (maint m s) = cap s"
    and maint_length: "invar s \<Longrightarrow> length (content (maint m s)) \<le> length (content s)"
    and maint_holds: "invar s \<Longrightarrow> lasting d (ttl s) \<Longrightarrow> harmless d m k t \<Longrightarrow>
      holds k t n (content s) \<Longrightarrow> holds k t n (content (maint m s))"
begin

lemmas cache_frame = check_invar check_ttl check_cap maint_invar maint_cap

lemma run_invar: "invar s \<Longrightarrow> invar (run_steps check maint steps s)"
  by (induction steps arbitrary: s rule: check_count.induct) (simp_all add: cache_frame)

lemma run_cap: "invar s \<Longrightarrow> cap (run_steps check maint steps s) = cap s"
  by (induction steps arbitrary: s rule: check_count.induct) (simp_all add: cache_frame)

lemma run_ttl: "invar s \<Longrightarrow> lasting (ttl s) (ttl (run_steps check maint steps s))"
proof (induction steps arbitrary: s rule: check_count.induct)
  case (2 now k steps)
  then show ?case using cache_frame(1,2) [OF "2.prems", of now k] "2.IH" [of "snd (check now k s)"] by simp
next
  case (3 m steps)
  then show ?case
    using maint_ttl [OF "3.prems"] maint_invar [OF "3.prems"] by (auto intro: lasting_trans)
qed simp

lemma run_bounded:
  assumes "invar s" "cap s > 0" "length (content s) \<le> nat (cap s)"
  shows "length (content (run_steps check maint steps s)) \<le> nat (cap s)"
  using assms
proof (induction steps arbitrary: s rule: check_count.induct)
  case (2 now k steps)
  let ?s = "snd (check now k s)"
  have "length (content ?s) \<le> nat (cap s)"
    using spec_check_bounded [OF check_spec [OF "2.prems"(1)] "2.prems"(2,3)] .
  then show ?case
    using "2.IH" [of ?s] "2.prems" by (simp add: cache_frame)
next
  case (3 m steps)
  then show ?case
    using "3.IH" [of "maint m s"] order_trans [OF maint_length] by (simp add: cache_frame)
qed simp

lemma run_holds:
  assumes "invar s" "lasting d (ttl s)" "holds k t n (content s)" "roomy (cap s) (n + check_count steps)"
    and "\<And>m. Maint m \<in> set steps \<Longrightarrow> harmless d m k t"
    and "\<And>now. Check now k \<in> set steps \<Longrightarrow> live d now t"
  shows "holds k t (n + check_count steps) (content (run_steps check maint steps s))"
  using assms
proof (induction steps arbitrary: s n rule: check_count.induct)
  case (2 now k' steps)
  let ?s = "snd (check now k' s)"
  note inv = "2.prems"(1) and spec = check_spec [OF "2.prems"(1), of now k']
  have "holds k t (Suc n) (content ?s)"
  proof (cases "k' = k")
    case True
    have "live (ttl s) now t" using "2.prems"(2,6) True by (auto intro: live_lasting)
    then have "content ?s = content s"
      using check_held_live [OF content_distinct [OF inv] "2.prems"(3), of "ttl s" now "cap s"] spec True by simp
    then show ?thesis using holds_mono [OF "2.prems"(3)] by simp
  next
    case False
    have "roomy (cap s) (Suc n)" using "2.prems"(4) by (auto simp: roomy_def)
    then show ?thesis using holds_check_other [OF spec "2.prems"(3) False] by simp
  qed
  then show ?case
    using "2.IH" [of ?s "Suc n"] "2.prems" by (simp add: cache_frame)
next
  case (3 m steps)
  have "holds k t n (content (maint m s))"
    using maint_holds [OF "3.prems"(1,2) _ "3.prems"(3)] "3.prems"(5) by simp
  moreover have "lasting d (ttl (maint m s))"
    using "3.prems"(1,2) maint_ttl lasting_trans by blast
  ultimately show ?case
    using "3.IH" [of "maint m s" n] "3.prems" by (simp add: cache_frame)
qed simp

lemma window_guarantee:
  assumes "invar s" "check t0 k s = (False, s0)" "roomy (cap s) (check_count steps)"
    and "\<And>m. Maint m \<in> set steps \<Longrightarrow> harmless (ttl s) m k t0"
    and "\<And>now. Check now k \<in> set steps \<Longrightarrow> live (ttl s) now t0"
    and "live (ttl s) now t0"
  shows "check now k (run_steps check maint steps s0) = (True, snd (check now k (run_steps check maint steps s0)))"
    and "content (snd (check now k (run_steps check maint steps s0))) = content (run_steps check maint steps s0)"
proof -
  let ?s = "run_steps check maint steps s0"
  have s0: "invar s0" "ttl s0 = ttl s" "cap s0 = cap s"
    using cache_frame(1,2,3) [OF assms(1), of t0 k] assms(2) by simp_all
  have "holds k t0 0 (content s0)"
    using check_spec [OF assms(1), of t0 k] assms(2) by (auto intro: holds_recorded)
  then have h: "holds k t0 (0 + check_count steps) (content ?s)"
    using run_holds [OF s0(1), of "ttl s" k t0 0 steps] assms(3,4,5) s0(2,3) by simp
  have "live (ttl ?s) now t0"
    using run_ttl [OF s0(1), of steps] s0(2) assms(6) live_lasting by metis
  then have "spec_check (ttl ?s) (cap ?s) now k (content ?s) = (True, content ?s)"
    using check_held_live [OF content_distinct [OF run_invar [OF s0(1)]] h] by simp
  then show "check now k ?s = (True, snd (check now k ?s))" "content (snd (check now k ?s)) = content ?s"
    using check_spec [OF run_invar [OF s0(1), of steps], of now k] by (simp_all add: prod_eq_iff)
qed

end

end
