(* ===== verification/Replay_Cache.thy ===== *)
theory Replay_Cache
  imports Ttl_Cache
begin

text \<open>
  \<open>webhookcore/replay.go\<close>: the TTL- and capacity-bounded set of accepted (timestamp, signature)
  pairs. The clock \<open>c.now()\<close> is an argument of each operation: the instant it returned. The
  janitor goroutine acts on the cache through \<open>sweep\<close> only, so its ticks are \<open>Sweep\<close> steps of an
  interleaving. The lemmas show that \<open>CheckAndInsert\<close> implements \<open>spec_check\<close>, \<open>sweep\<close> implements
  \<open>spec_sweep\<close>, and that a recorded pair is reported as a duplicate for the whole window.
\<close>

record replayEntry =
  re_key :: string
  re_seen :: instant

record ReplayCache = "replayEntry indexed" +
  rc_ttl :: duration
  rc_capacity :: int
  rc_interval :: duration
  rc_stopOnce :: bool
  rc_stopCh_closed :: bool

definition replaySweepInterval :: "duration \<Rightarrow> duration" where
  "replaySweepInterval ttl =
     (let maxInterval = 60 * second in
      if ttl \<le> 0 then maxInterval
      else let half = int64_quot ttl 2 in if half < maxInterval then half else maxInterval)"

text \<open>The option \<open>withReplaySweepInterval\<close>; the clock option only replaces the environment's clock.\<close>

definition withReplaySweepInterval :: "duration \<Rightarrow> ReplayCache \<Rightarrow> ReplayCache" where
  "withReplaySweepInterval d c = (if d > 0 then c\<lparr>rc_interval := d\<rparr> else c)"

definition NewReplayCache :: "duration \<Rightarrow> int \<Rightarrow> (ReplayCache \<Rightarrow> ReplayCache) list \<Rightarrow> ReplayCache" where
  "NewReplayCache ttl capacity opts =
     fold (\<lambda>opt c. opt c) opts
       \<lparr>entries = list_New, index = Map.empty, rc_ttl = ttl, rc_capacity = capacity,
        rc_interval = replaySweepInterval ttl, rc_stopOnce = False, rc_stopCh_closed = False\<rparr>"

definition ensureMinTTL :: "duration \<Rightarrow> ReplayCache \<Rightarrow> ReplayCache" where
  "ensureMinTTL floor c = (if rc_ttl c > 0 \<and> rc_ttl c < floor then c\<lparr>rc_ttl := floor\<rparr> else c)"

definition replay_key :: "string \<Rightarrow> string \<Rightarrow> string" where
  "replay_key timestamp signature = timestamp @ ''.'' @ signature"

text \<open>The part of \<open>CheckAndInsert\<close> after the lookup: push, then enforce the capacity.\<close>

definition replay_insert :: "instant \<Rightarrow> string \<Rightarrow> ReplayCache \<Rightarrow> bool \<times> ReplayCache" where
  "replay_insert now key c =
     (let c1 = record_back key \<lparr>re_key = key, re_seen = now\<rparr> c in
      (False, if rc_capacity c1 > 0 then evict_over re_key (rc_capacity c1) c1 else c1))"

definition replay_check :: "instant \<Rightarrow> string \<Rightarrow> ReplayCache \<Rightarrow> bool \<times> ReplayCache" where
  "replay_check now key c =
     (case index c key of
        None \<Rightarrow> replay_insert now key c
      | Some el \<Rightarrow>
          if rc_ttl c \<le> 0 \<or> time_Sub now (re_seen (val el)) \<le> rc_ttl c then (True, c)
          else replay_insert now key (reap key el c))"

definition CheckAndInsert :: "instant \<Rightarrow> string \<Rightarrow> string \<Rightarrow> ReplayCache \<Rightarrow> bool \<times> ReplayCache" where
  "CheckAndInsert now timestamp signature c = replay_check now (replay_key timestamp signature) c"

function sweep_loop :: "instant \<Rightarrow> ReplayCache \<Rightarrow> ReplayCache" where
  "sweep_loop cutoff c =
     (case list_Front (entries c) of
        None \<Rightarrow> c
      | Some front \<Rightarrow>
          if time_After (re_seen (val front)) cutoff then c
          else sweep_loop cutoff (reap (re_key (val front)) front c))"
  by pat_completeness auto
termination
proof (relation "measure (\<lambda>(cutoff, c). length (cells (entries c)))", goal_cases)
  case 1
  show ?case by simp
next
  case (2 cutoff c front)
  then show ?case
    by (auto simp: list_Front_def reap_def list_Remove_def le_imp_less_Suc split: list.splits)
qed

declare sweep_loop.simps [simp del]

definition sweep :: "instant \<Rightarrow> ReplayCache \<Rightarrow> ReplayCache" where
  "sweep now c = (if rc_ttl c \<le> 0 then c else sweep_loop (time_Add now (- rc_ttl c)) c)"

text \<open>
  \<open>StartJanitor\<close>: \<open>time.NewTicker\<close> panics on a non-positive interval, which is \<open>None\<close> here. The
  goroutine's loop is \<open>janitor\<close>, one event per round of its \<open>select\<close>: a tick at an instant, or the
  closed stop channel, after which the goroutine is gone and later ticks do nothing. The
  returned function is \<open>stop_janitor\<close>; closing a closed channel would panic (\<open>None\<close>).
\<close>

datatype janitor_event = Tick instant | StopSeen

definition start_ticker :: "ReplayCache \<Rightarrow> duration option" where
  "start_ticker c = (if rc_interval c \<le> 0 then None else Some (rc_interval c))"

fun janitor :: "janitor_event list \<Rightarrow> ReplayCache \<Rightarrow> ReplayCache" where
  "janitor [] c = c"
| "janitor (StopSeen # evs) c = c"
| "janitor (Tick now # evs) c = janitor evs (sweep now c)"

definition stop_janitor :: "ReplayCache \<Rightarrow> ReplayCache option" where
  "stop_janitor c =
     (if rc_stopOnce c then Some c
      else if rc_stopCh_closed c then None
      else Some (c\<lparr>rc_stopOnce := True, rc_stopCh_closed := True\<rparr>))"

definition replay_len :: "ReplayCache \<Rightarrow> int" where
  "replay_len c = list_Len (entries c)"

datatype replay_maint = Sweep instant | EnsureMinTTL duration

fun replay_maintain :: "replay_maint \<Rightarrow> ReplayCache \<Rightarrow> ReplayCache" where
  "replay_maintain (Sweep now) c = sweep now c"
| "replay_maintain (EnsureMinTTL floor) c = ensureMinTTL floor c"

text \<open>A sweep that cannot reach a record made at \<open>t\<close>: it runs less than \<open>d\<close> later.\<close>

fun replay_harmless :: "duration \<Rightarrow> replay_maint \<Rightarrow> string \<Rightarrow> instant \<Rightarrow> bool" where
  "replay_harmless d (Sweep now) k t = (0 < d \<longrightarrow> now - t < d)"
| "replay_harmless d (EnsureMinTTL floor) k t = True"

abbreviation replay_ok :: "ReplayCache \<Rightarrow> bool" where
  "replay_ok \<equiv> index_ok re_key"

abbreviation replay_log :: "ReplayCache \<Rightarrow> cache_log" where
  "replay_log \<equiv> log_of re_key re_seen"

subsection \<open>Refinement of the cache specification\<close>

lemma replay_frame [simp]:
  "rc_ttl (reap k el c) = rc_ttl c" "rc_capacity (reap k el c) = rc_capacity c"
  "rc_ttl (record_back k v c) = rc_ttl c" "rc_capacity (record_back k v c) = rc_capacity c"
  by (simp_all add: reap_def record_back_def list_PushBack_def Let_def)

lemma evict_over_replay [simp]:
  "rc_ttl (evict_over keyf cap c) = rc_ttl c" "rc_capacity (evict_over keyf cap c) = rc_capacity c"
proof -
  have "indexed.more (evict_over keyf cap c) = indexed.more c" by (rule evict_over_more)
  then show "rc_ttl (evict_over keyf cap c) = rc_ttl c" "rc_capacity (evict_over keyf cap c) = rc_capacity c"
    by (cases "evict_over keyf cap c"; cases c; simp)+
qed

lemma replay_insert_spec:
  assumes "replay_ok c" "index c k = None"
  shows "replay_ok (snd (replay_insert now k c))"
    and "replay_log (snd (replay_insert now k c)) = trim_to (rc_capacity c) (replay_log c @ [(k, now)])"
proof -
  let ?v = "\<lparr>re_key = k, re_seen = now\<rparr>"
  have ok: "replay_ok (record_back k ?v c)" using index_ok_record_back [of re_key c ?v] assms by simp
  then show "replay_ok (snd (replay_insert now k c))"
    by (simp add: replay_insert_def Let_def evict_over_ok)
  show "replay_log (snd (replay_insert now k c)) = trim_to (rc_capacity c) (replay_log c @ [(k, now)])"
    using log_of_evict_over [OF ok, of "rc_capacity c" re_seen]
    by (simp add: replay_insert_def Let_def trim_to_def log_of_record_back)
qed

lemma replay_insert_frame [simp]:
  "fst (replay_insert now k c) = False"
  "rc_ttl (snd (replay_insert now k c)) = rc_ttl c"
  "rc_capacity (snd (replay_insert now k c)) = rc_capacity c"
  by (simp_all add: replay_insert_def Let_def)

lemma replay_reap:
  assumes "replay_ok c" "index c k = Some el"
  shows "replay_ok (reap k el c)" "index (reap k el c) k = None"
    and "replay_log (reap k el c) = forget k (replay_log c)"
  using index_ok_reap [OF assms(1) index_okD_in [OF assms]] log_of_reap [OF assms(1) index_okD_in [OF assms]]
    index_okD_key [OF assms]
  by (simp_all add: forget_def) (simp add: reap_def)

lemma replay_check_spec:
  assumes "replay_ok c"
  shows "spec_check (rc_ttl c) (rc_capacity c) now k (replay_log c) =
    (fst (replay_check now k c), replay_log (snd (replay_check now k c)))"
    and "replay_ok (snd (replay_check now k c))"
  using assms replay_reap [OF assms, of k] replay_insert_spec
  by (auto simp: replay_check_def spec_check_def map_of_log live_def split: option.splits)

lemma replay_check_frame [simp]:
  "rc_ttl (snd (replay_check now k c)) = rc_ttl c"
  "rc_capacity (snd (replay_check now k c)) = rc_capacity c"
  by (simp_all add: replay_check_def split: option.splits)

lemma sweep_loop_spec:
  "replay_ok c \<Longrightarrow> replay_ok (sweep_loop cutoff c) \<and>
    replay_log (sweep_loop cutoff c) = dropWhile (\<lambda>p. \<not> time_After (snd p) cutoff) (replay_log c) \<and>
    rc_ttl (sweep_loop cutoff c) = rc_ttl c \<and> rc_capacity (sweep_loop cutoff c) = rc_capacity c"
proof (induction cutoff c rule: sweep_loop.induct)
  case (1 cutoff c)
  show ?case
  proof (cases "list_Front (entries c)")
    case None
    then show ?thesis using "1.prems" Front_None_iff [of c re_key re_seen] by (simp add: sweep_loop.simps [of cutoff c])
  next
    case (Some front)
    note front = reap_front(3) [OF "1.prems" Some, of re_seen]
    show ?thesis
    proof (cases "time_After (re_seen (val front)) cutoff")
      case True
      then have "dropWhile (\<lambda>p. \<not> time_After (snd p) cutoff) (replay_log c) = replay_log c"
        by (subst (1 2) front) simp
      with True Some "1.prems" show ?thesis by (simp add: sweep_loop.simps [of cutoff c])
    next
      case False
      then have "dropWhile (\<lambda>p. \<not> time_After (snd p) cutoff) (replay_log c) =
          dropWhile (\<lambda>p. \<not> time_After (snd p) cutoff) (tl (replay_log c))"
        by (subst front) simp
      with False Some "1.IH" [OF Some False reap_front(1) [OF "1.prems" Some]] reap_front(2) [OF "1.prems" Some, of re_seen]
      show ?thesis by (simp add: sweep_loop.simps [of cutoff c])
    qed
  qed
qed

lemma sweep_spec:
  assumes "replay_ok c"
  shows "replay_ok (sweep now c)" "replay_log (sweep now c) = spec_sweep (rc_ttl c) now (replay_log c)"
    and "rc_ttl (sweep now c) = rc_ttl c" "rc_capacity (sweep now c) = rc_capacity c"
  using sweep_loop_spec [OF assms] assms by (simp_all add: sweep_def spec_sweep_def)

lemma ensureMinTTL_frame [simp]:
  "replay_log (ensureMinTTL floor c) = replay_log c"
  "replay_ok (ensureMinTTL floor c) = replay_ok c"
  "rc_capacity (ensureMinTTL floor c) = rc_capacity c"
  by (simp_all add: ensureMinTTL_def log_of_def index_ok_def)

lemma ensureMinTTL_lasting: "lasting (rc_ttl c) (rc_ttl (ensureMinTTL floor c))"
  by (auto simp: ensureMinTTL_def lasting_def)

interpretation replay: ttl_cache replay_ok replay_log rc_ttl rc_capacity replay_check replay_maintain replay_harmless
proof (unfold_locales, goal_cases)
  case (1 s)
  then show ?case by (rule distinct_log)
next
  case (2 s now k)
  then show ?case by (rule replay_check_spec)
next
  case (3 s now k)
  then show ?case by (rule replay_check_spec)
next
  case (6 s m)
  then show ?case by (cases m) (simp_all add: sweep_spec)
next
  case (7 s m)
  then show ?case by (cases m) (simp_all add: sweep_spec ensureMinTTL_lasting)
next
  case (8 s m)
  then show ?case by (cases m) (simp_all add: sweep_spec)
next
  case (9 s m)
  then show ?case by (cases m) (simp_all add: sweep_spec spec_sweep_def length_dropWhile_le)
next
  case (10 s d m k t n)
  then show ?case by (cases m) (auto simp: sweep_spec lasting_def intro!: holds_sweep)
qed simp_all

subsection \<open>Clocks that do not go back\<close>

fun clock_ok :: "instant \<Rightarrow> replay_maint cache_step list \<Rightarrow> bool" where
  "clock_ok t [] = True"
| "clock_ok t (Check now k # steps) = (t \<le> now \<and> clock_ok now steps)"
| "clock_ok t (Maint (Sweep now) # steps) = (t \<le> now \<and> clock_ok now steps)"
| "clock_ok t (Maint (EnsureMinTTL floor) # steps) = clock_ok t steps"

fun clock_end :: "instant \<Rightarrow> replay_maint cache_step list \<Rightarrow> instant" where
  "clock_end t [] = t"
| "clock_end t (Check now k # steps) = clock_end now steps"
| "clock_end t (Maint (Sweep now) # steps) = clock_end now steps"
| "clock_end t (Maint (EnsureMinTTL floor) # steps) = clock_end t steps"

definition chronological :: "instant \<Rightarrow> cache_log \<Rightarrow> bool" where
  "chronological t xs \<longleftrightarrow> sorted (map snd xs) \<and> (\<forall>p \<in> set xs. snd p \<le> t)"

lemma chronological_mono: "chronological t xs \<Longrightarrow> t \<le> now \<Longrightarrow> chronological now xs"
  by (auto simp: chronological_def)

lemma chronological_sweep: "chronological t xs \<Longrightarrow> chronological t (spec_sweep d now xs)"
  by (auto simp: chronological_def spec_sweep_def dropWhile_eq_drop drop_map [symmetric]
      intro: sorted_wrt_drop dest: in_set_dropD)

lemma chronological_check:
  "replay_ok c \<Longrightarrow> chronological now (replay_log c) \<Longrightarrow> chronological now (replay_log (snd (replay_check now k c)))"
  unfolding chronological_def using sorted_spec_check [OF replay_check_spec(1)] by blast

lemma run_chronological:
  "replay_ok c \<Longrightarrow> chronological t (replay_log c) \<Longrightarrow> clock_ok t steps \<Longrightarrow>
   chronological (clock_end t steps) (replay_log (run_steps replay_check replay_maintain steps c))"
proof (induction t steps arbitrary: c rule: clock_ok.induct)
  case (2 t now k steps)
  then show ?case
    using chronological_check [OF "2.prems"(1) chronological_mono [OF "2.prems"(2)]] replay_check_spec(2) by simp
next
  case (3 t now steps)
  then show ?case
    using chronological_sweep [OF chronological_mono [OF "3.prems"(2)]] sweep_spec(1,2) [OF "3.prems"(1)] by simp
qed simp_all

lemma clock_end_ge: "clock_ok t steps \<Longrightarrow> t \<le> clock_end t steps"
  by (induction t steps rule: clock_ok.induct) auto

lemma NewReplayCache_ok: "replay_ok (NewReplayCache ttl cap [])" "replay_log (NewReplayCache ttl cap []) = []"
  by (simp_all add: NewReplayCache_def)

lemma NewReplayCache_fields [simp]:
  "rc_ttl (NewReplayCache ttl cap []) = ttl" "rc_capacity (NewReplayCache ttl cap []) = cap"
  "rc_interval (NewReplayCache ttl cap []) = replaySweepInterval ttl"
  "index (NewReplayCache ttl cap []) k = None"
  by (simp_all add: NewReplayCache_def)

lemma replay_check_absent: "index c k = None \<Longrightarrow> fst (replay_check now k c) = False"
  by (simp add: replay_check_def)

subsection \<open>Properties\<close>

text \<open>C18: \<open>CheckAndInsert\<close> implements the cache specification: on a cache whose index describes its
list, the answer and the new log are those of \<open>spec_check\<close> for the key \<open>timestamp.signature\<close>, and
the index describes the new list.\<close>

theorem CheckAndInsert_refines:
  assumes "replay_ok c"
  shows "spec_check (rc_ttl c) (rc_capacity c) now (replay_key ts sig) (replay_log c) =
      (fst (CheckAndInsert now ts sig c), replay_log (snd (CheckAndInsert now ts sig c))) \<and>
    replay_ok (snd (CheckAndInsert now ts sig c))"
  using replay_check_spec [OF assms] by (simp add: CheckAndInsert_def)

theorem CheckAndInsert_refines_witness:
  "spec_check 60 2 7 (replay_key ''1'' ''a'') [] =
      (fst (CheckAndInsert 7 ''1'' ''a'' (NewReplayCache 60 2 [])),
       replay_log (snd (CheckAndInsert 7 ''1'' ''a'' (NewReplayCache 60 2 []))))"
  using CheckAndInsert_refines [OF NewReplayCache_ok(1), of 60 2 7 "''1''" "''a''"]
  by (simp add: NewReplayCache_ok(2))

text \<open>C10: Replay protection: a pair accepted at \<open>t0\<close> is rejected at every later instant inside the TTL,
whatever calls for other pairs, janitor sweeps that run less than the TTL after \<open>t0\<close>, and TTL
raises are interleaved, provided fewer calls than the capacity came between.\<close>

theorem replay_window:
  assumes "replay_ok c" and "fst (CheckAndInsert t0 ts sig c) = False"
    and "roomy (rc_capacity c) (check_count steps)"
    and "\<forall>t. Maint (Sweep t) \<in> set steps \<longrightarrow> rc_ttl c \<le> 0 \<or> t - t0 < rc_ttl c"
    and "\<forall>t. Check t (replay_key ts sig) \<in> set steps \<longrightarrow> live (rc_ttl c) t t0"
    and "rc_ttl c \<le> 0 \<or> now - t0 \<le> rc_ttl c"
  shows "fst (CheckAndInsert now ts sig
    (run_steps replay_check replay_maintain steps (snd (CheckAndInsert t0 ts sig c)))) = True"
proof -
  let ?k = "replay_key ts sig"
  have fresh: "replay_check t0 ?k c = (False, snd (replay_check t0 ?k c))"
    using assms(2) by (simp add: CheckAndInsert_def prod_eq_iff)
  have "replay_harmless (rc_ttl c) m ?k t0" if "Maint m \<in> set steps" for m
    using assms(4) that by (cases m) auto
  moreover have "live (rc_ttl c) now t0"
    using assms(6) live_within [of "rc_ttl c" now t0] by (auto simp: live_def)
  ultimately show ?thesis
    using replay.window_guarantee(1) [OF assms(1) fresh assms(3)] assms(5)
    by (simp add: CheckAndInsert_def prod_eq_iff)
qed

theorem replay_window_witness:
  "fst (CheckAndInsert 60 ''1'' ''a''
    (run_steps replay_check replay_maintain
      [Check 9 (replay_key ''2'' ''b''), Maint (Sweep 59), Maint (EnsureMinTTL 90)]
      (snd (CheckAndInsert 0 ''1'' ''a'' (NewReplayCache 60 16 []))))) = True"
proof (rule replay_window [OF NewReplayCache_ok(1)])
  show "fst (CheckAndInsert 0 ''1'' ''a'' (NewReplayCache 60 16 [])) = False"
    by (simp add: CheckAndInsert_def replay_check_absent)
qed (auto simp: roomy_def replay_key_def)

text \<open>C23: With a clock that does not go back, the early exit of the sweep loop loses nothing: in every
state an interleaving reaches from a new cache, a sweep at or after its end keeps exactly the
records younger than the TTL.\<close>

theorem sweep_exact:
  assumes "clock_ok t0 steps" and "clock_end t0 steps \<le> now"
    and "c = run_steps replay_check replay_maintain steps (NewReplayCache ttl cap [])" and "0 < rc_ttl c"
  shows "replay_log (sweep now c) = filter (\<lambda>p. now - snd p < rc_ttl c) (replay_log c)"
proof -
  have ok: "replay_ok c" using replay.run_invar [OF NewReplayCache_ok(1)] assms(3) by simp
  have "chronological (clock_end t0 steps) (replay_log c)"
    using run_chronological [OF NewReplayCache_ok(1) _ assms(1), of ttl cap] assms(3)
    by (simp add: NewReplayCache_ok chronological_def)
  then show ?thesis
    using spec_sweep_sorted [OF _ assms(4)] sweep_spec(2) [OF ok] by (simp add: chronological_def)
qed

theorem sweep_exact_witness:
  "replay_log (sweep 70 (run_steps replay_check replay_maintain [Check 0 ''a'', Check 30 ''b''] (NewReplayCache 60 16 []))) =
   filter (\<lambda>p. 70 - snd p < 60) (replay_log (run_steps replay_check replay_maintain [Check 0 ''a'', Check 30 ''b''] (NewReplayCache 60 16 [])))"
  using sweep_exact [of 0 "[Check 0 ''a'', Check 30 ''b'']" 70 _ 60 16] by simp

text \<open>C24: With a positive capacity the cache never holds more records than the capacity, in any state an
interleaving of calls, sweeps and TTL raises reaches from a new cache.\<close>

theorem replay_bounded:
  assumes "cap > 0"
  shows "replay_len (run_steps replay_check replay_maintain steps (NewReplayCache ttl cap [])) \<le> cap"
  using replay.run_bounded [OF NewReplayCache_ok(1), of ttl cap steps] assms
  by (simp add: NewReplayCache_ok(2) replay_len_def Len_log [of _ re_key re_seen] nat_le_iff)

theorem replay_bounded_witness:
  "replay_len (run_steps replay_check replay_maintain [Check 0 ''a'', Check 1 ''b'', Check 2 ''c''] (NewReplayCache 60 2 [])) \<le> 2"
  by (rule replay_bounded) simp

text \<open>C26: The boundary of the window. A pair recorded at \<open>t0\<close> is still a duplicate exactly one TTL
later, yet a sweep at that very instant removes it, so that the same call then accepts the pair
again: \<open>sweep\<close> removes records that are not older than the TTL.\<close>

theorem sweep_boundary:
  assumes "0 < ttl" and "c = snd (CheckAndInsert t0 ts sig (NewReplayCache ttl cap []))"
  shows "fst (CheckAndInsert (t0 + ttl) ts sig c) = True \<and>
    fst (CheckAndInsert (t0 + ttl) ts sig (sweep (t0 + ttl) c)) = False"
proof -
  let ?k = "replay_key ts sig" and ?c0 = "NewReplayCache ttl cap []"
  have fresh: "replay_check t0 ?k ?c0 = (False, c)"
    using assms(2) by (simp add: CheckAndInsert_def replay_check_absent prod_eq_iff)
  have dup: "fst (CheckAndInsert (t0 + ttl) ts sig c) = True"
    using replay.window_guarantee(1) [OF NewReplayCache_ok(1) fresh, of "[]" "t0 + ttl"] live_within [of ttl "t0 + ttl" t0] assms(1)
    by (cases "cap \<le> 0") (auto simp: roomy_def CheckAndInsert_def prod_eq_iff)
  have ok: "replay_ok c" using replay_check_spec(2) [OF NewReplayCache_ok(1)] assms(2) by (simp add: CheckAndInsert_def)
  have "replay_log c = trim_to cap [(?k, t0)]"
    using replay_check_spec(1) [OF NewReplayCache_ok(1), of ttl cap t0 ?k] assms(2)
    by (simp add: spec_check_def NewReplayCache_ok CheckAndInsert_def)
  then have "replay_log (sweep (t0 + ttl) c) = []"
    using sweep_spec(2) [OF ok] assms by (auto simp: spec_sweep_def trim_to_def time_After_def time_Add_def CheckAndInsert_def)
  then have "index (sweep (t0 + ttl) c) ?k = None"
    using map_of_log [OF sweep_spec(1) [OF ok], of re_seen "t0 + ttl" ?k] by simp
  then show ?thesis using dup by (simp add: CheckAndInsert_def replay_check_absent)
qed

theorem sweep_boundary_witness:
  "fst (CheckAndInsert 60 ''1'' ''a'' (sweep 60 (snd (CheckAndInsert 0 ''1'' ''a'' (NewReplayCache 60 16 []))))) = False"
  using sweep_boundary [of 60 _ 0 "''1''" "''a''" 16] by simp

text \<open>The janitor's interval is at most one minute and at most half the TTL when the TTL is
positive, and it is positive for every TTL but one nanosecond: \<open>time.NewTicker\<close> would panic on a
cache built with that TTL, and on no other.\<close>

theorem sweep_interval:
  "replaySweepInterval ttl \<le> 60 * second \<and> (0 < ttl \<longrightarrow> 2 * replaySweepInterval ttl \<le> ttl) \<and>
   (start_ticker (NewReplayCache ttl cap []) = None \<longleftrightarrow> ttl = 1)"
  by (auto simp: replaySweepInterval_def int64_quot_def Let_def start_ticker_def sgn_if)

theorem sweep_interval_witness: "2 * replaySweepInterval (5 * second) \<le> 5 * second"
  using sweep_interval [of "5 * second" 16] by simp

end
