(* ===== verification/Http.thy ===== *)
theory Http
  imports Replay_Cache
begin

text \<open>
  The parts of \<open>net/http\<close> the sources use, and \<open>webhookcore/helpers.go\<close>. A handler is a function
  from a request and a state to the calls it makes on its \<open>http.ResponseWriter\<close> and the new
  state; it returns or panics. Keeping the calls as a list lets a wrapper such as the status
  recorder see exactly what the handler did. \<open>server_writer\<close> is what the server's own
  writer makes of the calls: informational status codes are sent at once and do not fix the final status.
  Left out: the panic of \<open>WriteHeader\<close> on codes outside 100 to 999 (the kit writes fixed codes), and that an oversized
  body makes the server close the connection after the answer. \<open>rw_flusher\<close> is whether the writer implements \<open>http.Flusher\<close>, as the server's own does.
  The wire contract \<open>contextmatrix-protocol\<close> is a parameter: the record \<open>protocol\<close> holds its header
  names, error codes, clock skews, its signature check and the encoder of its response structs. The signature check gets the replay cache as
  the interface it declares: the method \<open>CheckAndInsert\<close>, which reads a clock of its own, and the cache it works on.
\<close>

subsection \<open>Requests, handlers, writers\<close>

record body_stream =
  bs_data :: string
  bs_fails :: bool

record request =
  rq_method :: string
  rq_uri :: string
  rq_path :: string
  rq_header :: "string \<Rightarrow> string"
  rq_rawquery :: string
  rq_length :: int
  rq_body :: body_stream
  rq_deadline :: "instant option"

datatype wcall =
    SetHeader string string
  | WriteHeader int
  | WriteBytes string
  | Flush

datatype 'a outcome = Returns 'a | Panics 'a

type_synonym 'w handler = "request \<Rightarrow> 'w \<Rightarrow> (wcall list \<times> 'w) outcome"

fun outcome_state :: "(wcall list \<times> 'w) outcome \<Rightarrow> 'w" where
  "outcome_state (Returns (calls, st)) = st"
| "outcome_state (Panics (calls, st)) = st"

record rwriter =
  rw_header :: "string \<rightharpoonup> string"
  rw_status :: "int option"
  rw_info :: "int list"
  rw_body :: string
  rw_flusher :: bool

definition new_writer :: rwriter where
  "new_writer = \<lparr>rw_header = Map.empty, rw_status = None, rw_info = [], rw_body = [], rw_flusher = True\<rparr>"

definition informational :: "int \<Rightarrow> bool" where
  "informational code \<longleftrightarrow> 100 \<le> code \<and> code \<le> 199 \<and> code \<noteq> 101"

definition send_header :: "int \<Rightarrow> rwriter \<Rightarrow> rwriter" where
  "send_header code w =
     (if rw_status w \<noteq> None then w
      else if informational code then w\<lparr>rw_info := rw_info w @ [code]\<rparr>
      else w\<lparr>rw_status := Some code\<rparr>)"

fun server_call :: "wcall \<Rightarrow> rwriter \<Rightarrow> rwriter" where
  "server_call (SetHeader k v) w = w\<lparr>rw_header := (rw_header w)(k \<mapsto> v)\<rparr>"
| "server_call (WriteHeader code) w = send_header code w"
| "server_call (WriteBytes b) w =
     (let w' = send_header 200 w in w'\<lparr>rw_body := rw_body w' @ b\<rparr>)"
| "server_call Flush w = send_header 200 w"

definition server_writer :: "wcall list \<Rightarrow> rwriter" where
  "server_writer calls = fold server_call calls new_writer"

text \<open>The status the client sees: a handler that wrote nothing is answered 200.\<close>

definition final_status :: "rwriter \<Rightarrow> int" where
  "final_status w = (case rw_status w of None \<Rightarrow> 200 | Some code \<Rightarrow> code)"

definition client_status :: "wcall list \<Rightarrow> int" where
  "client_status calls = final_status (server_writer calls)"

text \<open>\<open>io.ReadAll(http.MaxBytesReader(w, r.Body, limit))\<close>; \<open>None\<close> is a read error.\<close>

definition read_limited :: "nat \<Rightarrow> body_stream \<Rightarrow> string option" where
  "read_limited limit b =
     (if length (bs_data b) > limit \<or> bs_fails b then None else Some (bs_data b))"

subsection \<open>The wire contract as a parameter\<close>

datatype ('b, 'i) response_value =
    ErrorResponse bool string string
  | HealthResponse bool int int 'b string
  | ListImagesResponse bool "'i list"
  | ReadyResponse bool string

record ('b, 'i) protocol =
  SignatureHeader :: string
  TimestampHeader :: string
  CodeUnauthorized :: string
  CodeTooLarge :: string
  CodeDraining :: string
  CodeInternal :: string
  CodeInvalidJSON :: string
  CodeUpstreamFailure :: string
  DefaultMaxClockSkew :: duration
  DefaultMaxFutureSkew :: duration
  VerifySignatureWithTimestamp ::
    "instant \<Rightarrow> string \<Rightarrow> string \<Rightarrow> string \<Rightarrow> string \<Rightarrow> string \<Rightarrow> string \<Rightarrow> duration \<Rightarrow>
     (string \<Rightarrow> string \<Rightarrow> ReplayCache \<Rightarrow> bool \<times> ReplayCache) \<Rightarrow> ReplayCache \<Rightarrow> bool \<times> ReplayCache"
  Marshal :: "('b, 'i) response_value \<Rightarrow> string option"

subsection \<open>helpers.go\<close>

definition maxRequestBodyBytes :: nat where
  "maxRequestBodyBytes = 1048576"

definition marshal_failed_body :: string where
  "marshal_failed_body = ''{\"ok\":false,\"code\":\"internal\",\"message\":\"response marshal failed\"}''"

definition WriteJSON :: "('b, 'i) protocol \<Rightarrow> int \<Rightarrow> ('b, 'i) response_value \<Rightarrow> wcall list" where
  "WriteJSON pr status v =
     SetHeader ''Content-Type'' ''application/json'' #
     (case Marshal pr v of
        None \<Rightarrow> [WriteHeader 500, WriteBytes marshal_failed_body]
      | Some body \<Rightarrow> [WriteHeader status, WriteBytes body])"

definition WriteError :: "('b, 'i) protocol \<Rightarrow> int \<Rightarrow> string \<Rightarrow> string \<Rightarrow> wcall list" where
  "WriteError pr status code msg = WriteJSON pr status (ErrorResponse False code msg)"

definition writeUnauthorized :: "('b, 'i) protocol \<Rightarrow> wcall list" where
  "writeUnauthorized pr = WriteError pr 401 (CodeUnauthorized pr) ''unauthorized''"

text \<open>
  \<open>Decode\<close>: the decoder of the target type is a parameter; the result is the decoded value, or
  \<open>None\<close> with the calls of the 400 answer.
\<close>

definition Decode :: "('b, 'i) protocol \<Rightarrow> (body_stream \<Rightarrow> 'v option) \<Rightarrow> request \<Rightarrow> 'v option \<times> wcall list" where
  "Decode pr dec r =
     (case dec (rq_body r) of
        None \<Rightarrow> (None, WriteError pr 400 (CodeInvalidJSON pr) ''invalid JSON'')
      | Some v \<Rightarrow> (Some v, []))"

text \<open>\<open>matchingTags\<close>: the inner loop breaks at the first filter that matches.\<close>

fun tag_matches :: "string \<Rightarrow> string list \<Rightarrow> bool" where
  "tag_matches tag [] = False"
| "tag_matches tag (f # fs) = (if Contains tag f then True else tag_matches tag fs)"

fun matchingTags :: "string list \<Rightarrow> string list \<Rightarrow> string list" where
  "matchingTags [] filters = []"
| "matchingTags (tag # tags) filters =
     (if tag_matches tag filters then tag # matchingTags tags filters else matchingTags tags filters)"

subsection \<open>Lemmas\<close>

lemma send_header_status:
  "rw_status (send_header code w) =
    (if rw_status w \<noteq> None then rw_status w else if informational code then None else Some code)"
  by (simp add: send_header_def)

lemma WriteJSON_status:
  "\<not> informational status \<Longrightarrow> client_status (WriteJSON pr status v) = (case Marshal pr v of None \<Rightarrow> 500 | Some _ \<Rightarrow> status)"
  by (auto simp: WriteJSON_def client_status_def server_writer_def final_status_def new_writer_def send_header_def
      informational_def split: option.splits)

lemma WriteJSON_status_ok:
  "Marshal pr v \<noteq> None \<Longrightarrow> \<not> informational status \<Longrightarrow> client_status (WriteJSON pr status v) = status"
  by (auto simp: WriteJSON_status)

lemma WriteJSON_body:
  "\<not> informational status \<Longrightarrow>
   rw_body (server_writer (WriteJSON pr status v)) = (case Marshal pr v of None \<Rightarrow> marshal_failed_body | Some b \<Rightarrow> b)"
  by (auto simp: WriteJSON_def server_writer_def new_writer_def send_header_def
      informational_def Let_def split: option.splits)

lemma matchingTags_eq: "matchingTags tags filters = filter (\<lambda>t. \<exists>f \<in> set filters. Contains t f) tags"
proof -
  have "tag_matches t filters \<longleftrightarrow> (\<exists>f \<in> set filters. Contains t f)" for t
    by (induction filters) auto
  then show ?thesis by (induction tags) auto
qed

text \<open>A concrete request, for the witnesses.\<close>

definition sample_request :: request where
  "sample_request =
     \<lparr>rq_method = ''POST'', rq_uri = ''/trigger'', rq_path = ''/trigger'', rq_header = (\<lambda>k. if k = ''X-Sig'' then ''sha256=ab'' else if k = ''X-Ts'' then ''100'' else []),
      rq_rawquery = [], rq_length = 2, rq_body = \<lparr>bs_data = ''{}'', bs_fails = False\<rparr>, rq_deadline = None\<rparr>"

end
