(* ===== verification/Request_Metrics.thy ===== *)
theory Request_Metrics
  imports Http Go_Float
begin

text \<open>
  \<open>metrics/metrics.go\<close> and \<open>webhookcore/recorder.go\<close>: the collector bundle, the endpoint label, the
  status recorder that wraps a \<open>ResponseWriter\<close>, and the \<open>RecordMetrics\<close> middleware. The Prometheus
  client is not modelled beyond the calls made on it: a registry is the list of what was registered, whether it accepts a collector is the parameter
  \<open>accepts\<close> (\<open>MustRegister\<close> panics otherwise), and an increment or observation is its label values, with the observed value, appended to a list of the state.
  The main lemma says exactly for which handlers the recorded status is the one the client sees.
\<close>

subsection \<open>metrics.go\<close>

datatype collector_kind = CounterVec | HistogramVec "float64 list" | Gauge | Counter

record collector =
  co_kind :: collector_kind
  co_name :: string
  co_help :: string
  co_labels :: "string list"

datatype registered = GoCollector | ProcessCollector | Own collector

type_synonym Registry = "registered list"

definition MustRegister :: "(registered \<Rightarrow> Registry \<Rightarrow> bool) \<Rightarrow> registered \<Rightarrow> Registry \<Rightarrow> Registry option" where
  "MustRegister accepts c reg = (if accepts c reg then Some (reg @ [c]) else None)"

fun register_all :: "(registered \<Rightarrow> Registry \<Rightarrow> bool) \<Rightarrow> registered list \<Rightarrow> Registry \<Rightarrow> Registry option" where
  "register_all accepts [] reg = Some reg"
| "register_all accepts (c # cs) reg =
     (case MustRegister accepts c reg of None \<Rightarrow> None | Some reg' \<Rightarrow> register_all accepts cs reg')"

record Metrics =
  mt_Registry :: Registry
  mt_WebhookRequestsTotal :: collector
  mt_WebhookRequestDuration :: collector
  mt_ContainerDuration :: collector
  mt_RunningContainers :: collector
  mt_BroadcasterDropsTotal :: collector
  mt_endpoints :: "string set"

definition f64_of_nat :: "nat \<Rightarrow> float64" where
  "f64_of_nat n = (case round_f64 False (int n) 1 of Some f \<Rightarrow> f | None \<Rightarrow> f_zero)"

definition requests_total :: "string \<Rightarrow> collector" where
  "requests_total namespace =
     \<lparr>co_kind = CounterVec, co_name = namespace @ ''_webhook_requests_total'',
      co_help = ''Total webhook requests processed, labelled by endpoint, HTTP status, and a coarse outcome code.'',
      co_labels = [''endpoint'', ''status'', ''code'']\<rparr>"

definition request_duration :: "float64 list \<Rightarrow> string \<Rightarrow> collector" where
  "request_duration defBuckets namespace =
     \<lparr>co_kind = HistogramVec defBuckets, co_name = namespace @ ''_webhook_request_duration_seconds'',
      co_help = ''Wall-clock duration of webhook requests, in seconds.'', co_labels = [''endpoint'']\<rparr>"

definition container_duration :: "string \<Rightarrow> collector" where
  "container_duration namespace =
     \<lparr>co_kind = HistogramVec (map f64_of_nat [1, 5, 15, 30, 60, 300, 600, 1800, 3600, 7200]),
      co_name = namespace @ ''_container_duration_seconds'',
      co_help = ''Wall-clock container lifetime from start to exit, in seconds.'', co_labels = [''outcome'']\<rparr>"

definition running_containers :: "string \<Rightarrow> collector" where
  "running_containers namespace =
     \<lparr>co_kind = Gauge, co_name = namespace @ ''_running_containers'',
      co_help = ''Number of containers currently tracked as running.'', co_labels = []\<rparr>"

definition drops_total :: "string \<Rightarrow> collector" where
  "drops_total namespace =
     \<lparr>co_kind = Counter, co_name = namespace @ ''_broadcaster_drops_total'',
      co_help = ''Total log entries dropped for slow SSE subscribers or an overflowing retained backlog. Unlabeled to keep series cardinality at O(1).'',
      co_labels = []\<rparr>"

text \<open>\<open>None\<close> is the panic of a registration. \<open>prometheus.DefBuckets\<close> is a parameter.\<close>

definition metrics_New :: "(registered \<Rightarrow> Registry \<Rightarrow> bool) \<Rightarrow> float64 list \<Rightarrow> string \<Rightarrow> string list \<Rightarrow> Metrics option" where
  "metrics_New accepts defBuckets namespace endpoints =
     (case register_all accepts
        [GoCollector, ProcessCollector, Own (requests_total namespace), Own (request_duration defBuckets namespace),
         Own (container_duration namespace), Own (running_containers namespace), Own (drops_total namespace)] [] of
        None \<Rightarrow> None
      | Some reg \<Rightarrow>
          Some \<lparr>mt_Registry = reg, mt_WebhookRequestsTotal = requests_total namespace,
                mt_WebhookRequestDuration = request_duration defBuckets namespace,
                mt_ContainerDuration = container_duration namespace, mt_RunningContainers = running_containers namespace,
                mt_BroadcasterDropsTotal = drops_total namespace, mt_endpoints = fold insert endpoints {}\<rparr>)"

definition NormalizeEndpoint :: "Metrics \<Rightarrow> string \<Rightarrow> string" where
  "NormalizeEndpoint m path = (if path \<in> mt_endpoints m then path else ''other'')"

subsection \<open>recorder.go\<close>

record statusRecorder =
  sr_inner :: rwriter
  sr_status :: int
  sr_wrote :: bool

definition new_recorder :: "rwriter \<Rightarrow> statusRecorder" where
  "new_recorder w = \<lparr>sr_inner = w, sr_status = 200, sr_wrote = False\<rparr>"

definition sr_WriteHeader :: "int \<Rightarrow> statusRecorder \<Rightarrow> statusRecorder" where
  "sr_WriteHeader code sr =
     (let sr' = (if \<not> sr_wrote sr then sr\<lparr>sr_status := code, sr_wrote := True\<rparr> else sr)
      in sr'\<lparr>sr_inner := server_call (WriteHeader code) (sr_inner sr')\<rparr>)"

definition sr_Write :: "string \<Rightarrow> statusRecorder \<Rightarrow> statusRecorder" where
  "sr_Write b sr =
     (let sr' = (if \<not> sr_wrote sr then sr\<lparr>sr_status := 200, sr_wrote := True\<rparr> else sr)
      in sr'\<lparr>sr_inner := server_call (WriteBytes b) (sr_inner sr')\<rparr>)"

definition sr_Flush :: "statusRecorder \<Rightarrow> statusRecorder" where
  "sr_Flush sr = (if rw_flusher (sr_inner sr) then sr\<lparr>sr_inner := server_call Flush (sr_inner sr)\<rparr> else sr)"

definition Unwrap :: "statusRecorder \<Rightarrow> rwriter" where
  "Unwrap sr = sr_inner sr"

fun sr_call :: "wcall \<Rightarrow> statusRecorder \<Rightarrow> statusRecorder" where
  "sr_call (SetHeader k v) sr = sr\<lparr>sr_inner := server_call (SetHeader k v) (sr_inner sr)\<rparr>"
| "sr_call (WriteHeader code) sr = sr_WriteHeader code sr"
| "sr_call (WriteBytes b) sr = sr_Write b sr"
| "sr_call Flush sr = sr_Flush sr"

text \<open>The writer a handler gets: a type assertion to \<open>http.Flusher\<close> always succeeds on the recorder, which has the method.\<close>

datatype writer = Raw rwriter | Recorded statusRecorder

fun is_Flusher :: "writer \<Rightarrow> bool" where
  "is_Flusher (Raw w) = rw_flusher w"
| "is_Flusher (Recorded sr) = True"

definition record_calls :: "wcall list \<Rightarrow> statusRecorder" where
  "record_calls calls = fold sr_call calls (new_recorder new_writer)"

text \<open>
  The state the core's handlers share; a backend's own state extends it. The clock of the core and the clock the replay cache reads under its
  mutex are two fields, since a request reads the one before the other.
\<close>

record core_state =
  st_now :: instant
  st_replay_now :: instant
  st_replay :: ReplayCache
  st_draining :: bool
  st_sse_closed :: bool
  st_sse_once :: bool
  st_requests :: "(string \<times> string \<times> string) list"
  st_durations :: "(string \<times> float64 option) list"

definition outcome_code :: "int \<Rightarrow> bool \<Rightarrow> string" where
  "outcome_code status completed =
     (let code = ''success'';
          code = (if status \<ge> 400 then ''error'' else code);
          code = (if status = 429 then ''rate_limited'' else code)
      in if \<not> completed then ''aborted'' else code)"

definition endpoint_label :: "Metrics \<Rightarrow> string \<Rightarrow> string" where
  "endpoint_label m path =
     (let endpoint = NormalizeEndpoint m path
      in if length endpoint > 0 \<and> hd endpoint = CHR ''/'' then tl endpoint else endpoint)"

text \<open>A vector takes one value per label; \<open>WithLabelValues\<close> panics on any other number (\<open>None\<close>).\<close>

definition WithLabelValues :: "collector \<Rightarrow> string list \<Rightarrow> string list option" where
  "WithLabelValues c vals = (if length vals = length (co_labels c) then Some vals else None)"

text \<open>The deferred function of \<open>RecordMetrics\<close>.\<close>

definition observe_request :: "Metrics \<Rightarrow> request \<Rightarrow> instant \<Rightarrow> wcall list \<Rightarrow> bool \<Rightarrow> 'z core_state_scheme \<Rightarrow> 'z core_state_scheme outcome" where
  "observe_request m r start calls completed st =
     (let endpoint = endpoint_label m (rq_path r);
          status = sr_status (record_calls calls);
          code = outcome_code status completed
      in case WithLabelValues (mt_WebhookRequestsTotal m) [endpoint, Itoa status, code] of
           None \<Rightarrow> Panics st
         | Some _ \<Rightarrow>
             (let st1 = st\<lparr>st_requests := st_requests st @ [(endpoint, Itoa status, code)]\<rparr>
              in case WithLabelValues (mt_WebhookRequestDuration m) [endpoint] of
                   None \<Rightarrow> Panics st1
                 | Some _ \<Rightarrow> Returns (st1\<lparr>st_durations := st_durations st1 @ [(endpoint, Seconds (time_Sub (st_now st1) start))]\<rparr>)))"

definition RecordMetrics :: "Metrics option \<Rightarrow> 'z core_state_scheme handler \<Rightarrow> 'z core_state_scheme handler" where
  "RecordMetrics metrics next =
     (case metrics of
        None \<Rightarrow> next
      | Some m \<Rightarrow>
          (\<lambda>r st. case next r st of
             Returns (calls, st') \<Rightarrow> map_outcome (Pair calls) (observe_request m r (st_now st) calls True st')
           | Panics (calls, st') \<Rightarrow>
               (case observe_request m r (st_now st) calls False st' of
                  Returns st'' \<Rightarrow> Panics (calls, st'')
                | Panics st'' \<Rightarrow> Panics (calls, st''))))"

text \<open>The two vectors have the labels the deferred function gives values for.\<close>

definition labelled :: "Metrics \<Rightarrow> bool" where
  "labelled m \<longleftrightarrow> length (co_labels (mt_WebhookRequestsTotal m)) = 3 \<and> length (co_labels (mt_WebhookRequestDuration m)) = 1"

lemma observe_labelled:
  "labelled m \<Longrightarrow> observe_request m r start calls completed st =
    (let status = sr_status (record_calls calls) in
     Returns (st\<lparr>st_requests := st_requests st @ [(endpoint_label m (rq_path r), Itoa status, outcome_code status completed)],
       st_durations := st_durations st @ [(endpoint_label m (rq_path r), Seconds (time_Sub (st_now st) start))]\<rparr>))"
  by (simp add: labelled_def observe_request_def WithLabelValues_def Let_def)

lemma metrics_New_labelled: "metrics_New accepts db ns endpoints = Some m \<Longrightarrow> labelled m"
  by (auto simp: metrics_New_def labelled_def requests_total_def request_duration_def split: option.splits)

subsection \<open>When the recorded status is the client's\<close>

fun after_flush :: "wcall list \<Rightarrow> bool" where
  "after_flush [] = True"
| "after_flush (SetHeader k v # calls) = after_flush calls"
| "after_flush (Flush # calls) = after_flush calls"
| "after_flush (WriteBytes b # calls) = True"
| "after_flush (WriteHeader code # calls) = (code = 200)"

text \<open>
  The first write decides: it is not an informational status, and no flush before it has already
  sent another status.
\<close>

fun plain_start :: "wcall list \<Rightarrow> bool" where
  "plain_start [] = True"
| "plain_start (SetHeader k v # calls) = plain_start calls"
| "plain_start (Flush # calls) = after_flush calls"
| "plain_start (WriteBytes b # calls) = True"
| "plain_start (WriteHeader code # calls) = (\<not> informational code)"

lemma rw_flusher_call [simp]: "rw_flusher (server_call c w) = rw_flusher w"
  by (cases c) (simp_all add: send_header_def Let_def)

lemma sr_inner_call: "rw_flusher (sr_inner sr) \<Longrightarrow> sr_inner (sr_call c sr) = server_call c (sr_inner sr)"
  by (cases c) (simp_all add: sr_WriteHeader_def sr_Write_def sr_Flush_def Let_def)

lemma sr_inner_calls:
  "rw_flusher (sr_inner sr) \<Longrightarrow> sr_inner (fold sr_call calls sr) = fold server_call calls (sr_inner sr)"
  by (induction calls arbitrary: sr) (simp_all add: sr_inner_call)

lemma sr_unflushed_call:
  "\<not> rw_flusher (sr_inner sr) \<Longrightarrow>
    sr_inner (sr_call c sr) = (if c = Flush then sr_inner sr else server_call c (sr_inner sr))"
  by (cases c) (simp_all add: sr_WriteHeader_def sr_Write_def sr_Flush_def Let_def)

lemma sr_unflushed_calls:
  "\<not> rw_flusher (sr_inner sr) \<Longrightarrow>
    sr_inner (fold sr_call calls sr) = fold server_call (filter (\<lambda>c. c \<noteq> Flush) calls) (sr_inner sr)"
  by (induction calls arbitrary: sr) (simp_all add: sr_unflushed_call)

lemma sr_status_call:
  "sr_status sr = sr_status sr' \<Longrightarrow> sr_wrote sr = sr_wrote sr' \<Longrightarrow>
    sr_status (sr_call c sr) = sr_status (sr_call c sr') \<and> sr_wrote (sr_call c sr) = sr_wrote (sr_call c sr')"
  by (cases c) (simp_all add: sr_WriteHeader_def sr_Write_def sr_Flush_def Let_def)

text \<open>What is recorded does not depend on the inner writer.\<close>

lemma sr_status_calls:
  "sr_status sr = sr_status sr' \<Longrightarrow> sr_wrote sr = sr_wrote sr' \<Longrightarrow>
    sr_status (fold sr_call calls sr) = sr_status (fold sr_call calls sr')"
proof (induction calls arbitrary: sr sr')
  case (Cons c calls)
  note same = sr_status_call [OF Cons.prems, of c]
  show ?case using Cons.IH [OF conjunct1 [OF same] conjunct2 [OF same]] by simp
qed simp

lemma server_status_fixed: "rw_status w = Some c \<Longrightarrow> rw_status (fold server_call calls w) = Some c"
proof (induction calls arbitrary: w)
  case (Cons call calls)
  then have "rw_status (server_call call w) = Some c"
    by (cases call) (simp_all add: send_header_def Let_def)
  then show ?case using Cons.IH by simp
qed simp

lemma sr_status_fixed: "sr_wrote sr \<Longrightarrow> sr_status (fold sr_call calls sr) = sr_status sr"
proof (induction calls arbitrary: sr)
  case (Cons call calls)
  then have "sr_wrote (sr_call call sr)" "sr_status (sr_call call sr) = sr_status sr"
    by (cases call; simp add: sr_WriteHeader_def sr_Write_def sr_Flush_def Let_def)+
  then show ?case using Cons.IH by simp
qed simp

lemma final_not_informational:
  "rw_status w = None \<Longrightarrow> \<not> informational (final_status (fold server_call calls w))"
proof (induction calls arbitrary: w)
  case Nil
  then show ?case by (simp add: final_status_def informational_def)
next
  case (Cons call calls)
  have "rw_status (server_call call w) = None \<or> (\<exists>c. rw_status (server_call call w) = Some c \<and> \<not> informational c)"
    using Cons.prems by (cases call) (auto simp: send_header_def Let_def informational_def)
  then show ?case
    using Cons.IH server_status_fixed by (fastforce simp: final_status_def)
qed

lemma recorded_after_flush:
  "rw_status (sr_inner sr) = Some 200 \<Longrightarrow> \<not> sr_wrote sr \<Longrightarrow> sr_status sr = 200 \<Longrightarrow>
   sr_status (fold sr_call calls sr) = 200 \<longleftrightarrow> after_flush calls"
proof (induction calls arbitrary: sr rule: after_flush.induct)
  case (4 b calls)
  then show ?case by (simp add: sr_Write_def Let_def sr_status_fixed)
next
  case (5 code calls)
  then show ?case by (simp add: sr_WriteHeader_def Let_def sr_status_fixed)
qed (simp_all add: sr_Flush_def send_header_def)

lemma recorded_iff:
  "rw_flusher (sr_inner sr) \<Longrightarrow> rw_status (sr_inner sr) = None \<Longrightarrow> \<not> sr_wrote sr \<Longrightarrow> sr_status sr = 200 \<Longrightarrow>
   sr_status (fold sr_call calls sr) = final_status (fold server_call calls (sr_inner sr)) \<longleftrightarrow> plain_start calls"
proof (induction calls arbitrary: sr rule: plain_start.induct)
  case 1
  then show ?case by (simp add: final_status_def)
next
  case (2 k v calls)
  then show ?case using "2.IH" [of "sr_call (SetHeader k v) sr"] by simp
next
  case (3 calls)
  have "rw_status (fold server_call calls (server_call Flush (sr_inner sr))) = Some 200"
    using "3.prems" by (intro server_status_fixed) (simp add: send_header_def informational_def)
  then show ?case
    using recorded_after_flush [of "sr_Flush sr" calls] "3.prems"
    by (simp add: sr_Flush_def send_header_def informational_def final_status_def)
next
  case (4 b calls)
  have "rw_status (fold server_call calls (server_call (WriteBytes b) (sr_inner sr))) = Some 200"
    using "4.prems" by (intro server_status_fixed) (simp add: send_header_def informational_def Let_def)
  then show ?case
    using "4.prems" by (simp add: sr_Write_def Let_def sr_status_fixed final_status_def)
next
  case (5 code calls)
  have sr: "sr_status (fold sr_call (WriteHeader code # calls) sr) = code"
    using "5.prems" by (simp add: sr_WriteHeader_def Let_def sr_status_fixed)
  show ?case
  proof (cases "informational code")
    case True
    have "\<not> informational (final_status (fold server_call (WriteHeader code # calls) (sr_inner sr)))"
      using "5.prems"(2) by (rule final_not_informational)
    then show ?thesis using True sr by auto
  next
    case False
    then have "rw_status (fold server_call calls (server_call (WriteHeader code) (sr_inner sr))) = Some code"
      using "5.prems" by (intro server_status_fixed) (simp add: send_header_def)
    then show ?thesis using False sr by (simp add: final_status_def)
  qed
qed

lemma fold_insert_set: "fold insert xs A = set xs \<union> A"
  by (induction xs arbitrary: A) auto

lemma record_calls_inner: "sr_inner (record_calls calls) = server_writer calls"
  by (simp add: record_calls_def sr_inner_calls new_recorder_def new_writer_def server_writer_def)

lemma metrics_New_endpoints: "metrics_New accepts db ns endpoints = Some m \<Longrightarrow> mt_endpoints m = set endpoints"
  by (auto simp: metrics_New_def fold_insert_set split: option.splits)

lemma endpoint_label_values:
  assumes "mt_endpoints m = set endpoints"
  shows "endpoint_label m path \<in> insert ''other'' ((\<lambda>p. TrimPrefix p ''/'') ` set endpoints)"
proof (cases "path \<in> set endpoints")
  case True
  have "NormalizeEndpoint m path = path" using True assms by (simp add: NormalizeEndpoint_def)
  moreover have "(if length path > 0 \<and> hd path = CHR ''/'' then tl path else path) = TrimPrefix path ''/''"
    by (cases path) (simp_all add: TrimPrefix_def HasPrefix_def)
  ultimately have "endpoint_label m path = TrimPrefix path ''/''"
    by (simp add: endpoint_label_def Let_def)
  then show ?thesis using True by simp
qed (simp add: assms endpoint_label_def NormalizeEndpoint_def)

lemma outcome_code_aborted: "outcome_code status completed = ''aborted'' \<longleftrightarrow> \<not> completed"
  by (simp add: outcome_code_def)

lemma outcome_code_values: "outcome_code status completed \<in> {''success'', ''error'', ''rate_limited'', ''aborted''}"
  by (simp add: outcome_code_def Let_def)

subsection \<open>Series\<close>

text \<open>Requests served one after the other, each with its handler; the handlers leave the collectors of the kit alone.\<close>

definition keeps_series :: "'z core_state_scheme handler \<Rightarrow> bool" where
  "keeps_series next \<longleftrightarrow>
     (\<forall>r st. st_requests (outcome_state (next r st)) = st_requests st \<and> st_durations (outcome_state (next r st)) = st_durations st)"

definition serve_all :: "Metrics option \<Rightarrow> ('z core_state_scheme handler \<times> request) list \<Rightarrow> 'z core_state_scheme \<Rightarrow> 'z core_state_scheme" where
  "serve_all metrics reqs st = fold (\<lambda>(next, r) st. outcome_state (RecordMetrics metrics next r st)) reqs st"

lemma serve_one:
  assumes "keeps_series next" "labelled m"
  obtains status completed secs where
    "st_requests (outcome_state (RecordMetrics (Some m) next r st)) =
      st_requests st @ [(endpoint_label m (rq_path r), Itoa status, outcome_code status completed)]"
    "st_durations (outcome_state (RecordMetrics (Some m) next r st)) = st_durations st @ [(endpoint_label m (rq_path r), secs)]"
proof (cases "next r st" rule: outcome_state.cases)
  case (1 calls st')
  then have "st_requests st' = st_requests st" "st_durations st' = st_durations st"
    using assms(1) unfolding keeps_series_def by (metis outcome_state.simps(1))+
  then show ?thesis using 1 that by (simp add: RecordMetrics_def observe_labelled [OF assms(2)] Let_def)
next
  case (2 calls st')
  then have "st_requests st' = st_requests st" "st_durations st' = st_durations st"
    using assms(1) unfolding keeps_series_def by (metis outcome_state.simps(2))+
  then show ?thesis using 2 that by (simp add: RecordMetrics_def observe_labelled [OF assms(2)] Let_def)
qed

lemma serve_all_labels:
  assumes "\<forall>p \<in> set reqs. keeps_series (fst p)" "mt_endpoints m = set endpoints" "labelled m"
  defines "labels \<equiv> insert ''other'' ((\<lambda>p. TrimPrefix p ''/'') ` set endpoints)"
  shows "\<exists>more secs. st_requests (serve_all (Some m) reqs st) = st_requests st @ more \<and>
    st_durations (serve_all (Some m) reqs st) = st_durations st @ secs \<and>
    length more = length reqs \<and> map fst secs = map fst more \<and>
    (\<forall>t \<in> set more. fst t \<in> labels \<and> snd (snd t) \<in> {''success'', ''error'', ''rate_limited'', ''aborted''})"
  using assms(1)
proof (induction reqs arbitrary: st)
  case Nil
  then show ?case by (simp add: serve_all_def)
next
  case (Cons p reqs)
  obtain hnd r where p: "p = (hnd, r)" by (cases p)
  let ?st = "outcome_state (RecordMetrics (Some m) hnd r st)"
  obtain status completed secs where one:
    "st_requests ?st = st_requests st @ [(endpoint_label m (rq_path r), Itoa status, outcome_code status completed)]"
    "st_durations ?st = st_durations st @ [(endpoint_label m (rq_path r), secs)]"
    using serve_one [of hnd m r st] Cons.prems p assms(3) by auto
  obtain more secs' where rest: "st_requests (serve_all (Some m) reqs ?st) = st_requests ?st @ more"
    "st_durations (serve_all (Some m) reqs ?st) = st_durations ?st @ secs'" "length more = length reqs"
    "map fst secs' = map fst more"
    "\<forall>t \<in> set more. fst t \<in> labels \<and> snd (snd t) \<in> {''success'', ''error'', ''rate_limited'', ''aborted''}"
    using Cons.IH [of ?st] Cons.prems by auto
  have "serve_all (Some m) (p # reqs) st = serve_all (Some m) reqs ?st" by (simp add: serve_all_def p)
  then show ?case
    using one rest endpoint_label_values [OF assms(2)] outcome_code_values
    by (intro exI [of _ "(endpoint_label m (rq_path r), Itoa status, outcome_code status completed) # more"]
        exI [of _ "(endpoint_label m (rq_path r), secs) # secs'"]) (simp add: labels_def)
qed

subsection \<open>Registration\<close>

text \<open>
  What Prometheus documents of registration: a collector is accepted if its name and its label names are well-formed, the label names differ, and no registered
  collector has its name. The names of the runtime collectors are \<open>runtime\<close>.
\<close>

definition name_char :: "char \<Rightarrow> bool" where
  "name_char c \<longleftrightarrow> is_alnum c \<or> c = CHR ''_'' \<or> c = CHR '':''"

definition metric_name :: "string \<Rightarrow> bool" where
  "metric_name s \<longleftrightarrow> s \<noteq> [] \<and> list_all name_char s \<and> \<not> is_digit (hd s)"

definition label_name :: "string \<Rightarrow> bool" where
  "label_name s \<longleftrightarrow> s \<noteq> [] \<and> list_all (\<lambda>c. is_alnum c \<or> c = CHR ''_'') s \<and> \<not> is_digit (hd s) \<and> \<not> HasPrefix s ''__''"

definition descriptor_ok :: "collector \<Rightarrow> bool" where
  "descriptor_ok c \<longleftrightarrow> metric_name (co_name c) \<and> list_all label_name (co_labels c) \<and> distinct (co_labels c)"

fun names_of :: "string list \<Rightarrow> registered \<Rightarrow> string list" where
  "names_of runtime (Own c) = [co_name c]"
| "names_of runtime _ = runtime"

definition registry_contract :: "(registered \<Rightarrow> Registry \<Rightarrow> bool) \<Rightarrow> string list \<Rightarrow> bool" where
  "registry_contract accepts runtime \<longleftrightarrow>
     accepts GoCollector [] \<and> accepts ProcessCollector [GoCollector] \<and>
     (\<forall>c reg. descriptor_ok c \<and> (\<forall>r \<in> set reg. co_name c \<notin> set (names_of runtime r)) \<longrightarrow> accepts (Own c) reg)"

definition own_names :: "string \<Rightarrow> string list" where
  "own_names ns = map ((@) ns) [''_webhook_requests_total'', ''_webhook_request_duration_seconds'',
     ''_container_duration_seconds'', ''_running_containers'', ''_broadcaster_drops_total'']"

lemma own_names_split: "n \<in> set (own_names ns) \<Longrightarrow> \<exists>suf. n = ns @ suf \<and> suf \<in> set (own_names [])"
  unfolding own_names_def by (simp only: set_map image_iff append_Nil) blast

lemma own_names_wf: "metric_name ns \<Longrightarrow> n \<in> set (own_names ns) \<Longrightarrow> metric_name n"
proof -
  assume ns: "metric_name ns" and "n \<in> set (own_names ns)"
  then obtain suf where suf: "n = ns @ suf" "suf \<in> set (own_names [])" using own_names_split by blast
  have "list_all (list_all name_char) (own_names [])" by code_simp
  then have "list_all name_char suf" using suf(2) unfolding list_all_iff by blast
  then show "metric_name n" using ns suf(1) by (simp add: metric_name_def)
qed

lemmas collector_defs = requests_total_def request_duration_def container_duration_def running_containers_def drops_total_def

lemma metrics_New_Some:
  assumes "registry_contract accepts runtime" "metric_name ns" "set (own_names ns) \<inter> set runtime = {}"
  shows "\<exists>m. metrics_New accepts db ns endpoints = Some m \<and> mt_endpoints m = set endpoints \<and>
    concat (map (names_of []) (mt_Registry m)) = own_names ns"
proof -
  have "list_all (\<lambda>c. list_all label_name (co_labels c) \<and> distinct (co_labels c))
      [requests_total [], request_duration [] [], container_duration [], running_containers [], drops_total []]" by code_simp
  then have "list_all (\<lambda>c. descriptor_ok c)
      [requests_total ns, request_duration db ns, container_duration ns, running_containers ns, drops_total ns]"
    using own_names_wf [OF assms(2)] by (simp add: descriptor_ok_def own_names_def collector_defs)
  then have own: "accepts (Own c) reg" if "c \<in> set [requests_total ns, request_duration db ns, container_duration ns, running_containers ns, drops_total ns]"
      "\<forall>r \<in> set reg. co_name c \<notin> set (names_of runtime r)" for c reg
    using assms(1) that by (auto simp: registry_contract_def)
  have names: "co_name (requests_total ns) = ns @ ''_webhook_requests_total''" "co_name (request_duration db ns) = ns @ ''_webhook_request_duration_seconds''"
      "co_name (container_duration ns) = ns @ ''_container_duration_seconds''" "co_name (running_containers ns) = ns @ ''_running_containers''"
      "co_name (drops_total ns) = ns @ ''_broadcaster_drops_total''"
    by (simp_all add: collector_defs)
  show ?thesis
    using own assms(1,3) by (simp add: metrics_New_def MustRegister_def registry_contract_def own_names_def names fold_insert_set)
qed

subsection \<open>Properties\<close>

text \<open>C31: The status recorder is transparent: whatever calls a handler makes, the wrapped writer ends in
the state the calls alone produce, flushes left out for a writer that cannot flush. The recorded status is the one the client gets exactly for
handlers whose first write is not an informational status and that do not flush before writing
another status than 200; those are the calls for which \<open>plain_start\<close> holds.\<close>

theorem recorded_status_iff:
  "Unwrap (record_calls calls) = server_writer calls \<and>
   Unwrap (fold sr_call calls (new_recorder (new_writer\<lparr>rw_flusher := False\<rparr>))) =
     fold server_call (filter (\<lambda>c. c \<noteq> Flush) calls) (new_writer\<lparr>rw_flusher := False\<rparr>) \<and>
   (sr_status (record_calls calls) = client_status calls \<longleftrightarrow> plain_start calls)"
  using recorded_iff [of "new_recorder new_writer" calls] record_calls_inner [of calls]
    sr_unflushed_calls [of "new_recorder (new_writer\<lparr>rw_flusher := False\<rparr>)" calls]
  by (simp add: Unwrap_def record_calls_def new_recorder_def new_writer_def client_status_def server_writer_def)

text \<open>A handler that forwards an informational status (103, as a reverse proxy does) or flushes
before it writes its status is recorded under a status the client never got.\<close>

theorem recorded_status_wrong:
  "sr_status (record_calls [WriteHeader 103, WriteHeader 502, WriteBytes b]) = 103 \<and>
   client_status [WriteHeader 103, WriteHeader 502, WriteBytes b] = 502 \<and>
   outcome_code (sr_status (record_calls [WriteHeader 103, WriteHeader 502, WriteBytes b])) True = ''success'' \<and>
   sr_status (record_calls [Flush, WriteHeader 500]) = 500 \<and> client_status [Flush, WriteHeader 500] = 200"
  by (simp add: record_calls_def new_recorder_def new_writer_def client_status_def server_writer_def final_status_def
      sr_WriteHeader_def sr_Write_def sr_Flush_def send_header_def informational_def outcome_code_def Let_def)

text \<open>C29: \<open>RecordMetrics\<close> passes the handler's calls through, lets a panic propagate, and makes exactly one
count and one observation per request, panics included. The endpoint label is one of finitely
many (an allowed endpoint without its slash, or \<open>other\<close>), the code is \<open>aborted\<close> exactly for a panic,
the observation is the time the handler took, in seconds, which is always a finite value,
and for a handler with a plain start the status label is the client's status.\<close>

theorem RecordMetrics_observes:
  assumes "metrics_New accepts db ns endpoints = Some m" "next r st = res" "res = Returns (calls, st') \<or> res = Panics (calls, st')"
  shows "\<exists>endpoint status code.
    RecordMetrics (Some m) next r st =
      map_outcome (\<lambda>_. (calls, st'\<lparr>st_requests := st_requests st' @ [(endpoint, Itoa status, code)],
                                 st_durations := st_durations st' @ [(endpoint, Seconds (time_Sub (st_now st') (st_now st)))]\<rparr>)) res \<and>
    endpoint \<in> insert ''other'' ((\<lambda>p. TrimPrefix p ''/'') ` set endpoints) \<and>
    (code = ''aborted'' \<longleftrightarrow> res = Panics (calls, st')) \<and>
    code \<in> {''success'', ''error'', ''rate_limited'', ''aborted''} \<and>
    Seconds (time_Sub (st_now st') (st_now st)) \<noteq> None \<and>
    (plain_start calls \<longrightarrow> status = client_status calls)"
proof -
  define status where "status = sr_status (record_calls calls)"
  define completed where "completed \<longleftrightarrow> res = Returns (calls, st')"
  let ?code = "outcome_code status completed" and ?label = "endpoint_label m (rq_path r)"
  have eq: "RecordMetrics (Some m) next r st =
      map_outcome (\<lambda>_. (calls, st'\<lparr>st_requests := st_requests st' @ [(?label, Itoa status, ?code)],
                                 st_durations := st_durations st' @ [(?label, Seconds (time_Sub (st_now st') (st_now st)))]\<rparr>)) res"
    using assms(2,3) by (auto simp: RecordMetrics_def observe_labelled [OF metrics_New_labelled [OF assms(1)]] Let_def completed_def status_def)
  have "plain_start calls \<longrightarrow> status = client_status calls"
    using recorded_iff [of "new_recorder new_writer" calls]
    by (simp add: status_def record_calls_def new_recorder_def new_writer_def client_status_def server_writer_def)
  moreover have "?code = ''aborted'' \<longleftrightarrow> res = Panics (calls, st')"
    using assms(3) by (auto simp: outcome_code_aborted completed_def)
  moreover have "Seconds (time_Sub (st_now st') (st_now st)) \<noteq> None"
    using Seconds_finite [of "time_Sub (st_now st') (st_now st)"] by (simp add: time_Sub_def)
  ultimately show ?thesis
    using eq endpoint_label_values [OF metrics_New_endpoints [OF assms(1)]] outcome_code_values by blast
qed

definition sample_state :: core_state where
  "sample_state =
     \<lparr>st_now = 0, st_replay_now = 0, st_replay = NewReplayCache 60 16 [], st_draining = False, st_sse_closed = False,
      st_sse_once = False, st_requests = [], st_durations = []\<rparr>"

definition sample_metrics :: Metrics where
  "sample_metrics = the (metrics_New (\<lambda>c reg. True) [] ''cm'' [''/trigger''])"

lemma sample_metrics_new: "metrics_New (\<lambda>c reg. True) [] ''cm'' [''/trigger''] = Some sample_metrics"
  by (simp add: sample_metrics_def metrics_New_def MustRegister_def)

theorem RecordMetrics_observes_witness:
  "\<exists>endpoint status code secs.
    RecordMetrics (Some sample_metrics) (\<lambda>r s. Panics ([WriteHeader 500], s)) sample_request sample_state =
      Panics ([WriteHeader 500], sample_state\<lparr>st_requests := [(endpoint, Itoa status, code)], st_durations := [(endpoint, secs)]\<rparr>) \<and>
    endpoint \<in> {''other'', ''trigger''} \<and> code = ''aborted'' \<and> status = 500"
  using RecordMetrics_observes [OF sample_metrics_new, of "\<lambda>r s. Panics ([WriteHeader 500], s)" sample_request sample_state
      "Panics ([WriteHeader 500], sample_state)" "[WriteHeader 500]" sample_state]
  by (auto simp: sample_state_def client_status_def server_writer_def new_writer_def final_status_def send_header_def
      informational_def TrimPrefix_def HasPrefix_def)

text \<open>C30: Label cardinality is bounded, as the package promises. A bundle is created for every well-formed namespace that does not collide with the runtime
collectors, on a registry that accepts collectors with well-formed, differing label names. However many requests are served, by whatever handlers, each is counted and timed once, the request durations have at most one series per
allowed endpoint and one for all other paths, and the request counter at most four times as many per status.\<close>

theorem series_bounded:
  assumes "registry_contract accepts runtime" "metric_name ns" "set (own_names ns) \<inter> set runtime = {}"
    and "\<forall>p \<in> set reqs. keeps_series (fst p)" "st_requests st = []" "st_durations st = []"
  shows "\<exists>m. metrics_New accepts db ns endpoints = Some m \<and>
    length (st_requests (serve_all (Some m) reqs st)) = length reqs \<and>
    length (st_durations (serve_all (Some m) reqs st)) = length reqs \<and>
    card (fst ` set (st_durations (serve_all (Some m) reqs st))) \<le> Suc (card (set endpoints)) \<and>
    (\<forall>status. card {t \<in> set (st_requests (serve_all (Some m) reqs st)). fst (snd t) = status} \<le> 4 * Suc (card (set endpoints)))"
proof -
  obtain m where m: "metrics_New accepts db ns endpoints = Some m" "mt_endpoints m = set endpoints"
    using metrics_New_Some [OF assms(1-3)] by blast
  define labels where "labels = insert ''other'' ((\<lambda>p. TrimPrefix p ''/'') ` set endpoints)"
  define codes where "codes = {''success'', ''error'', ''rate_limited'', ''aborted''}"
  let ?st = "serve_all (Some m) reqs st"
  obtain more secs where run: "st_requests ?st = more" "st_durations ?st = secs" "length more = length reqs"
    "map fst secs = map fst more" "\<forall>t \<in> set more. fst t \<in> labels \<and> snd (snd t) \<in> codes"
    using serve_all_labels [OF assms(4) m(2) metrics_New_labelled [OF m(1)], of st] assms(5,6) by (auto simp: labels_def codes_def)
  have "card labels \<le> Suc (card ((\<lambda>p. TrimPrefix p ''/'') ` set endpoints))" by (simp add: labels_def card_insert_if)
  also have "\<dots> \<le> Suc (card (set endpoints))" by (simp add: card_image_le)
  finally have n: "card labels \<le> Suc (card (set endpoints))" .
  have fin: "finite labels" "finite codes" "card codes = 4" by (simp_all add: labels_def codes_def)
  have "fst ` set secs = fst ` set more" using run(4) by (metis image_set)
  then have "fst ` set secs \<subseteq> labels" using run(5) by auto
  then have d: "card (fst ` set secs) \<le> Suc (card (set endpoints))" using n card_mono [OF fin(1)] le_trans by blast
  have "card {t \<in> set more. fst (snd t) = status} \<le> 4 * Suc (card (set endpoints))" for status
  proof -
    have "{t \<in> set more. fst (snd t) = status} \<subseteq> (\<lambda>(l, c). (l, status, c)) ` (labels \<times> codes)"
      using run(5) by force
    then have "card {t \<in> set more. fst (snd t) = status} \<le> card ((\<lambda>(l, c). (l, status, c)) ` (labels \<times> codes))"
      using fin by (intro card_mono) auto
    also have "\<dots> \<le> card (labels \<times> codes)" using fin by (intro card_image_le) simp
    also have "\<dots> \<le> 4 * Suc (card (set endpoints))" using n fin(3) by (simp add: card_cartesian_product)
    finally show ?thesis .
  qed
  then show ?thesis using m(1) run d length_map [of fst more] length_map [of fst secs] by auto
qed

text \<open>A registry that checks what Prometheus checks.\<close>

fun sample_accepts :: "registered \<Rightarrow> Registry \<Rightarrow> bool" where
  "sample_accepts (Own c) reg = (descriptor_ok c \<and> list_all (\<lambda>r. co_name c \<notin> set (names_of [''go_goroutines''] r)) reg)"
| "sample_accepts _ reg = True"

theorem series_bounded_witness:
  "\<exists>m. metrics_New sample_accepts [] ''cm'' [''/trigger''] = Some m \<and>
    length (st_requests (serve_all (Some m) [(\<lambda>r s. Panics ([], s), sample_request)] sample_state)) = 1"
proof -
  have c: "registry_contract sample_accepts [''go_goroutines'']" by (simp add: registry_contract_def list_all_iff)
  have n: "metric_name ''cm''" "set (own_names ''cm'') \<inter> set [''go_goroutines''] = {}" by code_simp+
  have k: "\<forall>p \<in> set [(\<lambda>r s. Panics ([], s), sample_request)]. keeps_series (fst p)" by (simp add: keeps_series_def)
  have s: "st_requests sample_state = []" "st_durations sample_state = []" by (simp_all add: sample_state_def)
  from series_bounded [OF c n k s, of "[]" "[''/trigger'']"] show ?thesis by auto
qed

end
