(* ===== verification/Webhook_Core.thy ===== *)
theory Webhook_Core
  imports Request_Metrics
begin

text \<open>
  \<open>webhookcore/core.go\<close>, \<open>middleware.go\<close>, \<open>health.go\<close>, \<open>revision.go\<close> and \<open>images.go\<close>: the transport core a backend
  mounts its handlers on. The fields of \<open>Core\<close> that never change are the record \<open>Core\<close>; its mutable
  cells (the replay cache, the draining flag, the shutdown channel and its \<open>sync.Once\<close>) are the
  \<open>core_state\<close> every handler passes on. The readings of the clock by the signature check and by the replay cache are two fields of the state. Loggers are left out; the
  tracker, the image lister, the labeler and the revision hook are parameters held by the
  configuration, as in the code.

  The middlewares are stated against one contract, the locale \<open>middleware\<close>: a request is either
  refused with calls of the middleware's own or handed to the next handler once.
\<close>

subsection \<open>Configuration and construction (core.go)\<close>

record ImageSummary =
  is_Tags :: "string list"
  is_Digests :: "string list"
  is_CreatedAt :: int
  is_SizeBytes :: int

text \<open>The interfaces a backend implements, as functions of its state; \<open>None\<close> is an error of the lister.\<close>

type_synonym 's TrackerCounter = "'s \<Rightarrow> int"

type_synonym 's ImageLister = "'s \<Rightarrow> ImageSummary list option"

record ImageListItem =
  il_Tags :: "string list"
  il_Digests :: "string list"
  il_Created :: int
  il_Size :: int

record 'c BuildInfo =
  Changes :: "'c list option"

text \<open>A hook gets the deadline of its context; it returns or panics.\<close>

type_synonym revision_hook = "instant \<Rightarrow> string outcome"

record ('s, 'b) CoreConfig =
  cf_APIKey :: string
  cf_MetricsToken :: string
  cf_Skew :: duration
  cf_Replay :: "ReplayCache option"
  cf_Draining :: "bool option"
  cf_KeepaliveInterval :: duration
  cf_Metrics :: "Metrics option"
  cf_LogsFilterParam :: string
  cf_Tracker :: "'s TrackerCounter option"
  cf_MaxConcurrent :: int
  cf_Images :: "'s ImageLister option"
  cf_ImageListFilters :: "string list"
  cf_Build :: 'b
  cf_WorkerImageRevision :: "revision_hook option"

record ('s, 'b) Core =
  co_apiKey :: string
  co_metricsToken :: string
  co_skew :: duration
  co_keepaliveInterval :: duration
  co_metrics :: "Metrics option"
  co_logsFilterParam :: string
  co_tracker :: "'s TrackerCounter option"
  co_maxConcurrent :: int
  co_images :: "'s ImageLister option"
  co_imageListFilters :: "string list"
  co_build :: 'b
  co_workerImageRevision :: "revision_hook option"

definition NewCore ::
  "('p, 'i) protocol \<Rightarrow> ('s, ('c, 'd) BuildInfo_scheme) CoreConfig \<Rightarrow> 'z core_state_scheme \<Rightarrow>
   ('s, ('c, 'd) BuildInfo_scheme) Core \<times> 'z core_state_scheme" where
  "NewCore pr cfg st =
     (let skew = (if cf_Skew cfg = 0 then DefaultMaxClockSkew pr else cf_Skew cfg);
          replayFloor = wrap64 (skew + DefaultMaxFutureSkew pr);
          replay = (case cf_Replay cfg of
              None \<Rightarrow> NewReplayCache replayFloor 4096 []
            | Some rc \<Rightarrow> ensureMinTTL replayFloor rc);
          draining = (case cf_Draining cfg of None \<Rightarrow> False | Some d \<Rightarrow> d);
          build = cf_Build cfg;
          build = (if Changes build = None then build\<lparr>Changes := Some []\<rparr> else build)
      in (\<lparr>co_apiKey = cf_APIKey cfg, co_metricsToken = cf_MetricsToken cfg, co_skew = skew,
           co_keepaliveInterval = cf_KeepaliveInterval cfg, co_metrics = cf_Metrics cfg,
           co_logsFilterParam = cf_LogsFilterParam cfg, co_tracker = cf_Tracker cfg,
           co_maxConcurrent = cf_MaxConcurrent cfg, co_images = cf_Images cfg,
           co_imageListFilters = cf_ImageListFilters cfg, co_build = build,
           co_workerImageRevision = cf_WorkerImageRevision cfg\<rparr>,
          st\<lparr>st_replay := replay, st_draining := draining, st_sse_closed := False, st_sse_once := False\<rparr>))"

text \<open>\<open>CloseSSE\<close>: closing a closed channel would panic (\<open>None\<close>).\<close>

definition CloseSSE :: "'z core_state_scheme \<Rightarrow> 'z core_state_scheme option" where
  "CloseSSE st =
     (if st_sse_once st then Some st
      else if st_sse_closed st then None
      else Some (st\<lparr>st_sse_once := True, st_sse_closed := True\<rparr>))"

subsection \<open>Middlewares (middleware.go, core.go)\<close>

definition Auth :: "('p, 'i) protocol \<Rightarrow> ('s, 'b) Core \<Rightarrow> 'z core_state_scheme handler \<Rightarrow> 'z core_state_scheme handler" where
  "Auth pr c next r st =
     (if rq_length r > int maxRequestBodyBytes
      then Returns (WriteError pr 413 (CodeTooLarge pr) ''request body too large'', st)
      else
        (let sigHeader = rq_header r (SignatureHeader pr);
             tsHeader = rq_header r (TimestampHeader pr)
         in if sigHeader = [] \<or> tsHeader = [] then Returns (writeUnauthorized pr, st)
            else case read_limited maxRequestBodyBytes (rq_body r) of
                None \<Rightarrow> Returns (WriteError pr 413 (CodeTooLarge pr) ''request body too large'', st)
              | Some body \<Rightarrow>
                  (let sig = TrimPrefix sigHeader ''sha256='';
                       (ok, replay) = VerifySignatureWithTimestamp pr (st_now st) (co_apiKey c) (rq_method r) (rq_uri r)
                                        sig tsHeader body (co_skew c) (CheckAndInsert (st_replay_now st)) (st_replay st);
                       st = st\<lparr>st_replay := replay\<rparr>
                   in if \<not> ok then Returns (writeUnauthorized pr, st)
                      else next (r\<lparr>rq_body := \<lparr>bs_data = body, bs_fails = False\<rparr>\<rparr>) st)))"

definition DrainGate :: "('p, 'i) protocol \<Rightarrow> 'z core_state_scheme handler \<Rightarrow> 'z core_state_scheme handler" where
  "DrainGate pr next r st =
     (if st_draining st then Returns (WriteError pr 503 (CodeDraining pr) ''backend is draining'', st)
      else next r st)"

definition AdminAuth :: "('p, 'i) protocol \<Rightarrow> ('s, 'b) Core \<Rightarrow> 'z core_state_scheme handler \<Rightarrow> 'z core_state_scheme handler" where
  "AdminAuth pr c next r st =
     (let bearer_ok =
        (if co_metricsToken c \<noteq> [] then
           (let (token, ok) = CutPrefix (rq_header r ''Authorization'') ''Bearer ''
            in ok \<and> token = co_metricsToken c)
         else False)
      in if bearer_ok then next r st else Auth pr c next r st)"

subsection \<open>Probes (health.go, revision.go, images.go)\<close>

definition workerImageRevisionTimeout :: duration where
  "workerImageRevisionTimeout = 500000000"

text \<open>\<open>context.WithTimeout\<close>: an earlier deadline of the parent stays.\<close>

definition with_timeout :: "instant \<Rightarrow> instant option \<Rightarrow> duration \<Rightarrow> instant" where
  "with_timeout now parent d =
     (case parent of None \<Rightarrow> time_Add now d | Some p \<Rightarrow> min p (time_Add now d))"

definition imageRevision :: "revision_hook \<Rightarrow> instant \<Rightarrow> instant option \<Rightarrow> string" where
  "imageRevision hook now parent =
     (case hook (with_timeout now parent workerImageRevisionTimeout) of
        Panics p \<Rightarrow> []
      | Returns revision \<Rightarrow> revision)"

definition HandleHealth :: "('b, 'i) protocol \<Rightarrow> ('z core_state_scheme, 'b) Core \<Rightarrow> 'z core_state_scheme handler" where
  "HandleHealth pr c r st =
     (let running = (case co_tracker c of None \<Rightarrow> 0 | Some count \<Rightarrow> count st);
          revision = (case co_workerImageRevision c of
              None \<Rightarrow> []
            | Some hook \<Rightarrow> imageRevision hook (st_now st) (rq_deadline r))
      in Returns (WriteJSON pr 200 (HealthResponse True running (co_maxConcurrent c) (co_build c) revision), st))"

definition HandleReadyz :: "('b, 'i) protocol \<Rightarrow> 'z core_state_scheme handler" where
  "HandleReadyz pr r st =
     (if st_draining st then Returns (WriteJSON pr 503 (ReadyResponse False ''draining''), st)
      else Returns (WriteJSON pr 200 (ReadyResponse True []), st))"

definition ImageRevisionLabel :: string where
  "ImageRevisionLabel = ''org.opencontainers.image.revision''"

type_synonym ImageLabeler = "instant \<Rightarrow> string \<Rightarrow> (string \<rightharpoonup> string) option outcome"

definition ImageRevisionHook :: "ImageLabeler option \<Rightarrow> string \<Rightarrow> revision_hook option" where
  "ImageRevisionHook labeler ref =
     (case labeler of
        None \<Rightarrow> None
      | Some lab \<Rightarrow>
          if ref = [] then None
          else Some (\<lambda>deadline. case lab deadline ref of
              Panics p \<Rightarrow> Panics []
            | Returns None \<Rightarrow> Returns []
            | Returns (Some labels) \<Rightarrow>
                Returns (TrimSpace (case labels ImageRevisionLabel of None \<Rightarrow> [] | Some v \<Rightarrow> v))))"

fun image_items :: "string list \<Rightarrow> ImageSummary list \<Rightarrow> ImageListItem list" where
  "image_items filters [] = []"
| "image_items filters (summary # summaries) =
     (let tags = matchingTags (is_Tags summary) filters
      in if tags = [] then image_items filters summaries
         else \<lparr>il_Tags = tags, il_Digests = is_Digests summary, il_Created = is_CreatedAt summary, il_Size = is_SizeBytes summary\<rparr>
              # image_items filters summaries)"

definition HandleImages :: "('b, ImageListItem) protocol \<Rightarrow> ('z core_state_scheme, 'b) Core \<Rightarrow> 'z core_state_scheme handler" where
  "HandleImages pr c r st =
     (case co_images c of
        None \<Rightarrow> Returns (WriteError pr 500 (CodeInternal pr) ''image lister not wired'', st)
      | Some list_images \<Rightarrow>
          (case list_images st of
             None \<Rightarrow> Returns (WriteError pr 502 (CodeUpstreamFailure pr) ''image list failed'', st)
           | Some summaries \<Rightarrow>
               Returns (WriteJSON pr 200 (ListImagesResponse True (image_items (co_imageListFilters c) summaries)), st)))"

subsection \<open>The contract of a middleware\<close>

text \<open>The request is handed to the next handler, whatever that is.\<close>

definition hands_over :: "('w handler \<Rightarrow> 'w handler) \<Rightarrow> request \<Rightarrow> 'w \<Rightarrow> bool" where
  "hands_over mw r st \<longleftrightarrow> (\<exists>r' st'. \<forall>next. mw next r st = next r' st')"

locale middleware =
  fixes mw :: "'w handler \<Rightarrow> 'w handler"
    and decide :: "request \<Rightarrow> 'w \<Rightarrow> (wcall list \<times> 'w) + (request \<times> 'w)"
  assumes mw_decides:
    "mw next r st = (case decide r st of Inl refusal \<Rightarrow> Returns refusal | Inr (r', st') \<Rightarrow> next r' st')"
begin

lemma refuses: "decide r st = Inl (calls, st') \<Longrightarrow> mw next r st = Returns (calls, st')"
  by (simp add: mw_decides)

lemma admits: "decide r st = Inr (r', st') \<Longrightarrow> mw next r st = next r' st'"
  by (simp add: mw_decides)

lemma hands_over_iff: "hands_over mw r st \<longleftrightarrow> \<not> isl (decide r st)"
proof (cases "decide r st")
  case (Inl refusal)
  then have "mw (\<lambda>r st. Panics x) r st \<noteq> Panics x" for x by (simp add: mw_decides)
  then show ?thesis using Inl by (fastforce simp: hands_over_def)
next
  case (Inr p)
  then show ?thesis by (cases p) (auto simp: hands_over_def mw_decides)
qed

lemma refusal_hides_next: "isl (decide r st) \<Longrightarrow> mw next r st = mw next' r st"
  by (auto simp: mw_decides split: sum.splits)

lemma panics_only_inside:
  "mw next r st = Panics x \<Longrightarrow> \<exists>r' st'. decide r st = Inr (r', st') \<and> next r' st' = Panics x"
  by (auto simp: mw_decides split: sum.splits)

end

definition decide_seq :: "(request \<Rightarrow> 'w \<Rightarrow> (wcall list \<times> 'w) + (request \<times> 'w)) \<Rightarrow>
    (request \<Rightarrow> 'w \<Rightarrow> (wcall list \<times> 'w) + (request \<times> 'w)) \<Rightarrow> request \<Rightarrow> 'w \<Rightarrow> (wcall list \<times> 'w) + (request \<times> 'w)" where
  "decide_seq d1 d2 r st = (case d1 r st of Inl refusal \<Rightarrow> Inl refusal | Inr (r', st') \<Rightarrow> d2 r' st')"

text \<open>Two middlewares on top of each other are a middleware.\<close>

locale middleware_pair = outer: middleware mw1 decide1 + inner: middleware mw2 decide2
  for mw1 :: "'w handler \<Rightarrow> 'w handler" and decide1 and mw2 :: "'w handler \<Rightarrow> 'w handler" and decide2

sublocale middleware_pair \<subseteq> stacked: middleware "\<lambda>next. mw1 (mw2 next)" "decide_seq decide1 decide2"
  by unfold_locales (auto simp: outer.mw_decides inner.mw_decides decide_seq_def split: sum.splits)

subsection \<open>What the middlewares decide\<close>

abbreviation oversized :: "request \<Rightarrow> bool" where
  "oversized r \<equiv> rq_length r > int maxRequestBodyBytes"

abbreviation unreadable :: "request \<Rightarrow> bool" where
  "unreadable r \<equiv> length (bs_data (rq_body r)) > maxRequestBodyBytes \<or> bs_fails (rq_body r)"

definition sig_of :: "('p, 'i) protocol \<Rightarrow> request \<Rightarrow> string" where
  "sig_of pr r = TrimPrefix (rq_header r (SignatureHeader pr)) ''sha256=''"

definition ts_of :: "('p, 'i) protocol \<Rightarrow> request \<Rightarrow> string" where
  "ts_of pr r = rq_header r (TimestampHeader pr)"

definition unsigned :: "('p, 'i) protocol \<Rightarrow> request \<Rightarrow> bool" where
  "unsigned pr r \<longleftrightarrow> rq_header r (SignatureHeader pr) = [] \<or> ts_of pr r = []"

definition verify_request :: "('p, 'i) protocol \<Rightarrow> ('s, 'b) Core \<Rightarrow> request \<Rightarrow> 'z core_state_scheme \<Rightarrow> bool \<times> ReplayCache" where
  "verify_request pr c r st =
     VerifySignatureWithTimestamp pr (st_now st) (co_apiKey c) (rq_method r) (rq_uri r) (sig_of pr r) (ts_of pr r)
       (bs_data (rq_body r)) (co_skew c) (CheckAndInsert (st_replay_now st)) (st_replay st)"

definition too_large :: "('p, 'i) protocol \<Rightarrow> wcall list" where
  "too_large pr = WriteError pr 413 (CodeTooLarge pr) ''request body too large''"

definition auth_decide :: "('p, 'i) protocol \<Rightarrow> ('s, 'b) Core \<Rightarrow> request \<Rightarrow> 'z core_state_scheme \<Rightarrow>
    (wcall list \<times> 'z core_state_scheme) + (request \<times> 'z core_state_scheme)" where
  "auth_decide pr c r st =
     (if oversized r then Inl (too_large pr, st)
      else if unsigned pr r then Inl (writeUnauthorized pr, st)
      else if unreadable r then Inl (too_large pr, st)
      else let st' = st\<lparr>st_replay := snd (verify_request pr c r st)\<rparr>
           in if fst (verify_request pr c r st) then Inr (r, st') else Inl (writeUnauthorized pr, st'))"

definition bearer_ok :: "('s, 'b) Core \<Rightarrow> request \<Rightarrow> bool" where
  "bearer_ok c r \<longleftrightarrow> co_metricsToken c \<noteq> [] \<and> rq_header r ''Authorization'' = ''Bearer '' @ co_metricsToken c"

definition admin_decide :: "('p, 'i) protocol \<Rightarrow> ('s, 'b) Core \<Rightarrow> request \<Rightarrow> 'z core_state_scheme \<Rightarrow>
    (wcall list \<times> 'z core_state_scheme) + (request \<times> 'z core_state_scheme)" where
  "admin_decide pr c r st = (if bearer_ok c r then Inr (r, st) else auth_decide pr c r st)"

definition drain_decide :: "('p, 'i) protocol \<Rightarrow> request \<Rightarrow> 'z core_state_scheme \<Rightarrow>
    (wcall list \<times> 'z core_state_scheme) + (request \<times> 'z core_state_scheme)" where
  "drain_decide pr r st =
     (if st_draining st then Inl (WriteError pr 503 (CodeDraining pr) ''backend is draining'', st) else Inr (r, st))"

text \<open>The re-injected body is the body that was read, so the next handler gets the very same request.\<close>

lemma reinject_same: "\<not> bs_fails (rq_body r) \<Longrightarrow> r\<lparr>rq_body := \<lparr>bs_data = bs_data (rq_body r), bs_fails = False\<rparr>\<rparr> = r"
  by simp

lemma Auth_decides:
  "Auth pr c next r st = (case auth_decide pr c r st of Inl refusal \<Rightarrow> Returns refusal | Inr (r', st') \<Rightarrow> next r' st')"
  by (simp add: Auth_def auth_decide_def read_limited_def unsigned_def ts_of_def sig_of_def too_large_def
      verify_request_def reinject_same Let_def split: prod.split)

lemma bearer_ok_iff:
  "bearer_ok c r \<longleftrightarrow> co_metricsToken c \<noteq> [] \<and>
     (let (token, ok) = CutPrefix (rq_header r ''Authorization'') ''Bearer '' in ok \<and> token = co_metricsToken c)"
  using CutPrefix_True_iff [of "rq_header r ''Authorization''" "''Bearer ''" "co_metricsToken c"]
  by (auto simp: bearer_ok_def split: prod.splits)

interpretation auth: middleware "Auth pr c" "auth_decide pr c" for pr c
  by unfold_locales (rule Auth_decides)

interpretation drain: middleware "DrainGate pr" "drain_decide pr" for pr
  by unfold_locales (simp add: DrainGate_def drain_decide_def)

interpretation admin: middleware "AdminAuth pr c" "admin_decide pr c" for pr c
  by unfold_locales (simp add: AdminAuth_def admin_decide_def bearer_ok_iff Auth_decides)

interpretation auth_drain: middleware_pair "Auth pr c" "auth_decide pr c" "DrainGate pr" "drain_decide pr" for pr c
  by unfold_locales

subsection \<open>Executions of a core\<close>

text \<open>
  What \<open>contextmatrix-protocol\<close> documents of its signature check: a request is accepted only if its
  timestamp, read by \<open>stamp\<close>, lies between \<open>now - skew\<close> and \<open>now + DefaultMaxFutureSkew\<close> and the replay
  cache has just recorded the pair as fresh; a rejected request leaves the cache as it was or after one call of
  \<open>CheckAndInsert\<close> for its own pair. The instant \<open>now\<close> is its own reading of the clock; \<open>check\<close> is the method of the cache.
\<close>

definition verify_contract :: "('p, 'i) protocol \<Rightarrow> (string \<Rightarrow> instant option) \<Rightarrow> bool" where
  "verify_contract pr stamp \<longleftrightarrow>
     (\<forall>now key meth uri sig ts body skew check c ok c'.
        VerifySignatureWithTimestamp pr now key meth uri sig ts body skew check c = (ok, c') \<longrightarrow>
          (ok \<longrightarrow> check ts sig c = (False, c') \<and>
            (\<exists>u. stamp ts = Some u \<and> now - skew \<le> u \<and> u \<le> now + DefaultMaxFutureSkew pr)) \<and>
          (\<not> ok \<longrightarrow> c' = c \<or> c' = snd (check ts sig c)))"

definition keeps_replay :: "'z core_state_scheme handler \<Rightarrow> bool" where
  "keeps_replay next \<longleftrightarrow> (\<forall>r st. st_replay (outcome_state (next r st)) = st_replay st)"

text \<open>
  A request comes with two readings of the clock, the one of the signature check and the later one of the replay cache. Events are in the order
  in which they get the mutex of the cache.
\<close>

datatype core_event = Request instant instant request | JanitorSweep instant | BeginDrain

fun event_time :: "core_event \<Rightarrow> instant option" where
  "event_time (Request v t r) = Some t"
| "event_time (JanitorSweep t) = Some t"
| "event_time BeginDrain = None"

abbreviation at_clocks :: "instant \<Rightarrow> instant \<Rightarrow> 'z core_state_scheme \<Rightarrow> 'z core_state_scheme" where
  "at_clocks v t st \<equiv> st\<lparr>st_now := v, st_replay_now := t\<rparr>"

fun core_step :: "('p, 'i) protocol \<Rightarrow> ('s, 'b) Core \<Rightarrow> 'z core_state_scheme handler \<Rightarrow> core_event \<Rightarrow>
    'z core_state_scheme \<Rightarrow> 'z core_state_scheme" where
  "core_step pr c next (Request v t r) st = outcome_state (Auth pr c next r (at_clocks v t st))"
| "core_step pr c next (JanitorSweep t) st = st\<lparr>st_replay_now := t, st_replay := sweep t (st_replay st)\<rparr>"
| "core_step pr c next BeginDrain st = st\<lparr>st_draining := True\<rparr>"

definition core_run :: "('p, 'i) protocol \<Rightarrow> ('s, 'b) Core \<Rightarrow> 'z core_state_scheme handler \<Rightarrow> core_event list \<Rightarrow>
    'z core_state_scheme \<Rightarrow> 'z core_state_scheme" where
  "core_run pr c next evs st = fold (core_step pr c next) evs st"

fun request_count :: "core_event list \<Rightarrow> nat" where
  "request_count [] = 0"
| "request_count (Request v t r # evs) = Suc (request_count evs)"
| "request_count (_ # evs) = request_count evs"

abbreviation pair_key :: "('p, 'i) protocol \<Rightarrow> request \<Rightarrow> string" where
  "pair_key pr r \<equiv> replay_key (ts_of pr r) (sig_of pr r)"

lemma verify_contractD:
  assumes "verify_contract pr stamp" "verify_request pr c r st = (ok, rc)"
  shows "ok \<Longrightarrow> replay_check (st_replay_now st) (pair_key pr r) (st_replay st) = (False, rc)"
    and "ok \<Longrightarrow> \<exists>u. stamp (ts_of pr r) = Some u \<and> st_now st - co_skew c \<le> u \<and> u \<le> st_now st + DefaultMaxFutureSkew pr"
    and "rc = st_replay st \<or> rc = snd (replay_check (st_replay_now st) (pair_key pr r) (st_replay st))"
proof -
  let ?check = "CheckAndInsert (st_replay_now st)"
  have *: "(ok \<longrightarrow> ?check (ts_of pr r) (sig_of pr r) (st_replay st) = (False, rc) \<and>
        (\<exists>u. stamp (ts_of pr r) = Some u \<and> st_now st - co_skew c \<le> u \<and> u \<le> st_now st + DefaultMaxFutureSkew pr)) \<and>
      (\<not> ok \<longrightarrow> rc = st_replay st \<or> rc = snd (?check (ts_of pr r) (sig_of pr r) (st_replay st)))"
    using assms unfolding verify_contract_def verify_request_def by blast
  then show "ok \<Longrightarrow> replay_check (st_replay_now st) (pair_key pr r) (st_replay st) = (False, rc)"
    by (simp add: CheckAndInsert_def)
  show "ok \<Longrightarrow> \<exists>u. stamp (ts_of pr r) = Some u \<and> st_now st - co_skew c \<le> u \<and> u \<le> st_now st + DefaultMaxFutureSkew pr"
    using * by blast
  show "rc = st_replay st \<or> rc = snd (replay_check (st_replay_now st) (pair_key pr r) (st_replay st))"
    using * by (cases ok) (auto simp: CheckAndInsert_def prod_eq_iff)
qed

lemma auth_decide_admit:
  "auth_decide pr c r st = Inr (r', st') \<longleftrightarrow>
     \<not> oversized r \<and> \<not> unsigned pr r \<and> \<not> unreadable r \<and> r' = r \<and>
     verify_request pr c r st = (True, st_replay st') \<and> st' = st\<lparr>st_replay := snd (verify_request pr c r st)\<rparr>"
  by (auto simp: auth_decide_def Let_def prod_eq_iff split: if_splits)

lemma admitted_verify: "hands_over (Auth pr c) r st \<Longrightarrow> fst (verify_request pr c r st)"
  by (auto simp: auth.hands_over_iff auth_decide_def Let_def split: if_splits)

lemma Auth_replay:
  assumes "verify_contract pr stamp" "keeps_replay next"
  shows "st_replay (outcome_state (Auth pr c next r st)) \<in>
    {st_replay st, snd (replay_check (st_replay_now st) (pair_key pr r) (st_replay st))}"
  using verify_contractD(3) [OF assms(1) prod.collapse [symmetric], of c r st] assms(2)
  by (auto simp: Auth_decides auth_decide_def Let_def keeps_replay_def)

lemma Auth_replay_admitted:
  assumes "hands_over (Auth pr c) r (at_clocks v t st)" "keeps_replay next"
  shows "st_replay (core_step pr c next (Request v t r) st) = snd (verify_request pr c r (at_clocks v t st))"
  using assms
  by (auto simp: Auth_decides auth.hands_over_iff auth_decide_def Let_def keeps_replay_def split: if_splits)

text \<open>What an execution does to the replay cache is a sequence of cache steps: at most one check per
request, for its own pair and at its own time, and the janitor's sweeps.\<close>

lemma core_run_cache_steps:
  assumes "verify_contract pr stamp" "keeps_replay next"
  shows "\<exists>steps. st_replay (core_run pr c next evs st) = run_steps replay_check replay_maintain steps (st_replay st) \<and>
    check_count steps \<le> request_count evs \<and>
    (\<forall>m. Maint m \<in> set steps \<longrightarrow> (\<exists>t. m = Sweep t \<and> JanitorSweep t \<in> set evs)) \<and>
    (\<forall>t k. Check t k \<in> set steps \<longrightarrow> (\<exists>v r. Request v t r \<in> set evs \<and> k = pair_key pr r))"
    (is "\<exists>steps. ?P steps evs st")
proof (induction evs arbitrary: st)
  case Nil
  then show ?case by (intro exI [of _ "[]"]) (simp add: core_run_def)
next
  case (Cons ev evs)
  let ?st = "core_step pr c next ev st"
  obtain steps where steps: "?P steps evs ?st" using Cons.IH by blast
  have run: "core_run pr c next (ev # evs) st = core_run pr c next evs ?st" by (simp add: core_run_def)
  show ?case
  proof (cases ev)
    case (Request v t r)
    have "st_replay ?st \<in> {st_replay st, snd (replay_check t (pair_key pr r) (st_replay st))}"
      using Auth_replay [OF assms, of c r "at_clocks v t st"] Request by simp
    then consider "st_replay ?st = st_replay st" | "st_replay ?st = snd (replay_check t (pair_key pr r) (st_replay st))"
      by blast
    then show ?thesis
    proof cases
      case 1
      then show ?thesis using steps run Request by (intro exI [of _ steps]) (auto; blast)
    next
      case 2
      then show ?thesis using steps run Request by (intro exI [of _ "Check t (pair_key pr r) # steps"]) (auto; blast)
    qed
  next
    case (JanitorSweep t)
    then show ?thesis using steps run by (intro exI [of _ "Maint (Sweep t) # steps"]) auto
  next
    case BeginDrain
    then show ?thesis using steps run by (intro exI [of _ steps]) auto
  qed
qed

lemma core_run_invar:
  assumes "verify_contract pr stamp" "keeps_replay next" "replay_ok (st_replay st)"
  shows "replay_ok (st_replay (core_run pr c next evs st))"
    and "lasting (rc_ttl (st_replay st)) (rc_ttl (st_replay (core_run pr c next evs st)))"
    and "rc_capacity (st_replay (core_run pr c next evs st)) = rc_capacity (st_replay st)"
  using core_run_cache_steps [OF assms(1,2), of c evs st]
    replay.run_invar [OF assms(3)] replay.run_ttl [OF assms(3)] replay.run_cap [OF assms(3)] by auto

text \<open>The replay window a constructed core has: the two clock skews, or no expiry.\<close>

lemma NewCore_window:
  assumes "NewCore pr cfg st0 = (c, st)" "case cf_Replay cfg of None \<Rightarrow> True | Some rc \<Rightarrow> replay_ok rc"
    and "0 < co_skew c" "0 \<le> DefaultMaxFutureSkew pr" "co_skew c + DefaultMaxFutureSkew pr \<le> max_int64"
  shows "replay_ok (st_replay st)" "lasting (co_skew c + DefaultMaxFutureSkew pr) (rc_ttl (st_replay st))"
proof -
  have c: "co_skew c = (if cf_Skew cfg = 0 then DefaultMaxClockSkew pr else cf_Skew cfg)"
    using assms(1) by (auto simp: NewCore_def Let_def)
  have st: "st_replay st = (case cf_Replay cfg of
      None \<Rightarrow> NewReplayCache (wrap64 (co_skew c + DefaultMaxFutureSkew pr)) 4096 []
    | Some rc \<Rightarrow> ensureMinTTL (wrap64 (co_skew c + DefaultMaxFutureSkew pr)) rc)"
    using assms(1) unfolding c by (auto simp: NewCore_def Let_def)
  have w: "wrap64 (co_skew c + DefaultMaxFutureSkew pr) = co_skew c + DefaultMaxFutureSkew pr"
    using assms(3-5) by (intro wrap64_id) auto
  show "replay_ok (st_replay st)"
    using assms(2) unfolding st by (auto simp: NewReplayCache_ok split: option.splits)
  show "lasting (co_skew c + DefaultMaxFutureSkew pr) (rc_ttl (st_replay st))"
    using assms(3,4) unfolding st w by (auto simp: lasting_def ensureMinTTL_def split: option.splits)
qed

text \<open>
  A pair recorded at \<open>t0\<close> is rejected by the signature check at \<open>t1\<close>, whatever ran in between, as long as the cache keeps pairs for the two skews and the time
  by which the second check of the cache lags more behind than the first.
\<close>

lemma recorded_pair_rejected:
  assumes "verify_contract pr stamp" "keeps_replay next" "replay_ok (st_replay st)"
    and "lasting w (rc_ttl (st_replay st))" "0 < w" "co_skew c + DefaultMaxFutureSkew pr + (t1 - v1) - (t0 - v0) \<le> w"
    and "hands_over (Auth pr c) r0 (at_clocks v0 t0 st)" "roomy (rc_capacity (st_replay st)) (request_count evs)"
    and "\<forall>ev \<in> set evs. \<forall>t. event_time ev = Some t \<longrightarrow> t \<le> t1" "JanitorSweep t1 \<notin> set evs"
    and "ts_of pr r1 = ts_of pr r0" "sig_of pr r1 = sig_of pr r0"
  shows "\<not> hands_over (Auth pr c) r1 (at_clocks v1 t1 (core_run pr c next (Request v0 t0 r0 # evs) st))"
proof
  let ?k = "pair_key pr r0"
  let ?st1 = "core_step pr c next (Request v0 t0 r0) st" and ?ttl = "rc_ttl (st_replay st)"
  let ?st2 = "core_run pr c next (Request v0 t0 r0 # evs) st"
  assume admit: "hands_over (Auth pr c) r1 (at_clocks v1 t1 ?st2)"
  obtain rc where v0: "verify_request pr c r0 (at_clocks v0 t0 st) = (True, rc)"
    using admitted_verify [OF assms(7)] by (metis prod.collapse)
  obtain rc' where v1: "verify_request pr c r1 (at_clocks v1 t1 ?st2) = (True, rc')"
    using admitted_verify [OF admit] by (metis prod.collapse)
  have fresh: "replay_check t0 ?k (st_replay st) = (False, rc)"
    using verify_contractD(1) [OF assms(1) v0] by simp
  have "v1 - v0 \<le> co_skew c + DefaultMaxFutureSkew pr"
    using verify_contractD(2) [OF assms(1) v0] verify_contractD(2) [OF assms(1) v1] assms(11) by auto
  then have "t1 - t0 \<le> w" using assms(6) by simp
  then have win: "t \<le> t1 \<Longrightarrow> ?ttl \<le> 0 \<or> t - t0 \<le> ?ttl" for t
    using assms(4) by (auto simp: lasting_def)
  have live: "live ?ttl t t0" if "t \<le> t1" for t
    using win [OF that] live_within [of ?ttl t t0] by (auto simp: live_def)
  have st: "st_replay ?st1 = rc" "?st2 = core_run pr c next evs ?st1"
    using Auth_replay_admitted [OF assms(7,2)] v0 by (simp_all add: core_run_def)
  obtain steps where steps: "st_replay ?st2 = run_steps replay_check replay_maintain steps rc"
      "check_count steps \<le> request_count evs"
      "\<forall>m. Maint m \<in> set steps \<longrightarrow> (\<exists>t. m = Sweep t \<and> JanitorSweep t \<in> set evs)"
      "\<forall>t k. Check t k \<in> set steps \<longrightarrow> (\<exists>v r. Request v t r \<in> set evs \<and> k = pair_key pr r)"
    using core_run_cache_steps [OF assms(1,2), of c evs ?st1] unfolding st by blast
  have sweeps: "replay_harmless ?ttl m ?k t0" if m: "Maint m \<in> set steps" for m
  proof -
    obtain t where t: "m = Sweep t" "JanitorSweep t \<in> set evs" using steps(3) m by blast
    then have "t < t1" using assms(9,10) by (metis event_time.simps(2) order.not_eq_order_implies_strict)
    then show ?thesis using win [of t1] t(1) by auto
  qed
  have checks: "live ?ttl t t0" if "Check t ?k \<in> set steps" for t
    using steps(4) that assms(9) live [of t] by (metis event_time.simps(1))
  have "roomy (rc_capacity (st_replay st)) (check_count steps)"
    using assms(8) steps(2) by (auto simp: roomy_def)
  then have "fst (replay_check t1 ?k (st_replay ?st2))"
    using replay.window_guarantee(1) [OF assms(3) fresh _ sweeps checks live [OF order_refl]] steps(1)
    by (metis fst_conv)
  then show False
    using verify_contractD(1) [OF assms(1) v1] assms(11,12) by simp
qed

text \<open>What \<open>Auth\<close> does with a request it does not hand over.\<close>

lemma not_handed_over:
  assumes "\<not> hands_over (Auth pr c) r st"
  shows "\<exists>refusal st'. refusal \<in> {writeUnauthorized pr, WriteError pr 413 (CodeTooLarge pr) ''request body too large''} \<and>
    (\<forall>h. Auth pr c h r st = Returns (refusal, st'))"
  using assms by (auto simp: auth.hands_over_iff Auth_decides auth_decide_def too_large_def Let_def split: if_splits)

text \<open>How long the cache of a new core keeps a pair when it was configured for more than the two skews.\<close>

lemma NewCore_keeps:
  assumes "NewCore pr cfg st0 = (c, st)" "case cf_Replay cfg of None \<Rightarrow> True | Some rc \<Rightarrow> replay_ok rc"
    and "0 < co_skew c" "0 \<le> DefaultMaxFutureSkew pr" "co_skew c + DefaultMaxFutureSkew pr \<le> max_int64"
    and "extra \<le> 0 \<or> (\<exists>rc. cf_Replay cfg = Some rc \<and> (rc_ttl rc \<le> 0 \<or> co_skew c + DefaultMaxFutureSkew pr + extra \<le> rc_ttl rc))"
  shows "lasting (co_skew c + DefaultMaxFutureSkew pr + max 0 extra) (rc_ttl (st_replay st))"
proof (cases "extra \<le> 0")
  case True
  then show ?thesis using NewCore_window(2) [OF assms(1-5)] by simp
next
  case False
  then obtain rc where rc: "cf_Replay cfg = Some rc" "rc_ttl rc \<le> 0 \<or> co_skew c + DefaultMaxFutureSkew pr + extra \<le> rc_ttl rc" using assms(6) by blast
  obtain floor where "st_replay st = ensureMinTTL floor rc" using assms(1) rc(1) by (auto simp: NewCore_def Let_def)
  then show ?thesis using rc(2) assms(3,4) False by (auto simp: lasting_def ensureMinTTL_def)
qed

subsection \<open>Properties\<close>

text \<open>C1: A signed request is accepted at most once, end to end. Take a core made by \<open>NewCore\<close>, let any
requests, janitor sweeps and a drain happen, and let \<open>Auth\<close> hand a request to its handler, its timestamp checked at \<open>v0\<close> and its pair recorded at \<open>t0\<close>. Then
after any further events up to \<open>t1\<close>, \<open>Auth\<close> answers a request with the same timestamp and signature headers, checked at \<open>v1\<close> and \<open>t1\<close>, with its fixed 401 or 413 whatever
the handler is: while its timestamp is inside the clock skew the cache still holds
the pair, and afterwards the timestamp is stale. The conditions: skews that
do not overflow; fewer requests in between than the capacity; no janitor sweep at the very instant \<open>t1\<close>, at which a sweep and the check disagree; and the cache reads its clock
for the second request no longer after the timestamp check than it did for the first, unless it was configured to keep pairs longer than the two skews by the difference.\<close>

theorem auth_once:
  assumes "verify_contract pr stamp" "keeps_replay next"
    and "NewCore pr cfg st0 = (c, st)" "case cf_Replay cfg of None \<Rightarrow> True | Some rc \<Rightarrow> replay_ok rc"
    and "0 < co_skew c" "0 \<le> DefaultMaxFutureSkew pr" "co_skew c + DefaultMaxFutureSkew pr \<le> max_int64"
    and "hands_over (Auth pr c) r0 (at_clocks v0 t0 (core_run pr c next before st))"
    and "roomy (rc_capacity (st_replay st)) (request_count evs)"
    and "\<forall>ev \<in> set evs. \<forall>t. event_time ev = Some t \<longrightarrow> t \<le> t1" "JanitorSweep t1 \<notin> set evs"
    and "ts_of pr r1 = ts_of pr r0" "sig_of pr r1 = sig_of pr r0"
    and "(t1 - v1) - (t0 - v0) \<le> 0 \<or> (\<exists>rc. cf_Replay cfg = Some rc \<and>
      (rc_ttl rc \<le> 0 \<or> co_skew c + DefaultMaxFutureSkew pr + ((t1 - v1) - (t0 - v0)) \<le> rc_ttl rc))"
  shows "\<exists>refusal st'. refusal \<in> {writeUnauthorized pr, WriteError pr 413 (CodeTooLarge pr) ''request body too large''} \<and>
    (\<forall>h. Auth pr c h r1 (at_clocks v1 t1 (core_run pr c next (before @ Request v0 t0 r0 # evs) st)) = Returns (refusal, st'))"
proof -
  let ?st = "core_run pr c next before st" and ?w = "co_skew c + DefaultMaxFutureSkew pr + max 0 ((t1 - v1) - (t0 - v0))"
  note run = core_run_invar [OF assms(1,2) NewCore_window(1) [OF assms(3-7)], of c before]
  have split: "core_run pr c next (before @ Request v0 t0 r0 # evs) st = core_run pr c next (Request v0 t0 r0 # evs) ?st"
    by (simp add: core_run_def)
  have "0 < ?w" "co_skew c + DefaultMaxFutureSkew pr + (t1 - v1) - (t0 - v0) \<le> ?w" using assms(5,6) by simp_all
  then show ?thesis
    using recorded_pair_rejected [OF assms(1,2) run(1) lasting_trans [OF NewCore_keeps [OF assms(3-7,14)] run(2)] _ _ assms(8) _ assms(10-13)]
      assms(9) run(3) unfolding split by (intro not_handed_over) simp
qed

text \<open>A concrete wire contract for the witnesses: the signature is the API key itself, every
timestamp is read as the instant 100, and responses are encoded as a fixed string.\<close>

definition sample_protocol :: "(nat BuildInfo, ImageListItem) protocol" where
  "sample_protocol =
     \<lparr>SignatureHeader = ''X-Sig'', TimestampHeader = ''X-Ts'', CodeUnauthorized = ''unauthorized'',
      CodeTooLarge = ''too_large'', CodeDraining = ''draining'', CodeInternal = ''internal'',
      CodeInvalidJSON = ''invalid_json'', CodeUpstreamFailure = ''upstream'',
      DefaultMaxClockSkew = 300, DefaultMaxFutureSkew = 30,
      VerifySignatureWithTimestamp = (\<lambda>now key meth uri sig ts body skew check c.
        if sig = key \<and> now - skew \<le> 100 \<and> 100 \<le> now + 30
        then (let (dup, c') = check ts sig c in (\<not> dup, c')) else (False, c)),
      Marshal = (\<lambda>_. Some ''{}'')\<rparr>"

definition sample_config :: "(core_state, nat BuildInfo) CoreConfig" where
  "sample_config =
     \<lparr>cf_APIKey = ''ab'', cf_MetricsToken = ''tok'', cf_Skew = 0, cf_Replay = None, cf_Draining = None,
      cf_KeepaliveInterval = 0, cf_Metrics = None, cf_LogsFilterParam = ''project'', cf_Tracker = None,
      cf_MaxConcurrent = 4, cf_Images = None, cf_ImageListFilters = [''worker''], cf_Build = \<lparr>Changes = None\<rparr>,
      cf_WorkerImageRevision = None\<rparr>"

definition sample_handler :: "core_state handler" where
  "sample_handler r st = Returns ([WriteHeader 202], st)"

lemma sample_contract: "verify_contract sample_protocol (\<lambda>_. Some 100)"
  by (auto simp: verify_contract_def sample_protocol_def Let_def split: if_splits prod.splits)

lemmas sample_defs = sample_protocol_def sample_config_def sample_state_def sample_request_def sample_handler_def

text \<open>The signature is checked at 90 and the pair recorded at 91; replays at 390, and at 400 just after its timestamp check.\<close>

theorem auth_once_witness:
  "\<exists>refusal st'. refusal \<in> {writeUnauthorized sample_protocol,
      WriteError sample_protocol 413 (CodeTooLarge sample_protocol) ''request body too large''} \<and>
    (\<forall>h. Auth sample_protocol (fst (NewCore sample_protocol sample_config sample_state)) h sample_request
      (at_clocks 399 400 (core_run sample_protocol (fst (NewCore sample_protocol sample_config sample_state)) sample_handler
        ([] @ Request 90 91 sample_request # [JanitorSweep 380, Request 390 390 sample_request])
        (snd (NewCore sample_protocol sample_config sample_state)))) = Returns (refusal, st'))"
proof (rule auth_once [OF sample_contract _ prod.collapse [symmetric]])
  show "keeps_replay sample_handler" by (simp add: keeps_replay_def sample_handler_def)
  show "hands_over (Auth sample_protocol (fst (NewCore sample_protocol sample_config sample_state))) sample_request
      (at_clocks 90 91 (core_run sample_protocol (fst (NewCore sample_protocol sample_config sample_state)) sample_handler []
        (snd (NewCore sample_protocol sample_config sample_state))))"
    by (simp add: auth.hands_over_iff auth_decide_def core_run_def verify_request_def NewCore_def sample_defs Let_def
        maxRequestBodyBytes_def unsigned_def ts_of_def sig_of_def TrimPrefix_def HasPrefix_def CheckAndInsert_def
        replay_check_absent case_prod_beta)
  show "roomy (rc_capacity (st_replay (snd (NewCore sample_protocol sample_config sample_state))))
      (request_count [JanitorSweep 380, Request 390 390 sample_request])"
    by (simp add: NewCore_def sample_defs Let_def roomy_def)
qed (auto simp: NewCore_def sample_defs Let_def)

text \<open>C27: \<open>Auth\<close> has three answers. Too large a request gets the 413, changes nothing and never reaches the signature
check. Every other refusal is one and the same fixed 401, whatever the reason, and changes nothing
but the replay cache; a request without the headers changes nothing at all. Otherwise the next handler runs on the very same
request, its body readable again, and only after the signature check accepted it.\<close>

theorem Auth_three_ways:
  "(oversized r \<or> \<not> unsigned pr r \<and> unreadable r) \<and>
     Auth pr c next r st = Returns (WriteError pr 413 (CodeTooLarge pr) ''request body too large'', st) \<or>
   \<not> oversized r \<and> unsigned pr r \<and> Auth pr c next r st = Returns (writeUnauthorized pr, st) \<or>
   \<not> oversized r \<and> \<not> unsigned pr r \<and> \<not> unreadable r \<and>
     (\<exists>rc. verify_request pr c r st = (False, rc) \<and>
           Auth pr c next r st = Returns (writeUnauthorized pr, st\<lparr>st_replay := rc\<rparr>) \<or>
           verify_request pr c r st = (True, rc) \<and> Auth pr c next r st = next r (st\<lparr>st_replay := rc\<rparr>))"
  by (cases "verify_request pr c r st"; cases "fst (verify_request pr c r st)")
    (auto simp: auth.mw_decides auth_decide_def too_large_def Let_def)

text \<open>\<open>AdminAuth\<close> accepts exactly the header \<open>Bearer\<close>, one space and the configured token, and never
when no token is configured; in every other case it is \<open>Auth\<close>, refusals included.\<close>

theorem AdminAuth_bearer:
  "AdminAuth pr c next r st =
     (if co_metricsToken c \<noteq> [] \<and> rq_header r ''Authorization'' = ''Bearer '' @ co_metricsToken c
      then next r st else Auth pr c next r st)"
  by (simp add: admin.mw_decides admin_decide_def auth.mw_decides bearer_ok_def)

text \<open>While the backend drains, the readiness probe answers 503 and the drain gate answers 503 without
running the handler; otherwise the probe answers 200 and the gate is transparent. Neither changes the state.\<close>

theorem drain_consistent:
  assumes "\<forall>v. Marshal pr v \<noteq> None"
  shows "\<exists>ready. HandleReadyz pr r st = Returns (ready, st) \<and> client_status ready = (if st_draining st then 503 else 200) \<and>
    (if st_draining st
     then \<exists>calls. DrainGate pr next r st = Returns (calls, st) \<and> client_status calls = 503
     else DrainGate pr next r st = next r st)"
proof -
  have "client_status (WriteJSON pr status v) = status" if "200 \<le> status" for status v
    using assms that by (intro WriteJSON_status_ok) (auto simp: informational_def)
  then show ?thesis by (simp add: HandleReadyz_def DrainGate_def WriteError_def)
qed

theorem drain_consistent_witness:
  "\<exists>calls. DrainGate sample_protocol sample_handler sample_request (sample_state\<lparr>st_draining := True\<rparr>) =
      Returns (calls, sample_state\<lparr>st_draining := True\<rparr>) \<and> client_status calls = 503"
proof -
  have "\<forall>v. Marshal sample_protocol v \<noteq> None" by (simp add: sample_protocol_def)
  from drain_consistent [OF this, of sample_request "sample_state\<lparr>st_draining := True\<rparr>" sample_handler]
  show ?thesis by auto
qed

lemma image_items_eq:
  "image_items filters summaries =
     map (\<lambda>s. \<lparr>il_Tags = filter (\<lambda>t. \<exists>f \<in> set filters. Contains t f) (is_Tags s), il_Digests = is_Digests s,
               il_Created = is_CreatedAt s, il_Size = is_SizeBytes s\<rparr>)
       (filter (\<lambda>s. \<exists>t \<in> set (is_Tags s). \<exists>f \<in> set filters. Contains t f) summaries)"
  by (induction summaries) (auto simp: matchingTags_eq filter_empty_conv Let_def)

text \<open>The image listing shows, in the lister's order, exactly the images with a tag that contains one of the configured
substrings, each with exactly its matching tags in order and its other fields unchanged; a lister error is a 502.\<close>

theorem HandleImages_listing:
  assumes "co_images c = Some list_images"
  shows "HandleImages pr c r st = Returns
    ((case list_images st of
        None \<Rightarrow> WriteError pr 502 (CodeUpstreamFailure pr) ''image list failed''
      | Some summaries \<Rightarrow> WriteJSON pr 200 (ListImagesResponse True
          (map (\<lambda>s. \<lparr>il_Tags = filter (\<lambda>t. \<exists>f \<in> set (co_imageListFilters c). Contains t f) (is_Tags s),
                     il_Digests = is_Digests s, il_Created = is_CreatedAt s, il_Size = is_SizeBytes s\<rparr>)
            (filter (\<lambda>s. \<exists>t \<in> set (is_Tags s). \<exists>f \<in> set (co_imageListFilters c). Contains t f) summaries)))), st)"
  using assms by (simp add: HandleImages_def image_items_eq split: option.split)

definition sample_images :: "(core_state, nat BuildInfo) Core" where
  "sample_images = (fst (NewCore sample_protocol sample_config sample_state))
     \<lparr>co_images := Some (\<lambda>_. Some
        [\<lparr>is_Tags = [''base:1''], is_Digests = [], is_CreatedAt = 1, is_SizeBytes = 2\<rparr>,
         \<lparr>is_Tags = [''base:2'', ''worker:2''], is_Digests = [''d''], is_CreatedAt = 3, is_SizeBytes = 4\<rparr>])\<rparr>"

theorem HandleImages_listing_witness:
  "HandleImages sample_protocol sample_images sample_request sample_state = Returns
    (WriteJSON sample_protocol 200 (ListImagesResponse True
       [\<lparr>il_Tags = [''worker:2''], il_Digests = [''d''], il_Created = 3, il_Size = 4\<rparr>]), sample_state)"
  using HandleImages_listing [of sample_images _ sample_protocol sample_request sample_state]
  by (simp add: sample_images_def NewCore_def sample_config_def Let_def HasPrefix_def)

text \<open>The health probe always answers, also when the revision hook panics: the answer has the
tracker's count, the build information and a revision that is empty when there is no hook or
the hook panicked. The hook runs with a deadline at most 500 ms away and not after that of the request.
A core made by \<open>NewCore\<close> never reports an absent change history.\<close>

theorem HandleHealth_answers:
  assumes "NewCore pr cfg st0 = (c, st1)"
  shows "\<exists>running revision.
    HandleHealth pr c r st = Returns (WriteJSON pr 200 (HealthResponse True running (cf_MaxConcurrent cfg) (co_build c) revision), st) \<and>
    running = (case cf_Tracker cfg of None \<Rightarrow> 0 | Some count \<Rightarrow> count st) \<and> Changes (co_build c) \<noteq> None \<and>
    (case cf_WorkerImageRevision cfg of
       None \<Rightarrow> revision = []
     | Some hook \<Rightarrow> (\<exists>deadline. deadline \<le> st_now st + 500000000 \<and>
         (case rq_deadline r of None \<Rightarrow> True | Some p \<Rightarrow> deadline \<le> p) \<and>
         (hook deadline = Returns revision \<or> (\<exists>p. hook deadline = Panics p) \<and> revision = [])))"
proof -
  have c: "co_maxConcurrent c = cf_MaxConcurrent cfg" "co_tracker c = cf_Tracker cfg"
      "co_workerImageRevision c = cf_WorkerImageRevision cfg" "Changes (co_build c) \<noteq> None"
    using assms by (auto simp: NewCore_def Let_def)
  let ?d = "with_timeout (st_now st) (rq_deadline r) workerImageRevisionTimeout"
  have d: "?d \<le> st_now st + 500000000" "case rq_deadline r of None \<Rightarrow> True | Some p \<Rightarrow> ?d \<le> p"
    by (auto simp: with_timeout_def workerImageRevisionTimeout_def time_Add_def split: option.splits)
  let ?rev = "case cf_WorkerImageRevision cfg of None \<Rightarrow> [] | Some hook \<Rightarrow> imageRevision hook (st_now st) (rq_deadline r)"
  have "case cf_WorkerImageRevision cfg of None \<Rightarrow> ?rev = []
    | Some hook \<Rightarrow> hook ?d = Returns ?rev \<or> (\<exists>p. hook ?d = Panics p) \<and> ?rev = []"
    by (auto simp: imageRevision_def split: option.split outcome.split)
  then have "case cf_WorkerImageRevision cfg of None \<Rightarrow> ?rev = []
    | Some hook \<Rightarrow> (\<exists>deadline. deadline \<le> st_now st + 500000000 \<and>
         (case rq_deadline r of None \<Rightarrow> True | Some p \<Rightarrow> deadline \<le> p) \<and>
         (hook deadline = Returns ?rev \<or> (\<exists>p. hook deadline = Panics p) \<and> ?rev = []))"
    using d by (auto split: option.splits intro: exI [of _ ?d])
  then show ?thesis
    using c by (intro exI [of _ "case cf_Tracker cfg of None \<Rightarrow> 0 | Some count \<Rightarrow> count st"] exI [of _ ?rev])
      (simp add: HandleHealth_def Let_def)
qed

definition failing_config :: "(core_state, nat BuildInfo) CoreConfig" where
  "failing_config = sample_config\<lparr>cf_WorkerImageRevision := Some (\<lambda>deadline. Panics ''boom'')\<rparr>"

theorem HandleHealth_answers_witness:
  "HandleHealth sample_protocol (fst (NewCore sample_protocol failing_config sample_state)) sample_request sample_state =
     Returns (WriteJSON sample_protocol 200
       (HealthResponse True 0 4 (co_build (fst (NewCore sample_protocol failing_config sample_state))) []), sample_state)"
  using HandleHealth_answers [OF prod.collapse [symmetric], of sample_protocol failing_config sample_state sample_request sample_state]
  by (auto simp: failing_config_def sample_config_def)

text \<open>The revision hook reports the trimmed revision label of the image, the empty string when the
labels cannot be read or the label is absent, and there is no hook without a labeler or a reference.\<close>

theorem ImageRevisionHook_reads:
  "(ImageRevisionHook labeler ref = None \<longleftrightarrow> labeler = None \<or> ref = []) \<and>
   (\<forall>lab hook deadline. ImageRevisionHook (Some lab) ref = Some hook \<longrightarrow>
      (lab deadline ref = Returns None \<longrightarrow> hook deadline = Returns []) \<and>
      (\<forall>labels. lab deadline ref = Returns (Some labels) \<longrightarrow>
         (labels ImageRevisionLabel = None \<longrightarrow> hook deadline = Returns []) \<and>
         (\<forall>v. labels ImageRevisionLabel = Some v \<longrightarrow> hook deadline = Returns (TrimSpace v))))"
proof -
  have "TrimSpace [] = []" by (simp add: TrimSpace_def cut_runes.simps space_runes_def HasPrefix_def)
  then show ?thesis by (auto simp: ImageRevisionHook_def split: option.splits)
qed

theorem ImageRevisionHook_reads_witness:
  "the (ImageRevisionHook (Some (\<lambda>deadline ref. Returns (Some [ImageRevisionLabel \<mapsto> '' abc '']))) ''img'') 5 =
     Returns (TrimSpace '' abc '')"
  using ImageRevisionHook_reads [of None "''img''"]
  by (auto simp: ImageRevisionHook_def)

end
