(* ===== verification/Net_Url.thy ===== *)
theory Net_Url
  imports Kit_Prelude
begin

text \<open>
  The parts of \<open>net/url\<close>, \<open>net/netip\<close> and \<open>net\<close> the LLM proxy relies on: \<open>url.Parse\<close> with its scheme,
  authority, path, query and fragment, percent-decoding with the checks of each position, \<open>URL.Hostname\<close>,
  \<open>net.ParseIP\<close> with \<open>IsUnspecified\<close> and \<open>IsLoopback\<close>, and \<open>strings.EqualFold\<close> against an ASCII word.
  The lemmas say how a URL is composed: when a parsed URL is extended by a plain path, the
  result parses, and scheme, user and host stay.
\<close>

subsection \<open>Percent-decoding\<close>

datatype url_part = PathPart | QueryPart | FragmentPart | UserPart | HostPart | ZonePart

definition host_plain :: "char \<Rightarrow> bool" where
  "host_plain c \<longleftrightarrow> is_alnum c \<or> c \<in> set ''!$&()*+,;=:[]<>-_.~'' \<or> c = CHR 0x27 \<or> c = CHR 0x22"

definition is_host_part :: "url_part \<Rightarrow> bool" where
  "is_host_part m \<longleftrightarrow> m = HostPart \<or> m = ZonePart"

text \<open>A byte that may not stand for itself: in a host, ASCII that would have to be escaped.\<close>

definition bad_byte :: "url_part \<Rightarrow> char \<Rightarrow> bool" where
  "bad_byte m c \<longleftrightarrow> is_host_part m \<and> code_of c < 128 \<and> \<not> host_plain c"

definition escape_ok :: "url_part \<Rightarrow> nat \<Rightarrow> nat \<Rightarrow> bool" where
  "escape_ok m hi lo =
     (let v = 16 * hi + lo; percent = (hi = 2 \<and> lo = 5) in
      (m = HostPart \<longrightarrow> 8 \<le> hi \<or> percent) \<and>
      (m = ZonePart \<longrightarrow> percent \<or> v = 32 \<or> host_plain (char_of v)))"

fun unescape :: "url_part \<Rightarrow> string \<Rightarrow> string option" where
  "unescape m [] = Some []"
| "unescape m (c # s) =
     (if c = CHR ''%'' then
        (case s of
           h1 # h2 # s' \<Rightarrow>
             (case (unhex h1, unhex h2) of
                (Some hi, Some lo) \<Rightarrow>
                  if escape_ok m hi lo then map_option ((#) (char_of (16 * hi + lo))) (unescape m s') else None
              | _ \<Rightarrow> None)
         | _ \<Rightarrow> None)
      else if bad_byte m c then None
      else map_option ((#) c) (unescape m s))"

subsection \<open>IP addresses\<close>

fun split_on :: "char \<Rightarrow> string \<Rightarrow> string list" where
  "split_on d [] = [[]]"
| "split_on d (c # s) =
     (if c = d then [] # split_on d s
      else case split_on d s of f # fs \<Rightarrow> (c # f) # fs | [] \<Rightarrow> [[c]])"

definition octet :: "string \<Rightarrow> int option" where
  "octet s =
     (if s \<noteq> [] \<and> list_all is_digit s \<and> length s \<le> 3 \<and> (length s > 1 \<longrightarrow> hd s \<noteq> CHR ''0'') \<and> decimal_value s \<le> 255
      then Some (decimal_value s) else None)"

text \<open>An address is its eight 16-bit groups; an IPv4 address is the mapped one.\<close>

type_synonym groups = "int list"

definition parseIPv4 :: "string \<Rightarrow> (int \<times> int) option" where
  "parseIPv4 s =
     (case map octet (split_on CHR ''.'' s) of
        [Some a, Some b, Some c, Some d] \<Rightarrow> Some (256 * a + b, 256 * c + d)
      | _ \<Rightarrow> None)"

text \<open>
  The loop over the groups of an IPv6 address: \<open>done\<close> are the groups so far, \<open>gap\<close> is where the
  ellipsis was. A group is one to four hex digits; a dot starts an embedded IPv4 address.
\<close>

definition hex_value :: "string \<Rightarrow> int" where
  "hex_value s = foldl (\<lambda>n c. 16 * n + int (the (unhex c))) 0 s"

function ipv6_groups :: "string \<Rightarrow> groups \<Rightarrow> nat option \<Rightarrow> (groups \<times> nat option) option" where
  "ipv6_groups s don gap =
     (if length don \<ge> 8 then (if s = [] then Some (don, gap) else None)
      else
        (let digits = takeWhile (\<lambda>c. unhex c \<noteq> None) s; rest = drop (length digits) s in
         if digits = [] then None
         else if rest \<noteq> [] \<and> hd rest = CHR ''.'' then
           (if gap = None \<and> length don \<noteq> 6 \<or> length don > 6 \<or> length digits > 4 then None
            else case parseIPv4 s of None \<Rightarrow> None | Some (a, b) \<Rightarrow> Some (don @ [a, b], gap))
         else if length digits > 4 then None
         else
           (let don' = don @ [hex_value digits] in
            case rest of
              [] \<Rightarrow> Some (don', gap)
            | c # s1 \<Rightarrow>
                if c \<noteq> CHR '':'' \<or> s1 = [] then None
                else if hd s1 = CHR '':'' then
                  (if gap \<noteq> None then None
                   else if tl s1 = [] then Some (don', Some (length don'))
                   else ipv6_groups (tl s1) don' (Some (length don')))
                else ipv6_groups s1 don' gap)))"
  by pat_completeness auto
termination
  by (relation "measure (\<lambda>(s, don, gap). 8 - length don)") auto

declare ipv6_groups.simps [simp del]

definition expand_groups :: "groups \<times> nat option \<Rightarrow> groups option" where
  "expand_groups p =
     (case p of
        (gs, None) \<Rightarrow> if length gs = 8 then Some gs else None
      | (gs, Some i) \<Rightarrow>
          if length gs < 8 then Some (take i gs @ replicate (8 - length gs) 0 @ drop i gs) else None)"

definition parseIPv6 :: "string \<Rightarrow> (groups \<times> string) option" where
  "parseIPv6 s0 =
     (let s = takeWhile (\<lambda>c. c \<noteq> CHR ''%'') s0; zone = drop (Suc (length s)) s0 in
      if s \<noteq> s0 \<and> zone = [] then None
      else
        (let found =
           (if HasPrefix s ''::''
            then (if drop 2 s = [] then Some ([], Some 0) else ipv6_groups (drop 2 s) [] (Some 0))
            else ipv6_groups s [] None)
         in case found of
              None \<Rightarrow> None
            | Some p \<Rightarrow> map_option (\<lambda>gs. (gs, zone)) (expand_groups p)))"

text \<open>\<open>netip.ParseAddr\<close>: the first dot, colon or percent sign decides.\<close>

definition first_mark :: "string \<Rightarrow> char option" where
  "first_mark s = find (\<lambda>c. c \<in> set ''.:%'') s"

definition parseAddr6 :: "string \<Rightarrow> (groups \<times> string) option" where
  "parseAddr6 s = (if first_mark s = Some CHR '':'' then parseIPv6 s else None)"

definition ParseIP :: "string \<Rightarrow> groups option" where
  "ParseIP s =
     (if first_mark s = Some CHR ''.'' then
        map_option (\<lambda>(a, b). [0, 0, 0, 0, 0, 65535, a, b]) (parseIPv4 s)
      else case parseAddr6 s of
        Some (gs, []) \<Rightarrow> Some gs
      | _ \<Rightarrow> None)"

definition is_mapped4 :: "groups \<Rightarrow> bool" where
  "is_mapped4 gs \<longleftrightarrow> take 6 gs = [0, 0, 0, 0, 0, 65535]"

definition IsUnspecified :: "groups \<Rightarrow> bool" where
  "IsUnspecified gs \<longleftrightarrow> gs = [0, 0, 0, 0, 0, 65535, 0, 0] \<or> gs = replicate 8 0"

definition IsLoopback :: "groups \<Rightarrow> bool" where
  "IsLoopback gs \<longleftrightarrow> (if is_mapped4 gs then gs ! 6 div 256 = 127 else gs = [0, 0, 0, 0, 0, 0, 0, 1])"

subsection \<open>Authority\<close>

definition validOptionalPort :: "string \<Rightarrow> bool" where
  "validOptionalPort port \<longleftrightarrow> port = [] \<or> hd port = CHR '':'' \<and> list_all is_digit (tl port)"

text \<open>The last occurrence of a byte splits a string.\<close>

definition split_last :: "char \<Rightarrow> string \<Rightarrow> (string \<times> string) option" where
  "split_last c s =
     (if c \<in> set s
      then let after = rev (takeWhile (\<lambda>x. x \<noteq> c) (rev s)) in Some (take (length s - Suc (length after)) s, after)
      else None)"

definition find_escape25 :: "string \<Rightarrow> nat option" where
  "find_escape25 s = find (\<lambda>i. HasPrefix (drop i s) ''%25'') [0..<length s]"

definition bracket_host :: "string \<Rightarrow> string option" where
  "bracket_host host =
     (case split_last CHR '']'' host of
        None \<Rightarrow> None
      | Some (open_part, colonPort) \<Rightarrow>
          if \<not> validOptionalPort colonPort then None
          else
            (let name = tl open_part;
                 decoded = (case find_escape25 name of
                     None \<Rightarrow> unescape HostPart name
                   | Some z \<Rightarrow>
                       (case (unescape HostPart (take z name), unescape ZonePart (drop z name)) of
                          (Some a, Some b) \<Rightarrow> Some (a @ b)
                        | _ \<Rightarrow> None))
             in case (decoded, unescape HostPart colonPort) of
                  (Some n, Some p) \<Rightarrow> if parseAddr6 n = None then None else Some (''['' @ n @ '']'' @ p)
                | _ \<Rightarrow> None))"

definition parseHost :: "string \<Rightarrow> string option" where
  "parseHost host =
     (if CHR ''['' \<in> set host then
        (if hd host = CHR ''['' \<and> CHR ''['' \<notin> set (tl host) then bracket_host host else None)
      else if CHR '':'' \<in> set host \<and> \<not> validOptionalPort (dropWhile (\<lambda>c. c \<noteq> CHR '':'') host) then None
      else unescape HostPart host)"

definition validUserinfo :: "string \<Rightarrow> bool" where
  "validUserinfo s = list_all (\<lambda>c. is_alnum c \<or> c \<in> set ''-._:~!$&()*+,;=%@'' \<or> c = CHR 0x27) s"

definition parseUserinfo :: "string \<Rightarrow> (string \<times> string option) option" where
  "parseUserinfo s =
     (if \<not> validUserinfo s then None
      else if CHR '':'' \<notin> set s then map_option (\<lambda>u. (u, None)) (unescape UserPart s)
      else case (unescape UserPart (takeWhile (\<lambda>c. c \<noteq> CHR '':'') s),
                 unescape UserPart (tl (dropWhile (\<lambda>c. c \<noteq> CHR '':'') s))) of
        (Some u, Some p) \<Rightarrow> Some (u, Some p)
      | _ \<Rightarrow> None)"

definition parseAuthority :: "string \<Rightarrow> ((string \<times> string option) option \<times> string) option" where
  "parseAuthority authority =
     (case split_last CHR ''@'' authority of
        None \<Rightarrow> map_option (\<lambda>h. (None, h)) (parseHost authority)
      | Some (userinfo, h) \<Rightarrow>
          (case (parseHost h, parseUserinfo userinfo) of
             (Some host, Some user) \<Rightarrow> Some (Some user, host)
           | _ \<Rightarrow> None))"

subsection \<open>url.Parse\<close>

record url =
  ur_Scheme :: string
  ur_Opaque :: string
  ur_User :: "(string \<times> string option) option"
  ur_Host :: string
  ur_Path :: string
  ur_RawQuery :: string
  ur_ForceQuery :: bool
  ur_Fragment :: string

definition empty_url :: url where
  "empty_url = \<lparr>ur_Scheme = [], ur_Opaque = [], ur_User = None, ur_Host = [], ur_Path = [], ur_RawQuery = [],
     ur_ForceQuery = False, ur_Fragment = []\<rparr>"

definition before_char :: "char \<Rightarrow> string \<Rightarrow> string" where
  "before_char c s = takeWhile (\<lambda>x. x \<noteq> c) s"

definition after_char :: "char \<Rightarrow> string \<Rightarrow> string" where
  "after_char c s = tl (dropWhile (\<lambda>x. x \<noteq> c) s)"

definition scheme_extra :: "char \<Rightarrow> bool" where
  "scheme_extra c \<longleftrightarrow> is_digit c \<or> c \<in> set ''+-.''"

fun scan_scheme :: "string \<Rightarrow> string \<Rightarrow> string \<Rightarrow> (string \<times> string) option" where
  "scan_scheme raw acc [] = Some ([], raw)"
| "scan_scheme raw acc (c # s) =
     (if is_alpha c then scan_scheme raw (acc @ [c]) s
      else if scheme_extra c then (if acc = [] then Some ([], raw) else scan_scheme raw (acc @ [c]) s)
      else if c = CHR '':'' then (if acc = [] then None else Some (acc, s))
      else Some ([], raw))"

definition getScheme :: "string \<Rightarrow> (string \<times> string) option" where
  "getScheme raw = scan_scheme raw [] raw"

definition set_path :: "url \<Rightarrow> string \<Rightarrow> url option" where
  "set_path u p = map_option (\<lambda>d. u\<lparr>ur_Path := d\<rparr>) (unescape PathPart p)"

definition parse_hier :: "url \<Rightarrow> string \<Rightarrow> url option" where
  "parse_hier u rest =
     (if (ur_Scheme u \<noteq> [] \<or> \<not> HasPrefix rest ''///'') \<and> HasPrefix rest ''//'' then
        (case parseAuthority (before_char CHR ''/'' (drop 2 rest)) of
           None \<Rightarrow> None
         | Some (user, host) \<Rightarrow>
             set_path (u\<lparr>ur_User := user, ur_Host := host\<rparr>) (dropWhile (\<lambda>c. c \<noteq> CHR ''/'') (drop 2 rest)))
      else set_path u rest)"

definition parse_url :: "string \<Rightarrow> url option" where
  "parse_url raw =
     (if \<exists>c \<in> set raw. is_ctl c then None
      else if raw = ''*'' then Some (empty_url\<lparr>ur_Path := ''*''\<rparr>)
      else case getScheme raw of
        None \<Rightarrow> None
      | Some (scheme, rest0) \<Rightarrow>
          (let u = empty_url\<lparr>ur_Scheme := map to_lower scheme,
                     ur_RawQuery := after_char CHR ''?'' rest0,
                     ur_ForceQuery := (HasSuffix rest0 ''?'' \<and> length (filter (\<lambda>c. c = CHR ''?'') rest0) = 1)\<rparr>;
               rest = before_char CHR ''?'' rest0
           in if \<not> HasPrefix rest ''/'' \<and> ur_Scheme u \<noteq> [] then Some (u\<lparr>ur_Opaque := rest\<rparr>)
              else if \<not> HasPrefix rest ''/'' \<and> CHR '':'' \<in> set (before_char CHR ''/'' rest) then None
              else parse_hier u rest))"

definition url_Parse :: "string \<Rightarrow> url option" where
  "url_Parse raw =
     (case parse_url (before_char CHR ''#'' raw) of
        None \<Rightarrow> None
      | Some u \<Rightarrow>
          (let frag = after_char CHR ''#'' raw in
           if frag = [] then Some u else map_option (\<lambda>f. u\<lparr>ur_Fragment := f\<rparr>) (unescape FragmentPart frag)))"

definition Hostname :: "url \<Rightarrow> string" where
  "Hostname u =
     (let h = ur_Host u;
          name = (case split_last CHR '':'' h of
              None \<Rightarrow> h
            | Some (a, port) \<Rightarrow> if validOptionalPort ('':'' @ port) then a else h)
      in if HasPrefix name ''['' \<and> HasSuffix name '']'' then butlast (tl name) else name)"

text \<open>
  \<open>strings.EqualFold(s, w)\<close> for a lower-case ASCII word: besides the upper-case letters two
  non-ASCII letters fold to ASCII ones, the long s and the Kelvin sign.
\<close>

fun fold_ascii :: "string \<Rightarrow> string" where
  "fold_ascii [] = []"
| "fold_ascii (c # s) =
     (if HasPrefix (c # s) [CHR 0xC5, CHR 0xBF] then CHR ''s'' # fold_ascii (drop 1 s)
      else if HasPrefix (c # s) [CHR 0xE2, CHR 0x84, CHR 0xAA] then CHR ''k'' # fold_ascii (drop 2 s)
      else to_lower c # fold_ascii s)"

definition EqualFold :: "string \<Rightarrow> string \<Rightarrow> bool" where
  "EqualFold s w \<longleftrightarrow> fold_ascii s = fold_ascii w"

subsection \<open>Extending a URL by a path\<close>

definition plain_path :: "string \<Rightarrow> bool" where
  "plain_path p \<longleftrightarrow> p \<noteq> [] \<and> hd p = CHR ''/'' \<and> (\<forall>c \<in> set p. \<not> is_ctl c \<and> c \<notin> set ''%?#'')"

lemma unescape_plain: "\<forall>c \<in> set p. c \<noteq> CHR ''%'' \<Longrightarrow> \<not> is_host_part m \<Longrightarrow> unescape m p = Some p"
  by (induction p) (auto simp: bad_byte_def)

lemma unescape_append:
  "unescape m a = Some a' \<Longrightarrow> unescape m (a @ b) = map_option ((@) a') (unescape m b)"
proof (induction m a arbitrary: a' rule: unescape.induct)
  case (1 m)
  then show ?case by (simp add: option.map_ident)
next
  case (2 m c s)
  show ?case
  proof (cases "c = CHR ''%''")
    case True
    obtain h1 h2 s' where s: "s = h1 # h2 # s'"
      using "2.prems" True by (auto split: list.splits)
    obtain hi lo where h: "unhex h1 = Some hi" "unhex h2 = Some lo" "escape_ok m hi lo"
      using "2.prems" True s by (auto split: option.splits if_splits)
    obtain d where d: "unescape m s' = Some d" "a' = char_of (16 * hi + lo) # d"
      using "2.prems" True s h by auto
    have "unescape m (s' @ b) = map_option ((@) d) (unescape m b)"
      using "2.IH"(1) [OF True s refl refl] h d by simp
    then show ?thesis using True s h d by (simp add: option.map_comp o_def)
  next
    case False
    then obtain d where d: "unescape m s = Some d" "a' = c # d" "\<not> bad_byte m c"
      using "2.prems" by (auto split: if_splits)
    then show ?thesis using "2.IH"(2) [OF False] False by (simp add: option.map_comp o_def)
  qed
qed

lemma unescape_extend:
  "unescape m a = Some a' \<Longrightarrow> plain_path p \<Longrightarrow> \<not> is_host_part m \<Longrightarrow> unescape m (a @ p) = Some (a' @ p)"
  using unescape_append [of m a a' p] unescape_plain [of p m] by (auto simp: plain_path_def)

lemma scan_scheme_shape:
  "scan_scheme raw acc s = Some (sch, rest) \<Longrightarrow> sch \<noteq> [] \<Longrightarrow> \<exists>pre. s = pre @ '':'' @ rest \<and> sch = acc @ pre \<and>
     (\<forall>c \<in> set pre. is_alpha c \<or> scheme_extra c) \<and> (\<forall>raw' x. scan_scheme raw' acc (pre @ '':'' @ x) = Some (sch, x))"
proof (induction raw acc s rule: scan_scheme.induct)
  case (2 raw acc c s)
  show ?case
  proof (cases "is_alpha c \<or> scheme_extra c")
    case True
    then have "\<exists>pre. s = pre @ '':'' @ rest \<and> sch = (acc @ [c]) @ pre \<and> (\<forall>c \<in> set pre. is_alpha c \<or> scheme_extra c) \<and>
        (\<forall>raw' x. scan_scheme raw' (acc @ [c]) (pre @ '':'' @ x) = Some (sch, x)) \<and> (is_alpha c \<or> acc \<noteq> [])"
      using 2 by (auto split: if_splits)
    then obtain pre where "s = pre @ '':'' @ rest" "sch = (acc @ [c]) @ pre" "\<forall>c \<in> set pre. is_alpha c \<or> scheme_extra c"
        "\<forall>raw' x. scan_scheme raw' (acc @ [c]) (pre @ '':'' @ x) = Some (sch, x)" "is_alpha c \<or> acc \<noteq> []"
      by blast
    then show ?thesis using True by (intro exI [of _ "c # pre"]) auto
  next
    case False
    then have "c = CHR '':''" "acc \<noteq> []" "sch = acc" "rest = s" using "2.prems" by (auto split: if_splits)
    then show ?thesis using False by (intro exI [of _ "[]"]) auto
  qed
qed simp

lemma scan_scheme_none: "scan_scheme raw acc s = Some ([], rest) \<Longrightarrow> rest = raw"
  by (induction raw acc s rule: scan_scheme.induct) (auto split: if_splits)

lemma before_char_append: "before_char c (s @ t) = (if c \<in> set s then before_char c s else s @ before_char c t)"
  by (auto simp: before_char_def takeWhile_append)

lemma after_char_append: "c \<in> set s \<Longrightarrow> after_char c (s @ t) = after_char c s @ t"
  by (induction s) (auto simp: after_char_def)

lemma before_char_absent [simp]: "c \<notin> set s \<Longrightarrow> before_char c s = s"
  by (auto simp: before_char_def takeWhile_eq_all_conv)

lemma before_char_subset: "set (before_char c s) \<subseteq> set s"
  by (auto simp: before_char_def dest: set_takeWhileD)

lemma after_char_absent [simp]: "c \<notin> set s \<Longrightarrow> after_char c s = []"
  by (induction s) (auto simp: after_char_def)

lemma dropWhile_slash: "hd p = CHR ''/'' \<Longrightarrow> dropWhile (\<lambda>c. c \<noteq> CHR ''/'') (s @ p) = dropWhile (\<lambda>c. c \<noteq> CHR ''/'') s @ p"
  by (cases p) (auto simp: dropWhile_append dropWhile_eq_Nil_conv)

lemma before_slash: "p \<noteq> [] \<Longrightarrow> hd p = CHR ''/'' \<Longrightarrow> before_char CHR ''/'' (s @ p) = before_char CHR ''/'' s"
  by (cases p) (auto simp: before_char_append, simp_all add: before_char_def)

lemma HasPrefix_extend: "HasPrefix s q \<Longrightarrow> HasPrefix (s @ t) q"
  by (auto simp: HasPrefix_iff)

lemma parse_hier_extend:
  assumes "parse_hier u rest = Some v" "ur_Scheme u \<noteq> []" "ur_Host u = []" "ur_Host v \<noteq> []" "plain_path p"
  shows "parse_hier u (rest @ p) = Some (v\<lparr>ur_Path := ur_Path v @ p\<rparr>)" "HasPrefix rest ''//''" "ur_Scheme v = ur_Scheme u"
proof -
  show pre: "HasPrefix rest ''//''"
    using assms(1,3,4) by (auto simp: parse_hier_def set_path_def split: if_splits option.splits)
  then obtain r where r: "rest = ''//'' @ r" by (auto simp: HasPrefix_iff)
  have p: "p \<noteq> []" "hd p = CHR ''/''" using assms(5) by (auto simp: plain_path_def)
  obtain user host d where h: "parseAuthority (before_char CHR ''/'' r) = Some (user, host)"
      "unescape PathPart (dropWhile (\<lambda>c. c \<noteq> CHR ''/'') r) = Some d"
      "v = u\<lparr>ur_User := user, ur_Host := host, ur_Path := d\<rparr>"
    using assms(1,2) pre r by (auto simp: parse_hier_def set_path_def HasPrefix_def split: option.splits)
  show "ur_Scheme v = ur_Scheme u" using h(3) by simp
  show "parse_hier u (rest @ p) = Some (v\<lparr>ur_Path := ur_Path v @ p\<rparr>)"
    using h assms(2) unescape_extend [OF h(2) assms(5)]
    by (simp add: parse_hier_def set_path_def r HasPrefix_def before_slash [OF p] dropWhile_slash [OF p(2)] is_host_part_def)
qed

lemma parse_hier_query:
  "parse_hier (u\<lparr>ur_RawQuery := q, ur_ForceQuery := f\<rparr>) rest = map_option (\<lambda>v. v\<lparr>ur_RawQuery := q, ur_ForceQuery := f\<rparr>) (parse_hier u rest)"
  by (cases u) (auto simp: parse_hier_def set_path_def option.map_comp o_def split: option.splits)

lemma parse_hier_scheme: "parse_hier u rest = Some v \<Longrightarrow> ur_Scheme v = ur_Scheme u"
  by (auto simp: parse_hier_def set_path_def split: if_splits option.splits)

lemma getScheme_shape:
  assumes "getScheme raw = Some (sch, rest)" "sch \<noteq> []"
  shows "raw = sch @ '':'' @ rest" "CHR ''?'' \<notin> set sch" "getScheme (sch @ '':'' @ x) = Some (sch, x)"
proof -
  obtain pre where pre: "raw = pre @ '':'' @ rest" "sch = pre" "\<forall>c \<in> set pre. is_alpha c \<or> scheme_extra c"
      "\<forall>raw' x. scan_scheme raw' [] (pre @ '':'' @ x) = Some (sch, x)"
    using scan_scheme_shape [OF assms [unfolded getScheme_def]] by auto
  show "raw = sch @ '':'' @ rest" "getScheme (sch @ '':'' @ x) = Some (sch, x)" using pre by (simp_all add: getScheme_def)
  show "CHR ''?'' \<notin> set sch"
    using pre by (auto simp: scheme_extra_def is_alpha_def is_lower_def is_upper_def is_digit_def code_of_def)
qed

lemma getScheme_extend:
  "getScheme raw = Some (sch, rest) \<Longrightarrow> sch \<noteq> [] \<Longrightarrow> getScheme (raw @ t) = Some (sch, rest @ t)"
  using getScheme_shape(1) [of raw sch rest] getScheme_shape(3) [of raw sch rest "rest @ t"] by simp

text \<open>The parts of the URL before its path.\<close>

definition same_site :: "url \<Rightarrow> url \<Rightarrow> bool" where
  "same_site u v \<longleftrightarrow> ur_Scheme u = ur_Scheme v \<and> ur_User u = ur_User v \<and> ur_Host u = ur_Host v"

lemma parse_url_extend:
  assumes "parse_url raw = Some v" "ur_Scheme v \<noteq> []" "ur_Host v \<noteq> []" "plain_path p"
  shows "\<exists>w. parse_url (raw @ p) = Some w \<and> same_site w v \<and> ur_Fragment w = ur_Fragment v \<and>
    (if CHR ''?'' \<in> set raw then ur_Path w = ur_Path v else w = v\<lparr>ur_Path := ur_Path v @ p\<rparr>)"
proof -
  have raw: "raw \<noteq> ''*''" "\<not> (\<exists>c \<in> set raw. is_ctl c)"
    using assms(1,2) by (auto simp: parse_url_def empty_url_def split: if_splits)
  obtain sch rest0 where sch: "getScheme raw = Some (sch, rest0)"
    using assms(1) raw by (auto simp: parse_url_def split: option.splits)
  let ?q = "\<lambda>r. empty_url\<lparr>ur_Scheme := map to_lower sch, ur_RawQuery := after_char CHR ''?'' r,
      ur_ForceQuery := (HasSuffix r ''?'' \<and> length (filter (\<lambda>c. c = CHR ''?'') r) = 1)\<rparr>"
  let ?rest = "before_char CHR ''?'' rest0"
  have res: "parse_url raw = (if \<not> HasPrefix ?rest ''/'' \<and> map to_lower sch \<noteq> [] then Some ((?q rest0)\<lparr>ur_Opaque := ?rest\<rparr>)
      else if \<not> HasPrefix ?rest ''/'' \<and> CHR '':'' \<in> set (before_char CHR ''/'' ?rest) then None
      else parse_hier (?q rest0) ?rest)"
    using raw sch by (simp add: parse_url_def Let_def)
  have hier: "parse_hier (?q rest0) ?rest = Some v"
    using res assms(1,3) by (auto simp: empty_url_def split: if_splits)
  have scheme: "sch \<noteq> []" using parse_hier_scheme [OF hier] assms(2) by auto
  have u: "ur_Scheme (?q rest0) \<noteq> []" "ur_Host (?q rest0) = []" using scheme by (simp_all add: empty_url_def)
  note ext = parse_hier_extend [OF hier u assms(3,4)]
  have pre: "HasPrefix ?rest ''/''" using ext(2) by (auto simp: HasPrefix_iff)
  have q: "CHR ''?'' \<in> set raw \<longleftrightarrow> CHR ''?'' \<in> set rest0" using getScheme_shape [OF sch scheme] by auto
  have "raw @ p \<noteq> ''*''" "\<not> (\<exists>c \<in> set (raw @ p). is_ctl c)"
    using raw getScheme_shape(1) [OF sch scheme] scheme assms(4) by (auto simp: plain_path_def append_eq_Cons_conv)
  then have new: "HasPrefix (before_char CHR ''?'' (rest0 @ p)) ''/'' \<Longrightarrow>
      parse_url (raw @ p) = parse_hier (?q (rest0 @ p)) (before_char CHR ''?'' (rest0 @ p))"
    using getScheme_extend [OF sch scheme, of p] by (simp add: parse_url_def Let_def)
  show ?thesis
  proof (cases "CHR ''?'' \<in> set rest0")
    case True
    then have b: "before_char CHR ''?'' (rest0 @ p) = ?rest" by (simp add: before_char_append)
    have "parse_hier (?q (rest0 @ p)) ?rest = map_option (\<lambda>v. v\<lparr>ur_RawQuery := ur_RawQuery (?q (rest0 @ p)),
        ur_ForceQuery := ur_ForceQuery (?q (rest0 @ p))\<rparr>) (parse_hier (?q rest0) ?rest)"
      using parse_hier_query [where u = "?q rest0" and rest = ?rest
          and q = "ur_RawQuery (?q (rest0 @ p))" and f = "ur_ForceQuery (?q (rest0 @ p))"] by simp
    then show ?thesis
      using new b pre hier q True by (auto simp: same_site_def)
  next
    case False
    have p: "CHR ''?'' \<notin> set p" using assms(4) by (auto simp: plain_path_def)
    have "filter (\<lambda>c. c = CHR ''?'') rest0 = []" "filter (\<lambda>c. c = CHR ''?'') p = []"
      using False p by (auto simp: filter_empty_conv)
    then have b: "before_char CHR ''?'' (rest0 @ p) = ?rest @ p" "?q (rest0 @ p) = ?q rest0"
      using False p by (simp_all add: before_char_append)
    then show ?thesis
      using new HasPrefix_extend [OF pre] ext(1) q False by (auto simp: same_site_def)
  qed
qed

lemma url_Parse_extend:
  assumes "url_Parse raw = Some v" "ur_Scheme v \<noteq> []" "ur_Host v \<noteq> []" "plain_path p"
  shows "\<exists>w. url_Parse (raw @ p) = Some w \<and> same_site w v \<and>
    (if CHR ''?'' \<in> set raw \<or> CHR ''#'' \<in> set raw then ur_Path w = ur_Path v else w = v\<lparr>ur_Path := ur_Path v @ p\<rparr>)"
proof (cases "CHR ''#'' \<in> set raw")
  case True
  let ?u = "before_char CHR ''#'' raw" and ?f = "after_char CHR ''#'' raw"
  obtain u where u: "parse_url ?u = Some u" using assms(1) by (auto simp: url_Parse_def split: option.splits)
  obtain d where d: "unescape FragmentPart ?f = Some d" and v: "v = u\<lparr>ur_Fragment := d\<rparr> \<or> v = u"
    using assms(1) u by (auto simp: url_Parse_def Let_def split: if_splits)
  have "url_Parse (raw @ p) = Some (u\<lparr>ur_Fragment := d @ p\<rparr>)"
    using u True assms(4) unescape_extend [OF d assms(4)]
    by (simp add: url_Parse_def before_char_append after_char_append plain_path_def is_host_part_def Let_def)
  then show ?thesis using True v by (auto simp: same_site_def)
next
  case False
  have p: "CHR ''#'' \<notin> set p" using assms(4) by (auto simp: plain_path_def)
  have "parse_url raw = Some v" using assms(1) False by (auto simp: url_Parse_def split: option.splits)
  then show ?thesis
    using parse_url_extend [OF _ assms(2-4)] False p by (fastforce simp: url_Parse_def)
qed

subsection \<open>The part of a URL before its path\<close>

lemma parseHost_Nil [simp]: "parseHost [] = Some []"
  by (simp add: parseHost_def)

lemma parseAuthority_Nil [simp]: "parseAuthority [] = Some (None, [])"
  by (simp add: parseAuthority_def split_last_def)

lemma url_split:
  assumes "url_Parse raw = Some u" "ur_Scheme u \<noteq> []" "ur_Host u \<noteq> []" "CHR ''?'' \<notin> set raw" "CHR ''#'' \<notin> set raw"
  obtains site path where "raw = site @ path" "unescape PathPart path = Some (ur_Path u)" "path = [] \<or> hd path = CHR ''/''"
    and "url_Parse site = Some (u\<lparr>ur_Path := []\<rparr>)" "site \<noteq> []" "last site \<noteq> CHR ''/''"
proof -
  have u: "parse_url raw = Some u" using assms(1,5) by (auto simp: url_Parse_def split: option.splits)
  then have raw: "raw \<noteq> ''*''" "\<not> (\<exists>c \<in> set raw. is_ctl c)"
    using assms(2) by (auto simp: parse_url_def empty_url_def split: if_splits)
  obtain sch rest where sch: "getScheme raw = Some (sch, rest)"
    using u raw by (auto simp: parse_url_def split: option.splits)
  let ?u = "empty_url\<lparr>ur_Scheme := map to_lower sch\<rparr>"
  have q: "CHR ''?'' \<notin> set rest"
  proof (cases "sch = []")
    case True
    have "ur_Scheme u = []"
      using u raw sch True parse_hier_scheme [of _ _ u] by (auto simp: parse_url_def Let_def empty_url_def split: if_splits)
    then show ?thesis using assms(2) by simp
  next
    case False
    then show ?thesis using getScheme_shape(1) [OF sch] assms(4) by auto
  qed
  have parse: "parse_url s = (if \<not> HasPrefix r ''/'' \<and> map to_lower sch \<noteq> [] then Some (?u\<lparr>ur_Opaque := r\<rparr>)
      else if \<not> HasPrefix r ''/'' \<and> CHR '':'' \<in> set (before_char CHR ''/'' r) then None else parse_hier ?u r)"
    if "getScheme s = Some (sch, r)" "CHR ''?'' \<notin> set r" "s \<noteq> ''*''" "\<not> (\<exists>c \<in> set s. is_ctl c)" for s r
  proof -
    have "\<not> HasSuffix r ''?''" using that(2) by (auto simp: HasSuffix_iff)
    then show ?thesis using that by (simp add: parse_url_def Let_def empty_url_def)
  qed
  have hier: "parse_hier ?u rest = Some u"
    using parse [OF sch q raw] u assms(3) by (auto simp: empty_url_def split: if_splits)
  have nonempty: "sch \<noteq> []" using parse_hier_scheme [OF hier] assms(2) by auto
  have pre: "HasPrefix rest ''//''"
    using hier assms(3) by (auto simp: parse_hier_def set_path_def empty_url_def split: if_splits option.splits)
  then obtain r where r: "rest = ''//'' @ r" by (auto simp: HasPrefix_iff)
  let ?auth = "before_char CHR ''/'' r" and ?path = "dropWhile (\<lambda>c. c \<noteq> CHR ''/'') r"
  obtain user host where h: "parseAuthority ?auth = Some (user, host)" "unescape PathPart ?path = Some (ur_Path u)"
      "u = ?u\<lparr>ur_User := user, ur_Host := host, ur_Path := ur_Path u\<rparr>"
    using hier nonempty by (auto simp: r parse_hier_def set_path_def HasPrefix_def split: option.splits)
  let ?site = "sch @ '':'' @ ''//'' @ ?auth"
  have raw_eq: "raw = ?site @ ?path" using getScheme_shape(1) [OF sch nonempty] r by (simp add: before_char_def)
  have "host \<noteq> []" using arg_cong [OF h(3), of ur_Host] assms(3) by simp
  then have auth: "CHR ''/'' \<notin> set ?auth" "?auth \<noteq> []"
    using h(1) by (auto simp: before_char_def dest: set_takeWhileD)
  have path: "?path = [] \<or> hd ?path = CHR ''/''" using hd_dropWhile [of "\<lambda>c. c \<noteq> CHR ''/''" r] by blast
  have slash: "before_char CHR ''/'' ?auth = ?auth" "dropWhile (\<lambda>c. c \<noteq> CHR ''/'') ?auth = []"
    using auth(1) by (auto simp: dropWhile_eq_Nil_conv)
  have "CHR ''?'' \<notin> set (''//'' @ ?auth)" using q r before_char_subset by fastforce
  moreover have "\<not> (\<exists>c \<in> set ?site. is_ctl c)" using raw(2) unfolding raw_eq by auto
  moreover have "parse_hier ?u (''//'' @ ?auth) = Some (u\<lparr>ur_Path := []\<rparr>)"
    using h(1,3) nonempty
    by (simp add: parse_hier_def set_path_def HasPrefix_def slash) (cases u, simp add: empty_url_def)
  ultimately have "parse_url ?site = Some (u\<lparr>ur_Path := []\<rparr>)"
    using parse [OF getScheme_shape(3) [OF sch nonempty]] nonempty by (simp add: append_eq_Cons_conv HasPrefix_def)
  moreover have "CHR ''#'' \<notin> set ?site" using assms(5) unfolding raw_eq by auto
  ultimately have site: "url_Parse ?site = Some (u\<lparr>ur_Path := []\<rparr>)" by (simp add: url_Parse_def)
  have "last ?auth \<noteq> CHR ''/''" using auth(1) last_in_set [OF auth(2)] by metis
  then have "last ?site \<noteq> CHR ''/''" using auth(2) by simp
  then show thesis using that [OF raw_eq h(2) path site] by simp
qed

lemma unescape_Nil: "unescape m s = Some [] \<Longrightarrow> s = []"
  by (cases s) (auto split: if_splits list.splits option.splits)

lemma parse_hier_keeps: "parse_hier u rest = Some v \<Longrightarrow> ur_RawQuery v = ur_RawQuery u \<and> ur_Fragment v = ur_Fragment u"
  by (auto simp: parse_hier_def set_path_def split: if_splits option.splits)

lemma getScheme_rest: "getScheme raw = Some (sch, rest) \<Longrightarrow> set rest \<subseteq> set raw"
  using getScheme_shape(1) [of raw sch rest] scan_scheme_none [of raw "[]" raw] by (cases "sch = []") (auto simp: getScheme_def)

lemma url_Parse_plain:
  assumes "url_Parse raw = Some u" "CHR ''?'' \<notin> set raw" "CHR ''#'' \<notin> set raw"
  shows "ur_RawQuery u = [] \<and> ur_Fragment u = []"
proof -
  have u: "parse_url raw = Some u" using assms(1,3) by (auto simp: url_Parse_def split: option.splits)
  show ?thesis
  proof (cases "raw = ''*''")
    case True
    then show ?thesis using u by (auto simp: parse_url_def empty_url_def split: if_splits)
  next
    case False
    then obtain sch rest where sch: "getScheme raw = Some (sch, rest)"
      using u by (auto simp: parse_url_def split: if_splits option.splits)
    have "CHR ''?'' \<notin> set rest" using getScheme_rest [OF sch] assms(2) by auto
    then show ?thesis
      using u sch False parse_hier_keeps
      by (fastforce simp: parse_url_def Let_def empty_url_def split: if_splits)
  qed
qed

end
