(* ===== verification/Url_Query.thy ===== *)
theory Url_Query
  imports Net_Url
begin

text \<open>
  \<open>URL.Query().Get(key)\<close>: the first value of a key in the query of a request. Pairs that do not decode, or hold a semicolon, are dropped, and a query with more
  than ten thousand pairs counts as empty.
\<close>

definition QueryUnescape :: "string \<Rightarrow> string option" where
  "QueryUnescape s = unescape QueryPart (map (\<lambda>c. if c = CHR ''+'' then CHR '' '' else c) s)"

definition query_pair :: "string \<Rightarrow> (string \<times> string) option" where
  "query_pair s =
     (if CHR '';'' \<in> set s \<or> s = [] then None
      else case (QueryUnescape (before_char CHR ''='' s), QueryUnescape (after_char CHR ''='' s)) of
        (Some k, Some v) \<Rightarrow> Some (k, v)
      | _ \<Rightarrow> None)"

definition parseQuery :: "string \<Rightarrow> (string \<times> string) list" where
  "parseQuery query =
     (let parts = split_on CHR ''&'' query in if 10000 < length parts then [] else List.map_filter query_pair parts)"

definition Query_Get :: "string \<Rightarrow> string \<Rightarrow> string" where
  "Query_Get query key = (case map_of (parseQuery query) key of None \<Rightarrow> [] | Some v \<Rightarrow> v)"

text \<open>A pair of plain texts is read as it is.\<close>

definition plain_query :: "string \<Rightarrow> bool" where
  "plain_query s \<longleftrightarrow> (\<forall>c \<in> set s. c \<notin> set ''&;=+%'')"

lemma QueryUnescape_plain: "plain_query s \<Longrightarrow> QueryUnescape s = Some s"
proof -
  assume s: "plain_query s"
  then have "map (\<lambda>c. if c = CHR ''+'' then CHR '' '' else c) s = s" by (intro map_idI) (auto simp: plain_query_def)
  then show ?thesis using s unescape_plain [of s QueryPart] by (auto simp: QueryUnescape_def plain_query_def is_host_part_def)
qed

lemma split_on_absent: "d \<notin> set s \<Longrightarrow> split_on d s = [s]"
  by (induction s) auto

lemma Query_Get_plain:
  assumes "plain_query key" "plain_query v"
  shows "Query_Get (key @ ''='' @ v) key = v"
proof -
  have "CHR ''&'' \<notin> set (key @ ''='' @ v)" "CHR '';'' \<notin> set (key @ ''='' @ v)" "CHR ''='' \<notin> set key"
    using assms by (auto simp: plain_query_def)
  moreover have "before_char CHR ''='' (key @ ''='' @ v) = key" "after_char CHR ''='' (key @ ''='' @ v) = v"
    using assms(1) by (auto simp: before_char_def after_char_def plain_query_def takeWhile_append dropWhile_append)
  ultimately show ?thesis
    using assms by (simp add: Query_Get_def parseQuery_def split_on_absent query_pair_def QueryUnescape_plain List.map_filter_simps)
qed

end
