(* ===== verification/Log_Stream.thy ===== *)
theory Log_Stream
  imports Webhook_Core Hub Url_Query
begin

text \<open>
  \<open>webhookcore/logs.go\<close>: the Server-Sent-Events stream of \<open>HandleLogs\<close>, on top of the hub. The part of the
  handler up to its loop is \<open>logs_start\<close>; one round of its \<open>select\<close> is \<open>logs_round\<close>; the deferred
  \<open>Unsubscribe\<close> is a step of its own, because other goroutines may use the hub between the loop's
  return and it. \<open>logs_step\<close> interleaves the handler with the other users of the hub, who neither read the handler's
  channel nor unsubscribe its id. Encoding an entry is a parameter; \<open>None\<close> is an encoding error.

  The calls of a connection are the writes and flushes that succeeded. The main theorem composes
  the handler with the hub: what was published is what went over the wire, at most one entry lost to a failed
  write, and what still waits for the next connection.
\<close>

subsection \<open>The handler\<close>

definition defaultKeepaliveInterval :: duration where
  "defaultKeepaliveInterval = 15 * second"

definition logs_interval :: "('s, 'b) Core \<Rightarrow> duration" where
  "logs_interval c =
     (let interval = co_keepaliveInterval c
      in if interval \<le> 0 then defaultKeepaliveInterval else interval)"

datatype phase = Streaming | Leaving | Gone

text \<open>
  What a stream meets from outside: whether the context of its request is done, whether \<open>CloseSSE\<close> has closed the shutdown channel, and whether writes to the client can
  fail. None of it is taken back.
\<close>

record stream_env =
  se_ctxDone :: bool
  se_sseClosed :: bool
  se_broken :: bool

definition env_le :: "stream_env \<Rightarrow> stream_env \<Rightarrow> bool" where
  "env_le e e' \<longleftrightarrow> (se_ctxDone e \<longrightarrow> se_ctxDone e') \<and> (se_sseClosed e \<longrightarrow> se_sseClosed e') \<and> (se_broken e \<longrightarrow> se_broken e')"

record 'e conn =
  cn_hub :: "'e hub"
  cn_sid :: sub_id
  cn_phase :: phase
  cn_calls :: "wcall list"
  cn_env :: stream_env

definition event_end :: string where
  "event_end = [CHR 0x0A, CHR 0x0A]"

definition sse_headers :: "wcall list" where
  "sse_headers =
     [SetHeader ''Content-Type'' ''text/event-stream'',
      SetHeader ''Cache-Control'' ''no-cache'',
      SetHeader ''Connection'' ''keep-alive'']"

definition data_frame :: "string \<Rightarrow> string" where
  "data_frame body = ''data: '' @ body @ event_end"

text \<open>
  Up to the loop: a writer that cannot flush gets a 500; otherwise the handler subscribes before it
  writes the first comment. \<open>wrote\<close> is whether that write succeeds. \<open>None\<close>: \<open>Subscribe\<close> blocked for ever.
\<close>

definition logs_start :: "('p, 'i) protocol \<Rightarrow> ('s, 'b) Core \<Rightarrow> writer \<Rightarrow> stream_env \<Rightarrow> bool \<Rightarrow> request \<Rightarrow> 'e hub \<Rightarrow> (wcall list + 'e conn) option" where
  "logs_start pr c w env wrote r h =
     (if \<not> is_Flusher w then Some (Inl (WriteError pr 500 (CodeInternal pr) ''streaming not supported''))
      else
        (case Subscribe (Query_Get (rq_rawquery r) (co_logsFilterParam c)) h of
           None \<Rightarrow> None
         | Some (sid, h') \<Rightarrow>
             Some (Inr
               (if wrote
                then \<lparr>cn_hub = h', cn_sid = sid, cn_phase = Streaming,
                      cn_calls = sse_headers @ [WriteBytes ('': connected'' @ event_end), Flush], cn_env = env\<rparr>
                else \<lparr>cn_hub = h', cn_sid = sid, cn_phase = Leaving, cn_calls = sse_headers, cn_env = env\<rparr>))))"

text \<open>One round of the \<open>select\<close>: the case that fired, with whether its write succeeds.\<close>

datatype select_case =
    ContextDone
  | SseShutdown
  | TickerFires bool
  | EntryReady bool

text \<open>
  \<open>None\<close>: the case is not ready, or its write does not fail. The first two cases are ready once the context is done and once \<open>CloseSSE\<close> has closed its channel, the
  last case when an entry is buffered or the channel is closed, that is, its id is no longer registered
  (only the handler's own \<open>Unsubscribe\<close> does that, so the invariant below excludes it inside the loop).
  The result is whether the loop goes on, the calls made, and the hub.
\<close>

definition logs_round :: "('e \<Rightarrow> string option) \<Rightarrow> stream_env \<Rightarrow> sub_id \<Rightarrow> select_case \<Rightarrow> 'e hub \<Rightarrow> (bool \<times> wcall list \<times> 'e hub) option" where
  "logs_round marshal env sid sc h =
     (case sc of
        ContextDone \<Rightarrow> if se_ctxDone env then Some (False, [], h) else None
      | SseShutdown \<Rightarrow> if se_sseClosed env then Some (False, [], h) else None
      | TickerFires wrote \<Rightarrow>
          if \<not> wrote then (if se_broken env then Some (False, [], h) else None)
          else Some (True, [WriteBytes ('': keepalive'' @ event_end), Flush], h)
      | EntryReady wrote \<Rightarrow>
          if map_of (subs h) sid = None then Some (False, [], h)
          else
            (case hub_recv sid h of
               None \<Rightarrow> None
             | Some (e, h') \<Rightarrow>
                 (case marshal e of
                    None \<Rightarrow> Some (True, [], h')
                  | Some body \<Rightarrow>
                      if \<not> wrote then (if se_broken env then Some (False, [], h') else None)
                      else Some (True, [WriteBytes (data_frame body), Flush], h'))))"

definition logs_leave :: "'e conn \<Rightarrow> 'e conn option" where
  "logs_leave cn = map_option (\<lambda>(ch, h). cn\<lparr>cn_hub := h, cn_phase := Gone\<rparr>) (Unsubscribe (cn_sid cn) (cn_hub cn))"

text \<open>The hub event of a round, for the filter of the connection.\<close>

definition round_events :: "string \<Rightarrow> sub_id \<Rightarrow> select_case \<Rightarrow> 'e hub \<Rightarrow> 'e hub_event list" where
  "round_events flt sid sc h =
     (case sc of
        EntryReady wrote \<Rightarrow> (case hub_recv sid h of None \<Rightarrow> [] | Some (e, h') \<Rightarrow> [Received flt e])
      | _ \<Rightarrow> [])"

text \<open>What is buffered for an id, if it is registered.\<close>

definition chan_buf :: "sub_id \<Rightarrow> 'e hub \<Rightarrow> 'e list option" where
  "chan_buf sid h = map_option (\<lambda>s. buf (sub_ch s)) (map_of (subs h) sid)"

definition keeps_chan :: "sub_id \<Rightarrow> 'e hub \<Rightarrow> 'e hub \<Rightarrow> bool" where
  "keeps_chan sid h h' \<longleftrightarrow>
     (case chan_buf sid h of None \<Rightarrow> True | Some b \<Rightarrow> (\<exists>more. chan_buf sid h' = Some (b @ more)))"

inductive logs_step :: "('e \<Rightarrow> string option) \<Rightarrow> string \<Rightarrow> 'e conn \<Rightarrow> 'e hub_event list \<Rightarrow> 'e conn \<Rightarrow> bool"
  for marshal flt where
  elsewhere: "cn_phase cn \<noteq> Gone \<Longrightarrow> hub_step (cn_hub cn) ev h' \<Longrightarrow> keeps_chan (cn_sid cn) (cn_hub cn) h' \<Longrightarrow>
    logs_step marshal flt cn [ev] (cn\<lparr>cn_hub := h'\<rparr>)"
| environment: "cn_phase cn \<noteq> Gone \<Longrightarrow> env_le (cn_env cn) env \<Longrightarrow> logs_step marshal flt cn [] (cn\<lparr>cn_env := env\<rparr>)"
| select_round: "cn_phase cn = Streaming \<Longrightarrow>
    logs_round marshal (cn_env cn) (cn_sid cn) sc (cn_hub cn) = Some (cont, calls, h') \<Longrightarrow>
    logs_step marshal flt cn (round_events flt (cn_sid cn) sc (cn_hub cn))
      (cn\<lparr>cn_hub := h', cn_calls := cn_calls cn @ calls, cn_phase := (if cont then Streaming else Leaving)\<rparr>)"
| leave: "cn_phase cn = Leaving \<Longrightarrow> logs_leave cn = Some cn' \<Longrightarrow>
    logs_step marshal flt cn [Unsubscribed flt (cn_sid cn)] cn'"

inductive logs_trace :: "('e \<Rightarrow> string option) \<Rightarrow> string \<Rightarrow> 'e conn \<Rightarrow> 'e hub_event list \<Rightarrow> 'e conn \<Rightarrow> bool"
  for marshal flt where
  logs_nil: "logs_trace marshal flt cn [] cn"
| logs_snoc: "logs_trace marshal flt cn evs cn1 \<Longrightarrow> logs_step marshal flt cn1 evs1 cn' \<Longrightarrow>
    logs_trace marshal flt cn (evs @ evs1) cn'"

inductive_cases logs_stepE: "logs_step marshal flt cn evs cn'"

subsection \<open>Traces of the hub\<close>

lemma hub_trace_append: "hub_trace h evs h1 \<Longrightarrow> hub_trace h1 evs1 h' \<Longrightarrow> hub_trace h (evs @ evs1) h'"
  by (induction rule: hub_trace.induct) (auto intro: hub_trace.intros)

lemma hub_trace_carriers:
  assumes "hub_trace h evs h'" "hub_inv h" "unat (nextID h) + length evs < 2 ^ 64" "length (carriers k (subs h)) \<le> 1"
    and "exclusive k (carriers k (subs h) \<noteq> []) (evs @ rest)"
  shows "length (carriers k (subs h')) \<le> 1 \<and> exclusive k (carriers k (subs h') \<noteq> []) rest"
  using assms
proof (induction rule: hub_trace.induct)
  case (cons h ev h1 evs h')
  have n: "nextID h \<noteq> - 1" using cons.prems(2) by (intro not_max) simp
  have "unat (nextID h1) + length evs < 2 ^ 64"
    using hub_step_frame [OF cons.hyps(1) cons.prems(1) n, of "[]"] cons.prems(2) by simp
  moreover have "length (carriers k (subs h1)) \<le> 1 \<and> exclusive k (carriers k (subs h1) \<noteq> []) (evs @ rest)"
    using hub_step_carriers [OF cons.hyps(1) cons.prems(1) n cons.prems(3)] cons.prems(4) by simp
  ultimately show ?case
    using cons.IH [OF hub_step_inv [OF cons.hyps(1) cons.prems(1) n]] by blast
qed simp

lemma map_of_map_snd: "map_of (map (\<lambda>p. (fst p, g (snd p))) xs) k = map_option g (map_of xs k)"
  by (induction xs) auto

lemma hub_step_filter:
  assumes "hub_step h ev h'" "hub_inv h" "nextID h \<noteq> - 1"
    and "map_of (subs h) sid = Some s" "map_of (subs h') sid = Some s'"
  shows "sub_filter s' = sub_filter s"
  using assms(1)
proof cases
  case (subscribe flt sid')
  then show ?thesis
    using Subscribe_eq [OF assms(2,3), of flt] assms(4,5) by (auto simp: Let_def map_add_def map_of_append)
next
  case (unsubscribe sid' s0 ch)
  then have "subs h' = filter (\<lambda>p. fst p \<noteq> sid') (subs h)"
    using Unsubscribe_eq [OF assms(2) unsubscribe(2)] by (auto simp: Let_def split: if_splits)
  then have "(sid, s') \<in> set (subs h)" using map_of_SomeD [OF assms(5)] by simp
  then show ?thesis using sub_unique [OF assms(2,4)] by fastforce
next
  case (publish e)
  then have "subs h' = map (\<lambda>p. (fst p, deliver h e (entry_key h e) (snd p))) (subs h)"
    using Publish_eq [OF assms(2), of e] by (auto simp: Let_def split: option.splits if_splits)
  then show ?thesis using assms(4,5) by (auto simp: map_of_map_snd)
next
  case (receive sid' s0 e)
  obtain es where "h' = h\<lparr>subs := AList.update sid' (s0\<lparr>sub_ch := (sub_ch s0)\<lparr>buf := es\<rparr>\<rparr>) (subs h)\<rparr>"
    using receive(2,3) by (auto simp: hub_recv_def split: list.splits)
  then show ?thesis using assms(4,5) receive(2) by (auto simp: update_conv split: if_splits)
qed (use assms(4,5) in \<open>auto simp: Retain_def Release_def split: if_splits\<close>)

subsection \<open>Invariant of a connection\<close>

definition logs_inv :: "string \<Rightarrow> 'e conn \<Rightarrow> bool" where
  "logs_inv flt cn \<longleftrightarrow> hub_inv (cn_hub cn) \<and>
     (cn_phase cn \<noteq> Gone \<longrightarrow> (\<exists>s. map_of (subs (cn_hub cn)) (cn_sid cn) = Some s \<and> sub_filter s = flt)) \<and>
     (cn_phase cn = Gone \<longrightarrow> map_of (subs (cn_hub cn)) (cn_sid cn) = None)"

lemma logs_round_hub:
  assumes "logs_round marshal env sid sc h = Some (cont, calls, h')" "map_of (subs h) sid = Some s" "sub_filter s = flt"
  shows "hub_trace h (round_events flt sid sc h) h'"
proof (cases "\<exists>wrote. sc = EntryReady wrote")
  case True
  then obtain e where "hub_recv sid h = Some (e, h')" "round_events flt sid sc h = [Received flt e]"
    using assms(1,2) by (auto simp: logs_round_def round_events_def split: option.splits if_splits)
  then show ?thesis
    using hub_step.receive [OF assms(2)] assms(3) by (auto intro: hub_trace.intros)
next
  case False
  then have "h' = h" "round_events flt sid sc h = []"
    using assms(1) by (auto simp: logs_round_def round_events_def split: select_case.splits if_splits)
  then show ?thesis by (simp add: hub_trace.nil)
qed

lemma logs_step_hub:
  assumes "logs_step marshal flt cn evs cn'" "logs_inv flt cn"
  shows "hub_trace (cn_hub cn) evs (cn_hub cn')"
  using assms(1)
proof cases
  case (elsewhere ev h')
  then show ?thesis by (auto intro: hub_trace.intros)
next
  case (environment env)
  then show ?thesis by (simp add: hub_trace.nil)
next
  case (select_round sc cont calls h')
  then show ?thesis using logs_round_hub assms(2) by (fastforce simp: logs_inv_def)
next
  case leave
  then obtain s ch h' where "map_of (subs (cn_hub cn)) (cn_sid cn) = Some s" "sub_filter s = flt"
      "Unsubscribe (cn_sid cn) (cn_hub cn) = Some (ch, h')" "cn_hub cn' = h'"
    using assms(2) by (auto simp: logs_inv_def logs_leave_def)
  then show ?thesis using leave(1) hub_trace.cons [OF hub_step.unsubscribe hub_trace.nil] by auto
qed

lemma logs_step_length: "logs_step marshal flt cn evs cn' \<Longrightarrow> length evs \<le> 1"
  by (erule logs_stepE) (auto simp: round_events_def split: select_case.splits option.splits)

lemma hub_recv_keeps_sub:
  assumes "hub_recv sid h = Some (e, h')"
  shows "\<exists>s s'. map_of (subs h) sid = Some s \<and> map_of (subs h') sid = Some s' \<and> sub_filter s' = sub_filter s"
  using assms by (auto simp: hub_recv_def update_conv split: option.splits list.splits)

lemma logs_step_inv:
  assumes "logs_step marshal flt cn evs cn'" "logs_inv flt cn" "unat (nextID (cn_hub cn)) < 2 ^ 64 - 1"
  shows "logs_inv flt cn'"
proof -
  have n: "nextID (cn_hub cn) \<noteq> - 1" using assms(3) by (rule not_max)
  have "unat (nextID (cn_hub cn)) + length evs < 2 ^ 64"
    using logs_step_length [OF assms(1)] assms(3) by simp
  then have inv: "hub_inv (cn_hub cn')"
    using hub_trace_inv [OF logs_step_hub [OF assms(1,2)]] assms(2) by (simp add: logs_inv_def)
  show ?thesis
    using assms(1)
  proof cases
    case (elsewhere ev h')
    obtain s where s: "map_of (subs (cn_hub cn)) (cn_sid cn) = Some s" "sub_filter s = flt"
      using assms(2) elsewhere(3) by (auto simp: logs_inv_def)
    then obtain s' where s': "map_of (subs h') (cn_sid cn) = Some s'"
      using elsewhere(5) by (auto simp: keeps_chan_def chan_buf_def)
    show ?thesis
      using hub_step_filter [OF elsewhere(4) _ n s(1) s'] s' s(2) inv elsewhere assms(2)
      by (auto simp: logs_inv_def)
  next
    case (environment env)
    then show ?thesis using assms(2) by (simp add: logs_inv_def)
  next
    case (select_round sc cont calls h')
    obtain s where s: "map_of (subs (cn_hub cn)) (cn_sid cn) = Some s" "sub_filter s = flt"
      using assms(2) select_round(3) by (auto simp: logs_inv_def)
    have "\<exists>s'. map_of (subs h') (cn_sid cn) = Some s' \<and> sub_filter s' = flt"
      using select_round(4) s hub_recv_keeps_sub [of "cn_sid cn" "cn_hub cn"]
      by (fastforce simp: logs_round_def split: select_case.splits option.splits if_splits)
    then show ?thesis using inv select_round by (auto simp: logs_inv_def)
  next
    case leave
    then obtain s ch where s: "map_of (subs (cn_hub cn)) (cn_sid cn) = Some s"
        "Unsubscribe (cn_sid cn) (cn_hub cn) = Some (ch, cn_hub cn')" "cn_phase cn' = Gone" "cn_sid cn' = cn_sid cn"
      using assms(2) by (auto simp: logs_inv_def logs_leave_def)
    have "subs (cn_hub cn') = filter (\<lambda>p. fst p \<noteq> cn_sid cn) (subs (cn_hub cn))"
      using Unsubscribe_eq [OF _ s(1)] s(2) assms(2) by (auto simp: logs_inv_def Let_def split: if_splits)
    then show ?thesis using inv s(3,4) by (simp add: logs_inv_def map_of_eq_None_iff image_iff)
  qed
qed

lemma logs_trace_hub:
  assumes "logs_trace marshal flt cn evs cn'" "logs_inv flt cn" "unat (nextID (cn_hub cn)) + length evs < 2 ^ 64 - 1"
  shows "hub_trace (cn_hub cn) evs (cn_hub cn') \<and> logs_inv flt cn' \<and> cn_sid cn' = cn_sid cn \<and>
    unat (nextID (cn_hub cn')) \<le> unat (nextID (cn_hub cn)) + length evs"
  using assms
proof (induction rule: logs_trace.induct)
  case (logs_nil cn)
  then show ?case by (simp add: hub_trace.nil)
next
  case (logs_snoc cn evs cn1 evs1 cn')
  have IH: "hub_trace (cn_hub cn) evs (cn_hub cn1)" "logs_inv flt cn1" "cn_sid cn1 = cn_sid cn"
      "unat (nextID (cn_hub cn1)) \<le> unat (nextID (cn_hub cn)) + length evs"
    using logs_snoc.IH logs_snoc.prems by auto
  have n: "unat (nextID (cn_hub cn1)) < 2 ^ 64 - 1" using IH(4) logs_snoc.prems(2) by simp
  note inv = logs_step_inv [OF logs_snoc.hyps(2) IH(2) n]
  note tr = logs_step_hub [OF logs_snoc.hyps(2) IH(2)]
  have "cn_sid cn' = cn_sid cn1" using logs_snoc.hyps(2) by cases (auto simp: logs_leave_def)
  moreover have "unat (nextID (cn_hub cn')) \<le> unat (nextID (cn_hub cn1)) + length evs1"
    using hub_trace_inv [OF tr] IH(2,4) logs_snoc.prems(2) by (simp add: logs_inv_def)
  ultimately show ?case using hub_trace_append [OF IH(1) tr] inv IH(3,4) by simp
qed

subsection \<open>What goes over the wire\<close>

fun data_frames :: "wcall list \<Rightarrow> string list" where
  "data_frames [] = []"
| "data_frames (WriteBytes b # calls) = (if HasPrefix b ''data: '' then b # data_frames calls else data_frames calls)"
| "data_frames (_ # calls) = data_frames calls"

lemma data_frames_append [simp]: "data_frames (xs @ ys) = data_frames xs @ data_frames ys"
  by (induction xs rule: data_frames.induct) auto

lemma data_frame_prefix [simp]: "HasPrefix (data_frame body) ''data: ''"
  unfolding data_frame_def by (rule HasPrefix_append)

lemma exclusive_prefix: "exclusive k att (xs @ ys) \<Longrightarrow> exclusive k att xs"
  by (induction k att xs rule: exclusive.induct) (auto split: if_splits)

lemma elsewhere_receives_nothing:
  assumes "hub_step h ev h'" "hub_inv h" "map_of (subs h) sid = Some s" "sub_filter s = k"
    and "keeps_chan sid h h'" "length (carriers k (subs h)) \<le> 1"
  shows "received k ev = []"
  using assms(1)
proof cases
  case (receive sid' s' e)
  show ?thesis
  proof (cases "sub_filter s' = k")
    case True
    have "carriers k (subs h) = [(sid, s)]" "carriers k (subs h) = [(sid', s')]"
      using carriers_sole [OF assms(6) map_of_SomeD [OF assms(3)]]
        carriers_sole [OF assms(6) map_of_SomeD [OF receive(2)]] assms(4) True by simp_all
    then have eq: "sid' = sid" "s' = s" by simp_all
    obtain es where "buf (sub_ch s) = e # es" "chan_buf sid h' = Some es"
      using receive(2,3) unfolding eq by (auto simp: hub_recv_def chan_buf_def update_conv split: list.splits)
    then show ?thesis using assms(3,5) by (auto simp: keeps_chan_def chan_buf_def)
  next
    case False
    then show ?thesis using receive(1) by simp
  qed
qed auto

lemma logs_round_wire:
  assumes "logs_round marshal env sid sc h = Some (cont, calls, h')"
  shows "\<exists>sent lost. data_frames calls = map data_frame (List.map_filter marshal sent) \<and>
    concat (map (received flt) (round_events flt sid sc h)) = sent @ lost \<and>
    length lost \<le> 1 \<and> (cont \<longrightarrow> lost = []) \<and> (lost \<noteq> [] \<longrightarrow> se_broken env)"
proof (cases "(\<exists>wrote. sc = EntryReady wrote) \<and> map_of (subs h) sid \<noteq> None")
  case True
  then obtain wrote s where w: "sc = EntryReady wrote" "map_of (subs h) sid = Some s" by auto
  then obtain e where e: "hub_recv sid h = Some (e, h')"
    using assms by (auto simp: logs_round_def split: option.splits if_splits)
  have r: "concat (map (received flt) (round_events flt sid sc h)) = [e]" using w e by (simp add: round_events_def)
  have "marshal e = None \<or> wrote \<Longrightarrow> data_frames calls = map data_frame (List.map_filter marshal [e])"
      "\<not> (marshal e = None \<or> wrote) \<Longrightarrow> calls = [] \<and> \<not> cont \<and> se_broken env"
    using assms w e by (auto simp: logs_round_def map_filter_simps split: option.splits if_splits)
  then show ?thesis
    using r by (cases "marshal e = None \<or> wrote")
      (auto simp: map_filter_simps intro: exI [of _ "[e]"] exI [of _ "[]"])
next
  case False
  then show ?thesis
    using assms by (intro exI [of _ "[]"])
      (auto simp: logs_round_def round_events_def map_filter_simps HasPrefix_def hub_recv_def split: select_case.splits if_splits)
qed

lemma logs_wire:
  assumes "logs_trace marshal flt cn evs cn'" "logs_inv flt cn" "unat (nextID (cn_hub cn)) + length evs < 2 ^ 64 - 1"
    and "length (carriers flt (subs (cn_hub cn))) \<le> 1" "exclusive flt (carriers flt (subs (cn_hub cn)) \<noteq> []) evs"
  shows "\<exists>sent lost. data_frames (cn_calls cn') = data_frames (cn_calls cn) @ map data_frame (List.map_filter marshal sent) \<and>
    concat (map (received flt) evs) = sent @ lost \<and> length lost \<le> 1 \<and> (cn_phase cn' = Streaming \<longrightarrow> lost = []) \<and>
    (lost \<noteq> [] \<longrightarrow> se_broken (cn_env cn'))"
  using assms
proof (induction rule: logs_trace.induct)
  case (logs_nil cn)
  then show ?case by (intro exI [of _ "[]"]) (simp add: map_filter_simps)
next
  case (logs_snoc cn evs cn1 evs1 cn')
  note tr = logs_trace_hub [OF logs_snoc.hyps(1) logs_snoc.prems(1)]
  have h1: "hub_trace (cn_hub cn) evs (cn_hub cn1)" "logs_inv flt cn1" using tr logs_snoc.prems(2) by auto
  obtain sent lost where w: "data_frames (cn_calls cn1) = data_frames (cn_calls cn) @ map data_frame (List.map_filter marshal sent)"
      "concat (map (received flt) evs) = sent @ lost" "length lost \<le> 1" "cn_phase cn1 = Streaming \<longrightarrow> lost = []"
      "lost \<noteq> [] \<longrightarrow> se_broken (cn_env cn1)"
    using logs_snoc.IH logs_snoc.prems exclusive_prefix by fastforce
  have one: "length (carriers flt (subs (cn_hub cn1))) \<le> 1"
    using hub_trace_carriers [OF h1(1) _ _ logs_snoc.prems(3,4)] logs_snoc.prems(1,2) by (simp add: logs_inv_def)
  show ?case
    using logs_snoc.hyps(2)
  proof cases
    case (elsewhere ev h')
    have "received flt ev = []"
      using elsewhere_receives_nothing [OF elsewhere(4) _ _ _ elsewhere(5) one] h1(2) elsewhere(3)
      by (auto simp: logs_inv_def)
    then show ?thesis using w elsewhere by (intro exI [of _ sent] exI [of _ lost]) auto
  next
    case (environment env)
    then show ?thesis using w by (intro exI [of _ sent] exI [of _ lost]) (auto simp: env_le_def)
  next
    case (select_round sc cont calls h')
    obtain sent1 lost1 where "data_frames calls = map data_frame (List.map_filter marshal sent1)"
        "concat (map (received flt) evs1) = sent1 @ lost1" "length lost1 \<le> 1" "cont \<longrightarrow> lost1 = []"
        "lost1 \<noteq> [] \<longrightarrow> se_broken (cn_env cn1)"
      using logs_round_wire [OF select_round(4), of flt] select_round(1) by auto
    moreover have "lost = []" using w(4) select_round by blast
    ultimately show ?thesis
      using w(1,2) select_round(1,2) by (intro exI [of _ "sent @ sent1"] exI [of _ lost1]) (simp add: map_filter_def)
  next
    case leave
    then show ?thesis using w by (intro exI [of _ sent] exI [of _ lost]) (auto simp: logs_leave_def)
  qed
qed

lemma logs_start_inv:
  assumes "hub_inv h" "unat (nextID h) < 2 ^ 64 - 1" "logs_start pr c w env wrote r h = Some (Inr cn)"
  shows "logs_inv (Query_Get (rq_rawquery r) (co_logsFilterParam c)) cn"
    and "hub_step h (Subscribed (Query_Get (rq_rawquery r) (co_logsFilterParam c)) (cn_sid cn)) (cn_hub cn)"
    and "unat (nextID (cn_hub cn)) \<le> Suc (unat (nextID h))" "data_frames (cn_calls cn) = []" "cn_phase cn \<noteq> Gone"
proof -
  let ?flt = "Query_Get (rq_rawquery r) (co_logsFilterParam c)"
  have n: "nextID h \<noteq> - 1" using assms(2) by (rule not_max)
  have sub: "Subscribe ?flt h = Some (cn_sid cn, cn_hub cn)"
    using assms(3) by (auto simp: logs_start_def split: option.splits if_splits)
  then show step: "hub_step h (Subscribed ?flt (cn_sid cn)) (cn_hub cn)" by (rule hub_step.subscribe)
  show "unat (nextID (cn_hub cn)) \<le> Suc (unat (nextID h))" using hub_step_frame [OF step assms(1) n, of "[]"] by simp
  show "data_frames (cn_calls cn) = []" and ph: "cn_phase cn \<noteq> Gone"
    using assms(3) by (auto simp: logs_start_def sse_headers_def HasPrefix_def split: option.splits if_splits)
  have "nextID h + 1 \<notin> fst ` set (subs h)" using assms(1) n next_id_fresh(1) by (fastforce simp: hub_inv_def)
  then have "map_of (subs h) (nextID h + 1) = None" by (simp add: map_of_eq_None_iff)
  moreover have "\<exists>s. subs (cn_hub cn) = subs h @ [(nextID h + 1, s)] \<and> sub_filter s = ?flt" "cn_sid cn = nextID h + 1"
    using sub by (auto simp: Subscribe_eq [OF assms(1) n] Let_def dest!: sym [of _ "cn_hub cn"])
  ultimately show "logs_inv ?flt cn"
    using hub_step_inv [OF step assms(1) n] ph by (auto simp: logs_inv_def map_add_def map_of_append)
qed

lemma map_filter_frames:
  "map data_frame (List.map_filter marshal es) = map (\<lambda>e. data_frame (the (marshal e))) (filter (\<lambda>e. marshal e \<noteq> None) es)"
  by (simp add: List.map_filter_def)

text \<open>How a stream ends, and when it does not.\<close>

lemma logs_one: "logs_step marshal flt cn evs cn' \<Longrightarrow> logs_trace marshal flt cn evs cn'"
  using logs_trace.logs_snoc [OF logs_trace.logs_nil] by fastforce

lemma logs_step_env: "logs_step marshal flt cn evs cn' \<Longrightarrow> env_le (cn_env cn) (cn_env cn')"
  by (erule logs_stepE) (auto simp: env_le_def logs_leave_def)

lemma shutdown_leaves:
  assumes "logs_inv flt cn" "unat (nextID (cn_hub cn)) < 2 ^ 64 - 1" "cn_phase cn \<noteq> Gone" "se_sseClosed (cn_env cn)"
  shows "\<exists>cn'. logs_trace marshal flt cn [Unsubscribed flt (cn_sid cn)] cn' \<and> cn_env cn' = cn_env cn \<and> cn_phase cn' = Gone \<and>
    cn_calls cn' = cn_calls cn \<and> map_of (subs (cn_hub cn')) (cn_sid cn) = None"
proof -
  let ?l = "cn\<lparr>cn_phase := Leaving\<rparr>"
  have l: "logs_trace marshal flt cn [] ?l"
  proof (cases "cn_phase cn = Streaming")
    case True
    then have "logs_step marshal flt cn [] ?l"
      using logs_step.select_round [of cn marshal SseShutdown False "[]" "cn_hub cn" flt] assms(4)
      by (simp add: logs_round_def round_events_def)
    then show ?thesis by (rule logs_one)
  next
    case False
    then have "?l = cn" using assms(3) by (cases "cn_phase cn") auto
    then show ?thesis using logs_trace.logs_nil [of marshal flt cn] by simp
  qed
  have inv: "logs_inv flt ?l" using assms(1,3) by (simp add: logs_inv_def)
  have "Unsubscribe (cn_sid cn) (cn_hub cn) \<noteq> None" using assms(1) by (intro hub_ops_total(3)) (simp add: logs_inv_def)
  then obtain cn' where leave: "logs_leave ?l = Some cn'" by (fastforce simp: logs_leave_def)
  then have step: "logs_step marshal flt ?l [Unsubscribed flt (cn_sid cn)] cn'" using logs_step.leave [of ?l cn' marshal flt] by simp
  have "cn_env cn' = cn_env cn" "cn_phase cn' = Gone" "cn_calls cn' = cn_calls cn" "cn_sid cn' = cn_sid cn" using leave by (auto simp: logs_leave_def)
  then show ?thesis
    using logs_trace.logs_snoc [OF l step] logs_step_inv [OF step inv] assms(2) by (auto simp: logs_inv_def)
qed

lemma quiet_stays_up:
  assumes "logs_trace marshal flt cn evs cn'" "logs_inv flt cn" "unat (nextID (cn_hub cn)) + length evs < 2 ^ 64 - 1" "cn_phase cn = Streaming"
    and "cn_env cn' = \<lparr>se_ctxDone = False, se_sseClosed = False, se_broken = False\<rparr>"
  shows "cn_phase cn' = Streaming"
  using assms
proof (induction rule: logs_trace.induct)
  case (logs_snoc cn evs cn1 evs1 cn')
  have env: "cn_env cn1 = \<lparr>se_ctxDone = False, se_sseClosed = False, se_broken = False\<rparr>"
    using logs_step_env [OF logs_snoc.hyps(2)] logs_snoc.prems(4) by (simp add: env_le_def)
  have up: "cn_phase cn1 = Streaming" "logs_inv flt cn1"
    using logs_snoc.IH logs_trace_hub [OF logs_snoc.hyps(1)] logs_snoc.prems env by simp_all
  show ?case
    using logs_snoc.hyps(2)
  proof cases
    case (select_round sc cont calls h')
    obtain s where "map_of (subs (cn_hub cn1)) (cn_sid cn1) = Some s" using up by (auto simp: logs_inv_def)
    then have cont using select_round(4) env
      by (auto simp: logs_round_def split: select_case.splits option.splits if_splits)
    then show ?thesis using select_round by simp
  qed (use up in auto)
qed simp

text \<open>Handler and hub together: what was waiting or published is what was sent, lost to one failed write, or still waiting.\<close>

lemma logs_conserves:
  assumes "hub_inv h" "unat (nextID h) + length evs < 2 ^ 64 - 2" "keyOf h = Some f" "observed h"
    and "flt = Query_Get (rq_rawquery r) (co_logsFilterParam c)" "retained h flt \<noteq> None" "carriers flt (subs h) = []"
    and "logs_start pr c w env wrote r h = Some (Inr cn)" "logs_trace marshal flt cn evs cn'"
    and "exclusive flt True evs" "Released flt \<notin> set evs" "drops (cn_hub cn') = drops h"
  shows "\<exists>sent lost.
    pending flt h @ concat (map (published f flt) evs) = sent @ lost @ pending flt (cn_hub cn') \<and>
    data_frames (cn_calls cn') = map (\<lambda>e. data_frame (the (marshal e))) (filter (\<lambda>e. marshal e \<noteq> None) sent) \<and>
    length lost \<le> 1 \<and> (cn_phase cn' = Streaming \<longrightarrow> lost = []) \<and> (lost \<noteq> [] \<longrightarrow> se_broken (cn_env cn'))"
proof -
  have n0: "unat (nextID h) < 2 ^ 64 - 1" using assms(2) by simp
  have n: "nextID h \<noteq> - 1" using n0 by (rule not_max)
  note start = logs_start_inv [OF assms(1) n0 assms(8), folded assms(5)]
  have excl: "exclusive flt (carriers flt (subs h) \<noteq> []) (Subscribed flt (cn_sid cn) # evs)"
    using assms(7,10) by simp
  have one: "length (carriers flt (subs (cn_hub cn))) \<le> 1" "exclusive flt (carriers flt (subs (cn_hub cn)) \<noteq> []) evs"
    using hub_step_carriers [OF start(2) assms(1) n _ excl] assms(7) by simp_all
  have len: "unat (nextID (cn_hub cn)) + length evs < 2 ^ 64 - 1" using start(3) assms(2) by simp
  have tr: "hub_trace (cn_hub cn) evs (cn_hub cn')" using logs_trace_hub [OF assms(9) start(1) len] by simp
  have "chain (calm_step f flt) h (Subscribed flt (cn_sid cn) # evs) (cn_hub cn')"
    using calm_chain [OF hub_trace.cons [OF start(2) tr] assms(1) _ assms(3,4,6) _ _ excl assms(12)] assms(2,7,11) by simp
  from hub_feed.chain_conserves [OF this]
  have "pending flt h @ concat (map (published f flt) evs) = concat (map (received flt) evs) @ pending flt (cn_hub cn')"
    by simp
  moreover obtain sent lost where
      "data_frames (cn_calls cn') = data_frames (cn_calls cn) @ map data_frame (List.map_filter marshal sent)"
      "concat (map (received flt) evs) = sent @ lost" "length lost \<le> 1" "cn_phase cn' = Streaming \<longrightarrow> lost = []"
      "lost \<noteq> [] \<longrightarrow> se_broken (cn_env cn')"
    using logs_wire [OF assms(9) start(1) len one] by blast
  ultimately show ?thesis using start(4) by (intro exI [of _ sent] exI [of _ lost]) (simp add: map_filter_frames)
qed

text \<open>Behind \<open>RecordMetrics\<close> the check for a writer that cannot flush never fires: the recorder always has the method.\<close>

lemma logs_behind_recorder: "logs_start pr c (Recorded sr) env wrote r h \<noteq> Some (Inl calls)"
  by (simp add: logs_start_def split: option.split)

text \<open>A concrete connection for the witnesses: a retained key, one published entry, one round that sends it.\<close>

definition sample_hub :: "(string \<times> string) hub" where
  "sample_hub = Retain ''p'' (NewHub (Some fst) True)"

definition attached_hub :: "(string \<times> string) list \<Rightarrow> (string \<times> string) hub" where
  "attached_hub b = sample_hub\<lparr>nextID := 1,
     subs := [(1, \<lparr>sub_ch = \<lparr>buf = b, room = 256, closed = False\<rparr>, sub_filter = ''p''\<rparr>)]\<rparr>"

definition sample_core :: "(core_state, nat BuildInfo) Core" where
  "sample_core = fst (NewCore sample_protocol sample_config sample_state)"

definition sample_logs_request :: request where
  "sample_logs_request = sample_request\<lparr>rq_rawquery := co_logsFilterParam sample_core @ ''=p''\<rparr>"

text \<open>Only the shutdown channel is closed.\<close>

definition closing_env :: stream_env where
  "closing_env = \<lparr>se_ctxDone = False, se_sseClosed = True, se_broken = False\<rparr>"

definition sample_conn :: "(string \<times> string) list \<Rightarrow> wcall list \<Rightarrow> (string \<times> string) conn" where
  "sample_conn b calls = \<lparr>cn_hub = attached_hub b, cn_sid = 1, cn_phase = Streaming,
     cn_calls = sse_headers @ [WriteBytes ('': connected'' @ event_end), Flush] @ calls, cn_env = closing_env\<rparr>"

lemma sample_filter: "Query_Get (rq_rawquery sample_logs_request) (co_logsFilterParam sample_core) = ''p''"
proof -
  have "plain_query (co_logsFilterParam sample_core)" "plain_query ''p''" by code_simp+
  then show ?thesis using Query_Get_plain by (fastforce simp: sample_logs_request_def)
qed

lemma sample_logs_trace:
  "logs_start sample_protocol sample_core (Raw new_writer) closing_env True sample_logs_request sample_hub = Some (Inr (sample_conn [] []))"
  "logs_trace (\<lambda>e. Some (snd e)) ''p'' (sample_conn [] []) [Published (''p'', ''x''), Received ''p'' (''p'', ''x'')]
     (sample_conn [] [WriteBytes (data_frame ''x''), Flush])"
proof -
  note hub = attached_hub_def sample_hub_def Retain_def NewHub_def
  have sub: "Subscribe ''p'' sample_hub = Some (1, attached_hub [])"
    by (simp add: hub Subscribe_def make_chan_def Let_def subBufSize_def)
  show "logs_start sample_protocol sample_core (Raw new_writer) closing_env True sample_logs_request sample_hub = Some (Inr (sample_conn [] []))"
    by (simp add: logs_start_def sample_filter sub sample_conn_def new_writer_def)
  have "hub_step (attached_hub []) (Published (''p'', ''x'')) (attached_hub [(''p'', ''x'')])"
    by (rule hub_step.publish) (simp add: hub Publish_def entry_key_def try_send_def Let_def)
  moreover have "keeps_chan 1 (attached_hub []) (attached_hub [(''p'', ''x'')])"
    by (simp add: keeps_chan_def chan_buf_def attached_hub_def)
  ultimately have 1: "logs_step (\<lambda>e. Some (snd e)) ''p'' (sample_conn [] []) [Published (''p'', ''x'')] (sample_conn [(''p'', ''x'')] [])"
    using logs_step.elsewhere [of "sample_conn [] []" "Published (''p'', ''x'')" "attached_hub [(''p'', ''x'')]"
        "\<lambda>e. Some (snd e)" "''p''"] by (simp add: sample_conn_def)
  have recv: "hub_recv 1 (attached_hub [(''p'', ''x'')]) = Some ((''p'', ''x''), attached_hub [])"
    by (simp add: hub_recv_def attached_hub_def)
  have 2: "logs_step (\<lambda>e. Some (snd e)) ''p'' (sample_conn [(''p'', ''x'')] []) [Received ''p'' (''p'', ''x'')]
      (sample_conn [] [WriteBytes (data_frame ''x''), Flush])"
    using logs_step.select_round [of "sample_conn [(''p'', ''x'')] []" "\<lambda>e. Some (snd e)" "EntryReady True" True
        "[WriteBytes (data_frame ''x''), Flush]" "attached_hub []" "''p''"] recv
    by (simp add: sample_conn_def logs_round_def round_events_def attached_hub_def)
  show "logs_trace (\<lambda>e. Some (snd e)) ''p'' (sample_conn [] []) [Published (''p'', ''x''), Received ''p'' (''p'', ''x'')]
     (sample_conn [] [WriteBytes (data_frame ''x''), Flush])"
    using logs_trace.logs_snoc [OF logs_trace.logs_snoc [OF logs_trace.logs_nil 1] 2] by simp
qed

lemma sample_hub_facts:
  "hub_inv sample_hub" "nextID sample_hub = 0" "keyOf sample_hub = Some fst" "observed sample_hub" "subs sample_hub = []"
  "retained sample_hub = [''p'' \<mapsto> []]" "drops sample_hub = 0"
  by (simp_all add: sample_hub_def Retain_inv) (simp_all add: Retain_def NewHub_def)


subsection \<open>Properties\<close>

text \<open>C3: A log stream accounts for every entry, end to end. Let \<open>HandleLogs\<close> connect for a retained key that no other
subscriber carries, and let its \<open>select\<close> rounds interleave in any way with the other users of the hub, with
no second subscriber for the key and no drop notification (a full channel or backlog, which the hub reports). What was waiting followed by what was published for the key is: the
entries the stream handled, then at most one entry whose write failed, on a connection that broke, then what waits for the next connection. The data frames written are
those of the handled entries, in order and each once, apart from entries that cannot be encoded, which the code passes over. While the stream is up no write has failed.\<close>

theorem logs_lossless:
  assumes "hub_inv h" "unat (nextID h) + length evs < 2 ^ 64 - 2" "keyOf h = Some f" "observed h"
    and "flt = Query_Get (rq_rawquery r) (co_logsFilterParam c)" "retained h flt \<noteq> None" "carriers flt (subs h) = []"
    and "logs_start pr c w env wrote r h = Some (Inr cn)" "logs_trace marshal flt cn evs cn'"
    and "exclusive flt True evs" "Released flt \<notin> set evs" "drops (cn_hub cn') = drops h"
  shows "\<exists>handled lost.
    pending flt h @ concat (map (published f flt) evs) = handled @ lost @ pending flt (cn_hub cn') \<and>
    data_frames (cn_calls cn') = map (\<lambda>e. data_frame (the (marshal e))) (filter (\<lambda>e. marshal e \<noteq> None) handled) \<and>
    length lost \<le> 1 \<and> (cn_phase cn' = Streaming \<longrightarrow> lost = []) \<and> (lost \<noteq> [] \<longrightarrow> se_broken (cn_env cn'))"
  using assms by (rule logs_conserves)

theorem logs_lossless_witness:
  "\<exists>handled. [(''p'', ''x'')] = handled \<and>
    data_frames (cn_calls (sample_conn [] [WriteBytes (data_frame ''x''), Flush])) = map (\<lambda>e :: string \<times> string. data_frame (snd e)) handled"
proof -
  let ?m = "\<lambda>e :: string \<times> string. Some (snd e)" and ?cn = "sample_conn [] [WriteBytes (data_frame ''x''), Flush]"
  have p: "pending ''p'' sample_hub = []" "pending ''p'' (attached_hub []) = []"
    by (simp_all add: pending_def sample_hub_facts attached_hub_def carriers_def)
  have "\<exists>handled lost.
    pending ''p'' sample_hub @ concat (map (published fst ''p'') [Published (''p'', ''x''), Received ''p'' (''p'', ''x'')]) =
      handled @ lost @ pending ''p'' (cn_hub ?cn) \<and>
    data_frames (cn_calls ?cn) = map (\<lambda>e. data_frame (the (?m e))) (filter (\<lambda>e. ?m e \<noteq> None) handled) \<and>
    length lost \<le> 1 \<and> (cn_phase ?cn = Streaming \<longrightarrow> lost = []) \<and> (lost \<noteq> [] \<longrightarrow> se_broken (cn_env ?cn))"
    by (rule logs_lossless [OF _ _ _ _ _ _ _ sample_logs_trace])
      (simp_all add: sample_hub_facts sample_filter sample_conn_def attached_hub_def carriers_def)
  then show ?thesis using p by (auto simp: sample_conn_def)
qed

text \<open>C28: Streams end when they should and only then. Take a connection of \<open>HandleLogs\<close> after any interleaving with the other users of the hub. If the shutdown channel is closed and the
connection has not left, it can leave at once, by the shutdown case and its deferred \<open>Unsubscribe\<close>, with nothing more written, also if the client is still there and every write would succeed; afterwards it is
no longer registered on the hub. As long as the context is not done, the shutdown channel is open and no write fails, no further round ends the stream. The keepalive
interval is positive, so the ticker cannot panic.\<close>

theorem logs_drains:
  assumes "hub_inv h" "unat (nextID h) + length evs + length evs1 < 2 ^ 64 - 2"
    and "flt = Query_Get (rq_rawquery r) (co_logsFilterParam c)"
    and "logs_start pr c w env wrote r h = Some (Inr cn)" "logs_trace marshal flt cn evs cn'"
  shows "0 < logs_interval c \<and>
    (cn_phase cn' = Gone \<longrightarrow> map_of (subs (cn_hub cn')) (cn_sid cn) = None) \<and>
    (cn_phase cn' \<noteq> Gone \<and> se_sseClosed (cn_env cn') \<longrightarrow>
      (\<exists>cn''. logs_trace marshal flt cn' [Unsubscribed flt (cn_sid cn)] cn'' \<and> cn_env cn'' = cn_env cn' \<and> cn_phase cn'' = Gone \<and>
        cn_calls cn'' = cn_calls cn' \<and> map_of (subs (cn_hub cn'')) (cn_sid cn) = None)) \<and>
    (cn_phase cn' = Streaming \<and> logs_trace marshal flt cn' evs1 cn1 \<and>
      cn_env cn1 = \<lparr>se_ctxDone = False, se_sseClosed = False, se_broken = False\<rparr> \<longrightarrow> cn_phase cn1 = Streaming)"
proof -
  have n0: "unat (nextID h) < 2 ^ 64 - 1" using assms(2) by simp
  note start = logs_start_inv [OF assms(1) n0 assms(4), folded assms(3)]
  have len: "unat (nextID (cn_hub cn)) + length evs < 2 ^ 64 - 1" using start(3) assms(2) by simp
  note run = logs_trace_hub [OF assms(5) start(1) len]
  have inv: "logs_inv flt cn'" "cn_sid cn' = cn_sid cn" using run by auto
  have n': "unat (nextID (cn_hub cn')) < 2 ^ 64 - 1" "unat (nextID (cn_hub cn')) + length evs1 < 2 ^ 64 - 1"
    using run start(3) assms(2) by simp_all
  have "0 < logs_interval c" by (simp add: logs_interval_def defaultKeepaliveInterval_def Let_def)
  then show ?thesis
    using shutdown_leaves [OF inv(1) n'(1), of marshal] quiet_stays_up [OF _ inv(1) n'(2)] inv by (auto simp: logs_inv_def)
qed

theorem logs_drains_witness:
  "\<exists>cn''. cn_phase cn'' = Gone \<and> map_of (subs (cn_hub cn'')) 1 = None \<and> cn_env cn'' = closing_env \<and>
    logs_trace (\<lambda>e. Some (snd e)) ''p'' (sample_conn [] [WriteBytes (data_frame ''x''), Flush]) [Unsubscribed ''p'' 1] cn''"
proof -
  let ?cn = "sample_conn [] [WriteBytes (data_frame ''x''), Flush]" and ?m = "\<lambda>e :: string \<times> string. Some (snd e)"
  have "unat (nextID sample_hub) + length [Published (''p'', ''x''), Received ''p'' (''p'', ''x'')] + length [] < 2 ^ 64 - 2"
    by (simp add: sample_hub_facts)
  from logs_drains [OF sample_hub_facts(1) this sample_filter [symmetric] sample_logs_trace]
  have "cn_phase ?cn \<noteq> Gone \<and> se_sseClosed (cn_env ?cn) \<longrightarrow> (\<exists>cn''. logs_trace ?m ''p'' ?cn [Unsubscribed ''p'' (cn_sid (sample_conn [] []))] cn'' \<and>
      cn_env cn'' = cn_env ?cn \<and> cn_phase cn'' = Gone \<and> cn_calls cn'' = cn_calls ?cn \<and> map_of (subs (cn_hub cn'')) (cn_sid (sample_conn [] [])) = None)"
    by blast
  moreover have "cn_phase ?cn \<noteq> Gone" "se_sseClosed (cn_env ?cn)" "cn_env ?cn = closing_env" "cn_sid (sample_conn [] []) = 1"
    by (simp_all add: sample_conn_def closing_env_def)
  ultimately show ?thesis by metis
qed

end
