(* ===== verification/Log_Pipeline.thy ===== *)
theory Log_Pipeline
  imports Bridge_System Log_Stream
begin

text \<open>
  From the line a worker prints to the event a log client reads: bridge, redactor registry, hub and \<open>HandleLogs\<close> in one step relation. The state is the
  system of \<open>Bridge_System\<close> with one connection; a step is a step of that system elsewhere, a change of what the connection meets from outside, a round of its \<open>select\<close>, or its
  deferred \<open>Unsubscribe\<close>. Each step carries its events of the system and the events of the hub they stand for.
\<close>

subsection \<open>Steps\<close>

fun sys_hub_events :: "('r option \<Rightarrow> string \<Rightarrow> string) \<Rightarrow> (float64 \<Rightarrow> int) \<Rightarrow> 'r Bridge \<Rightarrow> sys_event \<Rightarrow> LogEntry hub_event list" where
  "sys_hub_events masked beyond b (LineIn now key line isStderr) =
     (case line_entry masked beyond b now key line isStderr of None \<Rightarrow> [] | Some (e, aw) \<Rightarrow> [Published e])"
| "sys_hub_events masked beyond b (Secret op) = []"
| "sys_hub_events masked beyond b (HubUse ev) = [ev]"

type_synonym 'r pipe = "'r RedactorRegistry \<times> 'r Bridge \<times> LogEntry conn"

inductive pipe_step :: "('r option \<Rightarrow> string \<Rightarrow> string) \<Rightarrow> (float64 \<Rightarrow> int) \<Rightarrow> (string list \<Rightarrow> 'r) \<Rightarrow> (LogEntry \<Rightarrow> string option) \<Rightarrow> string \<Rightarrow>
    'r pipe \<Rightarrow> sys_event list \<Rightarrow> LogEntry hub_event list \<Rightarrow> 'r pipe \<Rightarrow> bool"
  for masked beyond mk marshal flt where
  elsewhere: "sys_step masked beyond mk (reg, b) ev (reg', b') \<Longrightarrow> cn_phase cn \<noteq> Gone \<Longrightarrow>
    keeps_chan (cn_sid cn) (br_hub b) (br_hub b') \<Longrightarrow>
    pipe_step masked beyond mk marshal flt (reg, b, cn) [ev] (sys_hub_events masked beyond b ev)
      (reg', b', cn\<lparr>cn_hub := br_hub b'\<rparr>)"
| environment: "cn_phase cn \<noteq> Gone \<Longrightarrow> env_le (cn_env cn) env \<Longrightarrow>
    pipe_step masked beyond mk marshal flt (reg, b, cn) [] [] (reg, b, cn\<lparr>cn_env := env\<rparr>)"
| select_round: "cn_phase cn = Streaming \<Longrightarrow>
    logs_round marshal (cn_env cn) (cn_sid cn) sc (br_hub b) = Some (cont, calls, h') \<Longrightarrow>
    hevs = round_events flt (cn_sid cn) sc (br_hub b) \<Longrightarrow>
    pipe_step masked beyond mk marshal flt (reg, b, cn) (map HubUse hevs) hevs
      (reg, b\<lparr>br_hub := h'\<rparr>, cn\<lparr>cn_hub := h', cn_calls := cn_calls cn @ calls, cn_phase := (if cont then Streaming else Leaving)\<rparr>)"
| leave: "cn_phase cn = Leaving \<Longrightarrow> logs_leave cn = Some cn' \<Longrightarrow>
    pipe_step masked beyond mk marshal flt (reg, b, cn) [HubUse (Unsubscribed flt (cn_sid cn))] [Unsubscribed flt (cn_sid cn)]
      (reg, b\<lparr>br_hub := cn_hub cn'\<rparr>, cn')"

inductive pipe_trace :: "('r option \<Rightarrow> string \<Rightarrow> string) \<Rightarrow> (float64 \<Rightarrow> int) \<Rightarrow> (string list \<Rightarrow> 'r) \<Rightarrow> (LogEntry \<Rightarrow> string option) \<Rightarrow> string \<Rightarrow>
    'r pipe \<Rightarrow> sys_event list \<Rightarrow> LogEntry hub_event list \<Rightarrow> 'r pipe \<Rightarrow> bool"
  for masked beyond mk marshal flt where
  pipe_nil: "pipe_trace masked beyond mk marshal flt s [] [] s"
| pipe_snoc: "pipe_trace masked beyond mk marshal flt s evs hevs s1 \<Longrightarrow>
    pipe_step masked beyond mk marshal flt s1 evs1 hevs1 s' \<Longrightarrow>
    pipe_trace masked beyond mk marshal flt s (evs @ evs1) (hevs @ hevs1) s'"

inductive_cases pipe_stepE: "pipe_step masked beyond mk marshal flt s evs hevs s'"

subsection \<open>The parts of a step\<close>

lemma sys_step_hub_events:
  assumes "sys_step masked beyond mk (reg, b) ev (reg', b')"
  shows "sys_hub_events masked beyond b ev = [] \<and> br_hub b' = br_hub b \<or>
    (\<exists>hv. sys_hub_events masked beyond b ev = [hv] \<and> hub_step (br_hub b) hv (br_hub b'))"
  using assms
proof cases
  case (line now key l isStderr)
  then show ?thesis
    by (auto simp: BridgeLine_entry split: option.splits dest!: publish_hub intro: hub_step.publish)
qed (auto simp: setRedactor_def)

lemma sys_step_published:
  assumes "sys_step masked beyond mk (reg, b) ev (reg', b')" "Published e \<in> set (sys_hub_events masked beyond b ev)"
  shows "\<exists>now key line isStderr aw. ev = LineIn now key line isStderr \<and> line_entry masked beyond b now key line isStderr = Some (e, aw)"
  using assms
proof cases
  case (line now key l isStderr)
  then show ?thesis using assms(2) by (auto split: option.splits dest!: sym [of "Some _"])
qed (use assms(2) in auto)

lemma chain_append: "chain step s xs s1 \<Longrightarrow> chain step s1 ys s' \<Longrightarrow> chain step s (xs @ ys) s'"
  by (induction rule: chain.induct) (auto intro: chain.intros)

lemma hub_trace_sys:
  "hub_trace h evs h' \<Longrightarrow> \<forall>ev \<in> set evs. event_in ev = {} \<Longrightarrow>
    chain (sys_step masked beyond mk) (reg, b\<lparr>br_hub := h\<rparr>) (map HubUse evs) (reg, b\<lparr>br_hub := h'\<rparr>)"
proof (induction rule: hub_trace.induct)
  case (cons h ev h1 evs h')
  have "sys_step masked beyond mk (reg, b\<lparr>br_hub := h\<rparr>) (HubUse ev) (reg, (b\<lparr>br_hub := h\<rparr>)\<lparr>br_hub := h1\<rparr>)"
    using cons.hyps(1) cons.prems by (intro sys_step.hub) simp_all
  then show ?case using cons.IH cons.prems by (auto intro: chain_cons)
qed (simp add: chain_nil)

lemma pipe_step_logs:
  assumes "pipe_step masked beyond mk marshal flt (reg, b, cn) evs hevs (reg', b', cn')" "br_hub b = cn_hub cn"
  shows "br_hub b' = cn_hub cn' \<and> length hevs \<le> length evs \<and>
    (hevs = [] \<and> cn' = cn \<or> logs_step marshal flt cn hevs cn')"
  using assms(1)
proof cases
  case (elsewhere ev)
  show ?thesis
    using sys_step_hub_events [OF elsewhere(4)] elsewhere assms(2) [symmetric] logs_step.elsewhere [of cn] by fastforce
next
  case (environment env)
  then show ?thesis using assms(2) logs_step.environment [of cn env marshal flt] by simp
next
  case (select_round sc cont calls h')
  then show ?thesis
    using assms(2) logs_step.select_round [of cn marshal sc cont calls h' flt] by simp
next
  case leave
  then show ?thesis using logs_step.leave [of cn cn'] by simp
qed

lemma pipe_step_sys:
  assumes "pipe_step masked beyond mk marshal flt (reg, b, cn) evs hevs (reg', b', cn')" "br_hub b = cn_hub cn" "logs_inv flt cn"
  shows "chain (sys_step masked beyond mk) (reg, b) evs (reg', b')"
    "Published e \<in> set hevs \<Longrightarrow> \<exists>now key line isStderr aw. evs = [LineIn now key line isStderr] \<and>
      line_entry masked beyond b now key line isStderr = Some (e, aw)"
proof -
  have own: "chain (sys_step masked beyond mk) (reg, b) (map HubUse hevs) (reg, b\<lparr>br_hub := cn_hub cn'\<rparr>)"
    if "logs_step marshal flt cn hevs cn'" "\<forall>ev \<in> set hevs. event_in ev = {}"
    using hub_trace_sys [OF logs_step_hub [OF that(1) assms(3)] that(2), of masked beyond mk reg b] by (simp add: assms(2) [symmetric])
  have "chain (sys_step masked beyond mk) (reg, b) evs (reg', b') \<and>
      (Published e \<in> set hevs \<longrightarrow> (\<exists>now key line isStderr aw. evs = [LineIn now key line isStderr] \<and>
        line_entry masked beyond b now key line isStderr = Some (e, aw)))"
    using assms(1)
  proof cases
    case (elsewhere ev)
    then show ?thesis using sys_step_published [OF elsewhere(4)] by (auto intro: chain.intros)
  next
    case (environment env)
    then show ?thesis by (simp add: chain_nil)
  next
    case (select_round sc cont calls h')
    have "hevs = [] \<or> (\<exists>x. hevs = [Received flt x])"
      using select_round by (auto simp: round_events_def split: select_case.splits option.splits)
    then show ?thesis
      using own logs_step.select_round [of cn marshal sc cont calls h' flt] select_round assms(2) by auto
  next
    case leave
    then show ?thesis using own logs_step.leave [of cn cn' marshal flt] by auto
  qed
  then show "chain (sys_step masked beyond mk) (reg, b) evs (reg', b')"
    "Published e \<in> set hevs \<Longrightarrow> \<exists>now key line isStderr aw. evs = [LineIn now key line isStderr] \<and>
      line_entry masked beyond b now key line isStderr = Some (e, aw)" by auto
qed

subsection \<open>Runs\<close>

lemma pipe_step_inv:
  assumes step: "pipe_step masked beyond mk marshal flt (reg, b, cn) evs hevs (reg', b', cn')"
    and inv: "br_hub b = cn_hub cn" "logs_inv flt cn" "sys_inv masked beyond mk cfg hist reg b" and len: "length hist + length evs < 2 ^ 64 - 1"
  shows "logs_inv flt cn'" "sys_inv masked beyond mk cfg (hist @ evs) reg' b'" "\<forall>e. Published e \<in> set hevs \<longrightarrow> bridged_in masked beyond mk cfg (hist @ evs) e"
proof -
  have n: "unat (nextID (cn_hub cn)) < 2 ^ 64 - 1" using inv(1,3) len by (simp add: sys_inv_def)
  show "logs_inv flt cn'" using pipe_step_logs [OF step inv(1)] logs_step_inv inv(2) n by blast
  show "sys_inv masked beyond mk cfg (hist @ evs) reg' b'"
    using sys_chain [OF pipe_step_sys(1) [OF step inv(1,2)], where cfg = cfg and hist = hist] inv(3) len by simp
  show "\<forall>e. Published e \<in> set hevs \<longrightarrow> bridged_in masked beyond mk cfg (hist @ evs) e"
    using pipe_step_sys(2) [OF step inv(1,2)] sys_bridged [OF inv(3)] by metis
qed

lemma pipe_run:
  assumes "pipe_trace masked beyond mk marshal flt s evs hevs s'"
    and "br_hub (fst (snd s)) = cn_hub (snd (snd s))" "logs_inv flt (snd (snd s))" "sys_inv masked beyond mk cfg hist (fst s) (fst (snd s))"
    and "length hist + length evs < 2 ^ 64 - 1"
  shows "br_hub (fst (snd s')) = cn_hub (snd (snd s')) \<and> logs_inv flt (snd (snd s')) \<and> sys_inv masked beyond mk cfg (hist @ evs) (fst s') (fst (snd s')) \<and>
    length hevs \<le> length evs \<and> logs_trace marshal flt (snd (snd s)) hevs (snd (snd s')) \<and>
    (\<forall>e. Published e \<in> set hevs \<longrightarrow> bridged_in masked beyond mk cfg (hist @ evs) e)"
  using assms
proof (induction rule: pipe_trace.induct)
  case (pipe_nil s)
  then show ?case by (simp add: logs_trace.logs_nil)
next
  case (pipe_snoc s evs hevs s1 evs1 hevs1 s')
  obtain reg b cn where s1: "s1 = (reg, b, cn)" by (cases s1)
  obtain reg' b' cn' where s': "s' = (reg', b', cn')" by (cases s')
  have IH: "br_hub b = cn_hub cn" "logs_inv flt cn" "sys_inv masked beyond mk cfg (hist @ evs) reg b" "length hevs \<le> length evs"
      "logs_trace marshal flt (snd (snd s)) hevs cn" "\<forall>e. Published e \<in> set hevs \<longrightarrow> bridged_in masked beyond mk cfg (hist @ evs) e"
    using pipe_snoc.IH pipe_snoc.prems s1 by auto
  note step = pipe_snoc.hyps(2) [unfolded s1 s']
  have len: "length (hist @ evs) + length evs1 < 2 ^ 64 - 1" using pipe_snoc.prems(4) by simp
  note new = pipe_step_inv [OF step IH(1-3) len]
  have red: "\<forall>e. Published e \<in> set (hevs @ hevs1) \<longrightarrow> bridged_in masked beyond mk cfg (hist @ evs @ evs1) e"
    using new(3) IH(6) bridged_in_mono [of masked beyond mk cfg "hist @ evs" _ evs1] by auto
  have "logs_trace marshal flt (snd (snd s)) (hevs @ hevs1) cn'"
    using pipe_step_logs [OF step IH(1)] IH(5) logs_trace.logs_snoc [OF IH(5)] by auto
  then show ?case using pipe_step_logs [OF step IH(1)] IH(4) new(1,2) red s' by auto
qed

lemma sys_chain_frame:
  assumes "chain (sys_step masked beyond mk) s evs s'" "sys_inv masked beyond mk cfg hist (fst s) (snd s)" "length hist + length evs < 2 ^ 64"
  shows "keyOf (br_hub (snd s')) = keyOf (br_hub (snd s)) \<and> observed (br_hub (snd s')) = observed (br_hub (snd s))"
  using assms
proof (induction arbitrary: hist rule: chain.induct)
  case (chain_cons s ev s1 evs s')
  obtain reg b reg1 b1 where s: "s = (reg, b)" "s1 = (reg1, b1)" by (cases s, cases s1)
  have len: "length hist < 2 ^ 64 - 1" using chain_cons.prems(2) by simp
  have inv: "hub_inv (br_hub b)" "unat (nextID (br_hub b)) < 2 ^ 64 - 1" using chain_cons.prems(1) len s by (auto simp: sys_inv_def)
  have n: "nextID (br_hub b) \<noteq> - 1" using inv(2) by (rule not_max)
  have "keyOf (br_hub b1) = keyOf (br_hub b) \<and> observed (br_hub b1) = observed (br_hub b)"
    using sys_step_hub_events [OF chain_cons.hyps(1) [unfolded s]] hub_step_frame [OF _ inv(1) n] by auto
  moreover have "sys_inv masked beyond mk cfg (hist @ [ev]) (fst s1) (snd s1)"
    using sys_step_inv [OF chain_cons.prems(1) chain_cons.hyps(1) len] .
  ultimately show ?case using chain_cons.IH [of "hist @ [ev]"] chain_cons.prems(2) s by simp
qed simp

lemma pending_waiting: "e \<in> set (pending k h) \<Longrightarrow> e \<in> hub_waiting h"
  by (force simp: pending_def carriers_def hub_waiting_iff split: option.splits)

lemma published_in: "e \<in> set (concat (map (published f k) evs)) \<Longrightarrow> Published e \<in> set evs"
proof (induction evs)
  case (Cons ev evs)
  then show ?case by (cases ev) (auto split: if_splits)
qed simp

lemma sys_reaches:
  assumes "cfg_Hub cfg = NewHub kf obs" "chain (sys_step masked beyond mk) (sys_start mk cfg) evs (reg, b)" "length evs < 2 ^ 64"
  shows "sys_inv masked beyond mk cfg evs reg b" "keyOf (br_hub b) = kf" "observed (br_hub b) = obs"
proof -
  have "nextID (NewHub kf obs) = 0" by (simp add: NewHub_def)
  then have start: "sys_inv masked beyond mk cfg [] (fst (sys_start mk cfg)) (snd (sys_start mk cfg))"
    using sys_start_inv [of cfg] assms(1) by simp
  show "sys_inv masked beyond mk cfg evs reg b" using sys_chain [OF assms(2) start] assms(3) by simp
  show "keyOf (br_hub b) = kf" "observed (br_hub b) = obs"
    using sys_chain_frame [OF assms(2) start] assms(1,3) by (simp_all add: sys_start_def NewBridge_def setRedactor_def NewHub_def Let_def)
qed

text \<open>A connection that starts on a reachable system is a step of the system, and its hub is the hub of the bridge from then on.\<close>

lemma connect_inv:
  assumes inv: "sys_inv masked beyond mk cfg evs reg b" and start: "logs_start pr c w env wrote r (br_hub b) = Some (Inr cn)" and len: "length evs < 2 ^ 64 - 2"
  defines "flt \<equiv> Query_Get (rq_rawquery r) (co_logsFilterParam c)"
  shows "sys_inv masked beyond mk cfg (evs @ [HubUse (Subscribed flt (cn_sid cn))]) reg (b\<lparr>br_hub := cn_hub cn\<rparr>)" "logs_inv flt cn"
proof -
  have "hub_inv (br_hub b)" "unat (nextID (br_hub b)) < 2 ^ 64 - 1" using inv len by (auto simp: sys_inv_def)
  note sub = logs_start_inv [OF this start, folded flt_def]
  show "sys_inv masked beyond mk cfg (evs @ [HubUse (Subscribed flt (cn_sid cn))]) reg (b\<lparr>br_hub := cn_hub cn\<rparr>)"
    using len by (intro sys_use_inv(1) [OF inv sub(2)]) simp_all
  show "logs_inv flt cn" using sub(1) .
qed

subsection \<open>Property\<close>

text \<open>C2: From the line a worker prints to the event a log client reads. On a system reached from its start, with secrets coming and going, let a log client
connect for a retained key nobody else carries, and let its stream interleave with lines of workers, changes of secrets and the other users of the hub, with no second subscriber for the key and
no drop notification. The entries that waited and those the lines of workers became, in order, are: those the stream handled, then at
most one whose write failed, on a connection that broke, then those still waiting. The events written to the client are those of the handled entries, in order and each once, apart from entries that cannot be
encoded, which are passed over. Every handled entry is the entry of a line, its content passed through the redactor for exactly the secrets live at the moment that line was bridged.\<close>

theorem lines_to_wire:
  assumes "cfg_Hub cfg = NewHub (Some f) True" "chain (sys_step masked beyond mk) (sys_start mk cfg) before (reg, b)"
    and "length before + length evs < 2 ^ 64 - 4"
    and "flt = Query_Get (rq_rawquery r) (co_logsFilterParam c)" "retained (br_hub b) flt \<noteq> None" "carriers flt (subs (br_hub b)) = []"
    and "logs_start pr c w env wrote r (br_hub b) = Some (Inr cn)"
    and "pipe_trace masked beyond mk marshal flt (reg, b\<lparr>br_hub := cn_hub cn\<rparr>, cn) evs hevs (reg', b', cn')"
    and "exclusive flt True hevs" "Released flt \<notin> set hevs" "drops (br_hub b') = drops (br_hub b)"
  shows "\<exists>handled lost.
    pending flt (br_hub b) @ concat (map (published f flt) hevs) = handled @ lost @ pending flt (br_hub b') \<and>
    data_frames (cn_calls cn') = map (\<lambda>e. data_frame (the (marshal e))) (filter (\<lambda>e. marshal e \<noteq> None) handled) \<and>
    length lost \<le> 1 \<and> (cn_phase cn' = Streaming \<longrightarrow> lost = []) \<and> (lost \<noteq> [] \<longrightarrow> se_broken (cn_env cn')) \<and>
    (\<forall>e \<in> set handled. \<exists>pre now key line isStderr later all aw.
       before @ HubUse (Subscribed flt (cn_sid cn)) # evs = pre @ LineIn now key line isStderr # later \<and>
       set all = (\<Union>sid. set (live_keys sid (secret_ops pre))) \<and>
       line_entry masked beyond ((NewBridge cfg)\<lparr>br_redactor := Some (mk all)\<rparr>) now key line isStderr = Some (e, aw))"
proof -
  let ?hist = "before @ [HubUse (Subscribed flt (cn_sid cn))]"
  have len: "length before < 2 ^ 64" "length before < 2 ^ 64 - 2" "length ?hist + length evs < 2 ^ 64 - 1" using assms(3) by simp_all
  note reach = sys_reaches [OF assms(1,2) len(1)]
  note conn = connect_inv [OF reach(1) assms(7) len(2), folded assms(4)]
  have run: "br_hub b' = cn_hub cn'" "length hevs \<le> length evs" "logs_trace marshal flt cn hevs cn'"
      "\<forall>e. Published e \<in> set hevs \<longrightarrow> bridged_in masked beyond mk cfg (?hist @ evs) e"
    using pipe_run [OF assms(8) _ _ _ len(3)] conn by simp_all
  have hub: "hub_inv (br_hub b)" "unat (nextID (br_hub b)) + length hevs < 2 ^ 64 - 2" "\<forall>e \<in> hub_waiting (br_hub b). bridged_in masked beyond mk cfg before e"
    using reach(1) run(2) assms(3) by (auto simp: sys_inv_def)
  obtain handled lost where out: "pending flt (br_hub b) @ concat (map (published f flt) hevs) = handled @ lost @ pending flt (cn_hub cn')"
      "data_frames (cn_calls cn') = map (\<lambda>e. data_frame (the (marshal e))) (filter (\<lambda>e. marshal e \<noteq> None) handled)"
      "length lost \<le> 1" "cn_phase cn' = Streaming \<longrightarrow> lost = []" "lost \<noteq> [] \<longrightarrow> se_broken (cn_env cn')"
    using logs_conserves [OF hub(1,2) reach(2) _ assms(4,5,6,7) run(3) assms(9,10)] reach(3) assms(11) run(1) by auto
  have "bridged_in masked beyond mk cfg (?hist @ evs) e" if "e \<in> set handled" for e
  proof -
    have "e \<in> set (pending flt (br_hub b)) \<or> e \<in> set (concat (map (published f flt) hevs))"
      using that arg_cong [OF out(1), of set] by auto
    then show ?thesis
      using run(4) hub(3) bridged_in_mono [of masked beyond mk cfg before e] pending_waiting published_in by fastforce
  qed
  then have "\<forall>e \<in> set handled. bridged_in masked beyond mk cfg (before @ HubUse (Subscribed flt (cn_sid cn)) # evs) e" by simp
  then show ?thesis using out run(1) unfolding bridged_in_def by (intro exI [of _ handled] exI [of _ lost]) simp
qed

text \<open>A run in which a client reads the redacted form of a line that held a secret.\<close>

definition wire_cfg :: "string list BridgeConfig" where
  "wire_cfg = sample_cfg\<lparr>cfg_Hub := NewHub (Some le_Project) True\<rparr>"

definition wire_start :: "string list RedactorRegistry \<times> string list Bridge" where
  "wire_start =
     (let (reg, b) = sys_start (\<lambda>ks. ks) wire_cfg; b1 = b\<lparr>br_hub := Retain ''p'' (br_hub b)\<rparr>;
          reg' = redact_step (\<lambda>ks. ks) (Add ''s'' ''key'') reg
      in (reg', setRedactor (rr_bridge reg') b1))"

lemma wire_start_reached:
  "chain (sys_step sample_masked f_trunc (\<lambda>ks. ks)) (sys_start (\<lambda>ks. ks) wire_cfg)
    [HubUse (Retained ''p''), Secret (Add ''s'' ''key'')] (fst wire_start, snd wire_start)"
proof -
  let ?step = "sys_step sample_masked f_trunc (\<lambda>ks. ks)" and ?s = "sys_start (\<lambda>ks :: string list. ks) wire_cfg"
  let ?b1 = "(snd ?s)\<lparr>br_hub := Retain ''p'' (br_hub (snd ?s))\<rparr>"
  have 1: "?step (fst ?s, snd ?s) (HubUse (Retained ''p'')) (fst ?s, ?b1)" by (intro sys_step.hub hub_step.retain) simp
  have 2: "?step (fst ?s, ?b1) (Secret (Add ''s'' ''key'')) (fst wire_start, snd wire_start)"
    using sys_step.secret [of _ "\<lambda>ks. ks" "Add ''s'' ''key''" "fst ?s" sample_masked f_trunc ?b1]
    by (simp add: wire_start_def sys_start_def Let_def)
  have "chain ?step (fst ?s, snd ?s) [HubUse (Retained ''p''), Secret (Add ''s'' ''key'')] (fst wire_start, snd wire_start)"
    using 1 2 by (meson chain_cons chain_nil)
  then show ?thesis by simp
qed

definition wire_sub :: "(sub_id \<times> LogEntry hub) option" where
  "wire_sub = Subscribe ''p'' (br_hub (snd wire_start))"

definition wire_line :: "LogEntry hub \<Rightarrow> string list Bridge option" where
  "wire_line h = BridgeLine sample_masked f_trunc 7 sample_key ''my key'' True ((snd wire_start)\<lparr>br_hub := h\<rparr>)"

lemma wire_run:
  "case wire_sub of None \<Rightarrow> False | Some (sid, h1) \<Rightarrow>
    (case wire_line h1 of None \<Rightarrow> False | Some b2 \<Rightarrow>
      (case (hub_recv sid (br_hub b2), map_of (subs (br_hub b2)) sid) of
         (Some (e, h3), Some s) \<Rightarrow> le_Content e = ''***'' \<and> chan_buf sid h1 = Some [] \<and> drops h3 = drops (br_hub (snd wire_start)) \<and>
           length (carriers ''p'' (subs (br_hub (snd wire_start)))) = 0 \<and> retained (br_hub (snd wire_start)) ''p'' = Some [] \<and>
           sample_masked (br_redactor (snd wire_start)) ''my key'' = ''***''
       | _ \<Rightarrow> False))"
  by code_simp

theorem lines_to_wire_witness:
  "\<exists>evs hevs reg b cn e. pipe_trace sample_masked f_trunc (\<lambda>ks. ks) (\<lambda>e. Some (le_Content e)) ''p''
      (fst wire_start, (snd wire_start)\<lparr>br_hub := snd (the wire_sub)\<rparr>,
        \<lparr>cn_hub = snd (the wire_sub), cn_sid = fst (the wire_sub), cn_phase = Streaming,
         cn_calls = sse_headers @ [WriteBytes ('': connected'' @ event_end), Flush], cn_env = closing_env\<rparr>) evs hevs (reg, b, cn) \<and>
    Published e \<in> set hevs \<and> le_Content e = ''***'' \<and>
    (\<exists>handled lost. concat (map (published le_Project ''p'') hevs) = handled @ lost @ pending ''p'' (br_hub b) \<and>
      data_frames (cn_calls cn) = map (\<lambda>e. data_frame (le_Content e)) handled)"
proof -
  let ?mk = "\<lambda>ks :: string list. ks" and ?m = "\<lambda>e. Some (le_Content e)" and ?h = "br_hub (snd wire_start)"
  obtain sid h1 where sub: "wire_sub = Some (sid, h1)" using wire_run by (cases wire_sub) auto
  obtain b2 where line: "wire_line h1 = Some b2" using wire_run by (cases "wire_line h1") (auto simp: sub)
  obtain e h3 s where recv: "hub_recv sid (br_hub b2) = Some (e, h3)" "map_of (subs (br_hub b2)) sid = Some s"
    and facts: "le_Content e = ''***''" "chan_buf sid h1 = Some []" "drops h3 = drops ?h" "carriers ''p'' (subs ?h) = []" "retained ?h ''p'' = Some []"
    and mask: "sample_masked (br_redactor (snd wire_start)) ''my key'' = ''***''"
    using wire_run by (cases "hub_recv sid (br_hub b2)"; cases "map_of (subs (br_hub b2)) sid") (auto simp: sub line)
  let ?cn = "\<lparr>cn_hub = h1, cn_sid = sid, cn_phase = Streaming, cn_calls = sse_headers @ [WriteBytes ('': connected'' @ event_end), Flush], cn_env = closing_env\<rparr>"
  let ?b1 = "(snd wire_start)\<lparr>br_hub := h1\<rparr>" and ?ev = "LineIn 7 sample_key ''my key'' True" and ?cn2 = "?cn\<lparr>cn_hub := br_hub b2\<rparr>"
  let ?e = "stamp sample_key (no_entry\<lparr>le_Timestamp := 7, le_Type := ''stderr'', le_Content := sample_masked (br_redactor ?b1) ''my key''\<rparr>)"
  have "sys_step sample_masked f_trunc ?mk (fst wire_start, ?b1) ?ev (fst wire_start, b2)"
    using line unfolding wire_line_def by (rule sys_step.line)
  moreover have "keeps_chan sid h1 (br_hub b2)" unfolding keeps_chan_def facts(2) using recv(2) by (simp add: chan_buf_def)
  ultimately have 1: "pipe_step sample_masked f_trunc ?mk ?m ''p'' (fst wire_start, ?b1, ?cn) [?ev] [Published ?e] (fst wire_start, b2, ?cn2)"
    using pipe_step.elsewhere [of sample_masked f_trunc ?mk "fst wire_start" ?b1 ?ev "fst wire_start" b2 ?cn ?m "''p''"]
    by (simp add: line_entry_def Let_def)
  have 2: "pipe_step sample_masked f_trunc ?mk ?m ''p'' (fst wire_start, b2, ?cn2) [HubUse (Received ''p'' e)] [Received ''p'' e]
      (fst wire_start, b2\<lparr>br_hub := h3\<rparr>, ?cn2\<lparr>cn_hub := h3, cn_calls := cn_calls ?cn2 @ [WriteBytes (data_frame ''***''), Flush], cn_phase := Streaming\<rparr>)"
    using pipe_step.select_round [of ?cn2 ?m "EntryReady True" b2 True "[WriteBytes (data_frame ''***''), Flush]" h3
        "[Received ''p'' e]" "''p''" sample_masked f_trunc ?mk "fst wire_start"] recv facts(1)
    by (simp add: logs_round_def round_events_def)
  note tr = pipe_trace.pipe_snoc [OF pipe_trace.pipe_snoc [OF pipe_trace.pipe_nil 1] 2, simplified append_Nil]
  let ?cn3 = "?cn2\<lparr>cn_hub := h3, cn_calls := cn_calls ?cn2 @ [WriteBytes (data_frame ''***''), Flush], cn_phase := Streaming\<rparr>"
  have tr': "pipe_trace sample_masked f_trunc ?mk ?m ''p'' (fst wire_start, (snd wire_start)\<lparr>br_hub := cn_hub ?cn\<rparr>, ?cn)
      ([?ev] @ [HubUse (Received ''p'' e)]) ([Published ?e] @ [Received ''p'' e]) (fst wire_start, b2\<lparr>br_hub := h3\<rparr>, ?cn3)"
    using tr by simp
  have start: "logs_start sample_protocol sample_core (Raw new_writer) closing_env True sample_logs_request ?h = Some (Inr ?cn)"
    using sub by (simp add: logs_start_def sample_filter wire_sub_def new_writer_def)
  have hub: "cfg_Hub wire_cfg = NewHub (Some le_Project) True" by (simp add: wire_cfg_def)
  have pend: "pending ''p'' ?h = []" using facts(4,5) by (simp add: pending_def)
  have prem: "length [HubUse (Retained ''p''), Secret (Add ''s'' ''key'')] + length ([?ev] @ [HubUse (Received ''p'' e)]) < 2 ^ 64 - 4"
      "retained ?h ''p'' \<noteq> None" "exclusive ''p'' True ([Published ?e] @ [Received ''p'' e])"
      "Released ''p'' \<notin> set ([Published ?e] @ [Received ''p'' e])" "drops (br_hub (b2\<lparr>br_hub := h3\<rparr>)) = drops ?h"
    using facts(3,5) by simp_all
  have "\<exists>handled lost. concat (map (published le_Project ''p'') ([Published ?e] @ [Received ''p'' e])) = handled @ lost @ pending ''p'' (br_hub (b2\<lparr>br_hub := h3\<rparr>)) \<and>
      data_frames (cn_calls ?cn3) = map (\<lambda>e. data_frame (the (?m e))) (filter (\<lambda>e. ?m e \<noteq> None) handled)"
    using lines_to_wire [OF hub wire_start_reached prem(1) sample_filter [symmetric] prem(2) facts(4) start tr' prem(3-5)]
    by (simp only: pend append_Nil) blast
  then have "\<exists>handled lost. concat (map (published le_Project ''p'') ([Published ?e] @ [Received ''p'' e])) = handled @ lost @ pending ''p'' (br_hub (b2\<lparr>br_hub := h3\<rparr>)) \<and>
      data_frames (cn_calls ?cn3) = map (\<lambda>e. data_frame (le_Content e)) handled"
    by (simp only: option.sel option.distinct(2) not_False_eq_True filter_True simp_thms ball_triv)
  note out = this
  have e: "Published ?e \<in> set ([Published ?e] @ [Received ''p'' e])" "le_Content ?e = ''***''" using mask by simp_all
  show ?thesis
    unfolding sub option.sel fst_conv snd_conv
    by (rule exI, rule exI, rule exI, rule exI, rule exI, rule exI, rule conjI [OF tr conjI [OF e(1) conjI [OF e(2) out]]])
qed

end
