(* ===== verification/Dedup_Cache.thy ===== *)
theory Dedup_Cache
  imports Ttl_Cache
begin

text \<open>
  \<open>webhookcore/dedup.go\<close>: the cache of (scope, messageID) pairs whose \<open>/message\<close> request was
  recorded. The clock is an argument of \<open>CheckAndRecord\<close>, as in the replay cache; the maintenance
  call of this cache is \<open>Rollback\<close>. The lemmas show that \<open>CheckAndRecord\<close> implements
  \<open>spec_check\<close> on non-empty message IDs, that \<open>Rollback\<close> forgets exactly its pair, and that keys
  of different pairs never meet.
\<close>

record dedupEntry =
  de_key :: string
  de_stored :: instant

record DedupCache = "dedupEntry indexed" +
  dc_ttl :: duration
  dc_capacity :: int

definition NewDedupCache :: "duration \<Rightarrow> int \<Rightarrow> (DedupCache \<Rightarrow> DedupCache) list \<Rightarrow> DedupCache" where
  "NewDedupCache ttl capacity opts =
     fold (\<lambda>opt c. opt c) opts
       \<lparr>entries = list_New, index = Map.empty, dc_ttl = ttl, dc_capacity = capacity\<rparr>"

definition dedupKey :: "string \<Rightarrow> string \<Rightarrow> string" where
  "dedupKey scope messageID = scope @ [CHR 0x00] @ messageID"

text \<open>The part of \<open>CheckAndRecord\<close> after the lookup: push, then enforce the capacity.\<close>

definition dedup_insert :: "instant \<Rightarrow> string \<Rightarrow> DedupCache \<Rightarrow> bool \<times> DedupCache" where
  "dedup_insert now key c =
     (let c1 = record_back key \<lparr>de_key = key, de_stored = now\<rparr> c in
      (False, if dc_capacity c1 > 0 then evict_over de_key (dc_capacity c1) c1 else c1))"

text \<open>The critical section of \<open>CheckAndRecord\<close>, on the composite key.\<close>

definition dedup_check :: "instant \<Rightarrow> string \<Rightarrow> DedupCache \<Rightarrow> bool \<times> DedupCache" where
  "dedup_check now key c =
     (case index c key of
        None \<Rightarrow> dedup_insert now key c
      | Some el \<Rightarrow>
          if dc_ttl c \<le> 0 \<or> time_Sub now (de_stored (val el)) \<le> dc_ttl c then (True, c)
          else dedup_insert now key (reap key el c))"

definition CheckAndRecord :: "instant \<Rightarrow> string \<Rightarrow> string \<Rightarrow> DedupCache \<Rightarrow> bool \<times> DedupCache" where
  "CheckAndRecord now scope messageID c =
     (if messageID = [] then (False, c) else dedup_check now (dedupKey scope messageID) c)"

definition Rollback :: "string \<Rightarrow> string \<Rightarrow> DedupCache \<Rightarrow> DedupCache" where
  "Rollback scope messageID c =
     (if messageID = [] then c
      else let key = dedupKey scope messageID in
           (case index c key of None \<Rightarrow> c | Some el \<Rightarrow> reap key el c))"

datatype dedup_maint = RollbackOf string string

fun dedup_maintain :: "dedup_maint \<Rightarrow> DedupCache \<Rightarrow> DedupCache" where
  "dedup_maintain (RollbackOf scope messageID) c = Rollback scope messageID c"

text \<open>A rollback of another pair, or of no pair at all.\<close>

fun dedup_harmless :: "duration \<Rightarrow> dedup_maint \<Rightarrow> string \<Rightarrow> instant \<Rightarrow> bool" where
  "dedup_harmless d (RollbackOf scope messageID) k t = (messageID = [] \<or> dedupKey scope messageID \<noteq> k)"

text \<open>The answers of consecutive calls for one pair, as concurrent retries receive them.\<close>

fun record_all :: "instant list \<Rightarrow> string \<Rightarrow> string \<Rightarrow> DedupCache \<Rightarrow> bool list" where
  "record_all [] scope messageID c = []"
| "record_all (now # nows) scope messageID c =
     (let (dup, c') = CheckAndRecord now scope messageID c in dup # record_all nows scope messageID c')"

abbreviation dedup_ok :: "DedupCache \<Rightarrow> bool" where
  "dedup_ok \<equiv> index_ok de_key"

abbreviation dedup_log :: "DedupCache \<Rightarrow> cache_log" where
  "dedup_log \<equiv> log_of de_key de_stored"

subsection \<open>Refinement of the cache specification\<close>

lemma dedup_frame [simp]:
  "dc_ttl (reap k el c) = dc_ttl c" "dc_capacity (reap k el c) = dc_capacity c"
  "dc_ttl (record_back k v c) = dc_ttl c" "dc_capacity (record_back k v c) = dc_capacity c"
  by (simp_all add: reap_def record_back_def list_PushBack_def Let_def)

lemma evict_over_dedup [simp]:
  "dc_ttl (evict_over keyf cap c) = dc_ttl c" "dc_capacity (evict_over keyf cap c) = dc_capacity c"
proof -
  have "indexed.more (evict_over keyf cap c) = indexed.more c" by (rule evict_over_more)
  then show "dc_ttl (evict_over keyf cap c) = dc_ttl c" "dc_capacity (evict_over keyf cap c) = dc_capacity c"
    by (cases "evict_over keyf cap c"; cases c; simp)+
qed

lemma dedup_insert_spec:
  assumes "dedup_ok c" "index c k = None"
  shows "dedup_ok (snd (dedup_insert now k c))"
    and "dedup_log (snd (dedup_insert now k c)) = trim_to (dc_capacity c) (dedup_log c @ [(k, now)])"
proof -
  let ?v = "\<lparr>de_key = k, de_stored = now\<rparr>"
  have ok: "dedup_ok (record_back k ?v c)" using index_ok_record_back [of de_key c ?v] assms by simp
  then show "dedup_ok (snd (dedup_insert now k c))"
    by (simp add: dedup_insert_def Let_def evict_over_ok)
  show "dedup_log (snd (dedup_insert now k c)) = trim_to (dc_capacity c) (dedup_log c @ [(k, now)])"
    using log_of_evict_over [OF ok, of "dc_capacity c" de_stored]
    by (simp add: dedup_insert_def Let_def trim_to_def log_of_record_back)
qed

lemma dedup_insert_frame [simp]:
  "fst (dedup_insert now k c) = False"
  "dc_ttl (snd (dedup_insert now k c)) = dc_ttl c"
  "dc_capacity (snd (dedup_insert now k c)) = dc_capacity c"
  by (simp_all add: dedup_insert_def Let_def)

lemma dedup_reap:
  assumes "dedup_ok c" "index c k = Some el"
  shows "dedup_ok (reap k el c)" "index (reap k el c) k = None"
    and "dedup_log (reap k el c) = forget k (dedup_log c)"
  using index_ok_reap [OF assms(1) index_okD_in [OF assms]] log_of_reap [OF assms(1) index_okD_in [OF assms]]
    index_okD_key [OF assms]
  by (simp_all add: forget_def) (simp add: reap_def)

lemma dedup_check_spec:
  assumes "dedup_ok c"
  shows "spec_check (dc_ttl c) (dc_capacity c) now k (dedup_log c) =
    (fst (dedup_check now k c), dedup_log (snd (dedup_check now k c)))"
    and "dedup_ok (snd (dedup_check now k c))"
  using assms dedup_reap [OF assms, of k] dedup_insert_spec
  by (auto simp: dedup_check_def spec_check_def map_of_log live_def split: option.splits)

lemma dedup_check_frame [simp]:
  "dc_ttl (snd (dedup_check now k c)) = dc_ttl c"
  "dc_capacity (snd (dedup_check now k c)) = dc_capacity c"
  by (simp_all add: dedup_check_def split: option.splits)

lemma forget_absent: "map_of xs k = None \<Longrightarrow> forget k xs = xs"
  unfolding forget_def by (rule filter_True) (auto simp: map_of_eq_None_iff)

lemma Rollback_spec:
  assumes "dedup_ok c"
  shows "dedup_ok (Rollback scope mid c)"
    and "dedup_log (Rollback scope mid c) =
      (if mid = [] then dedup_log c else forget (dedupKey scope mid) (dedup_log c))"
    and "mid \<noteq> [] \<Longrightarrow> index (Rollback scope mid c) (dedupKey scope mid) = None"
  using assms dedup_reap [OF assms, of "dedupKey scope mid"] map_of_log [OF assms, of de_stored "dedupKey scope mid"]
  by (auto simp: Rollback_def Let_def forget_absent split: option.splits)

lemma Rollback_frame [simp]:
  "dc_ttl (Rollback scope mid c) = dc_ttl c" "dc_capacity (Rollback scope mid c) = dc_capacity c"
  by (simp_all add: Rollback_def Let_def split: option.splits)

interpretation dedup: ttl_cache dedup_ok dedup_log dc_ttl dc_capacity dedup_check dedup_maintain dedup_harmless
proof (unfold_locales, goal_cases)
  case (1 s)
  then show ?case by (rule distinct_log)
next
  case (2 s now k)
  then show ?case by (rule dedup_check_spec)
next
  case (3 s now k)
  then show ?case by (rule dedup_check_spec)
next
  case (6 s m)
  then show ?case by (cases m) (simp add: Rollback_spec)
next
  case (7 s m)
  then show ?case by (cases m) simp
next
  case (8 s m)
  then show ?case by (cases m) simp
next
  case (9 s m)
  then show ?case by (cases m) (simp add: Rollback_spec forget_def)
next
  case (10 s d m k t n)
  then show ?case by (cases m) (auto simp: Rollback_spec intro: holds_forget)
qed simp_all

subsection \<open>Keys\<close>

lemma dedupKey_inject:
  "CHR 0x00 \<notin> set s \<Longrightarrow> CHR 0x00 \<notin> set s' \<Longrightarrow> dedupKey s m = dedupKey s' m' \<longleftrightarrow> s = s' \<and> m = m'"
  using append_sep_inject [of "CHR 0x00" s s' m m'] by (auto simp: dedupKey_def)

subsection \<open>Properties\<close>

lemma NewDedupCache_ok: "dedup_ok (NewDedupCache ttl cap [])" "dedup_log (NewDedupCache ttl cap []) = []"
  by (simp_all add: NewDedupCache_def)

lemma CheckAndRecord_key:
  "mid \<noteq> [] \<Longrightarrow> CheckAndRecord now scope mid c = dedup_check now (dedupKey scope mid) c"
  by (simp add: CheckAndRecord_def)

lemma dedup_check_absent: "index c k = None \<Longrightarrow> fst (dedup_check now k c) = False"
  by (simp add: dedup_check_def)

lemma record_all_held:
  assumes "dedup_ok c" "mid \<noteq> []" "holds (dedupKey scope mid) t n (dedup_log c)"
    and "\<forall>now \<in> set nows. live (dc_ttl c) now t"
  shows "record_all nows scope mid c = replicate (length nows) True"
  using assms
proof (induction nows arbitrary: c)
  case (Cons now nows)
  let ?k = "dedupKey scope mid" and ?c = "snd (dedup_check now (dedupKey scope mid) c)"
  have "spec_check (dc_ttl c) (dc_capacity c) now ?k (dedup_log c) = (True, dedup_log c)"
    using check_held_live [OF distinct_log [OF Cons.prems(1)] Cons.prems(3)] Cons.prems(4) by simp
  then have step: "fst (dedup_check now ?k c) = True" "dedup_log ?c = dedup_log c"
    using dedup_check_spec(1) [OF Cons.prems(1), of now ?k] by simp_all
  have "record_all nows scope mid ?c = replicate (length nows) True"
    using Cons.IH [of ?c] Cons.prems dedup_check_spec(2) [OF Cons.prems(1)] step(2) by simp
  then show ?case using step(1) Cons.prems(2) by (simp add: CheckAndRecord_key case_prod_beta)
qed simp

text \<open>C19: One critical section of \<open>CheckAndRecord\<close> implements the cache specification: on a cache
whose index describes its list, the answer and the new log are those of \<open>spec_check\<close> for the
composite key, and the index describes the new list.\<close>

theorem CheckAndRecord_refines:
  assumes "dedup_ok c" and "mid \<noteq> []"
  shows "spec_check (dc_ttl c) (dc_capacity c) now (dedupKey scope mid) (dedup_log c) =
      (fst (CheckAndRecord now scope mid c), dedup_log (snd (CheckAndRecord now scope mid c))) \<and>
    dedup_ok (snd (CheckAndRecord now scope mid c))"
  using dedup_check_spec [OF assms(1)] by (simp add: CheckAndRecord_key [OF assms(2)])

theorem CheckAndRecord_refines_witness:
  "spec_check 60 2 7 (dedupKey ''s'' ''m'') [] =
      (fst (CheckAndRecord 7 ''s'' ''m'' (NewDedupCache 60 2 [])),
       dedup_log (snd (CheckAndRecord 7 ''s'' ''m'' (NewDedupCache 60 2 []))))"
  using CheckAndRecord_refines [OF NewDedupCache_ok(1), of "''m''" 60 2 7 "''s''"]
  by (simp add: NewDedupCache_ok(2)) (simp add: NewDedupCache_def)

text \<open>C17: A recorded pair is answered as a duplicate for the whole window: after a fresh answer at
\<open>t0\<close>, any interleaving of calls for any pairs and of rollbacks of other pairs leaves the pair a
duplicate at every instant inside the TTL, provided fewer calls than the capacity came between.\<close>

theorem dedup_window:
  assumes "dedup_ok c" and "mid \<noteq> []" and "fst (CheckAndRecord t0 scope mid c) = False"
    and "roomy (dc_capacity c) (check_count steps)"
    and "\<forall>sc m. Maint (RollbackOf sc m) \<in> set steps \<longrightarrow> m = [] \<or> dedupKey sc m \<noteq> dedupKey scope mid"
    and "\<forall>t. Check t (dedupKey scope mid) \<in> set steps \<longrightarrow> live (dc_ttl c) t t0"
    and "live (dc_ttl c) now t0"
  shows "fst (CheckAndRecord now scope mid
    (run_steps dedup_check dedup_maintain steps (snd (CheckAndRecord t0 scope mid c)))) = True"
proof -
  let ?k = "dedupKey scope mid"
  have fresh: "dedup_check t0 ?k c = (False, snd (dedup_check t0 ?k c))"
    using assms(2,3) by (simp add: CheckAndRecord_key prod_eq_iff)
  have "dedup_harmless (dc_ttl c) m ?k t0" if "Maint m \<in> set steps" for m
    using assms(5) that by (cases m) auto
  then show ?thesis
    using dedup.window_guarantee(1) [OF assms(1) fresh assms(4) _ _ assms(7)] assms(6)
    by (simp add: CheckAndRecord_key [OF assms(2)] prod_eq_iff)
qed

theorem dedup_window_witness:
  "fst (CheckAndRecord 50 ''s'' ''m''
    (run_steps dedup_check dedup_maintain [Check 9 (dedupKey ''s'' ''n''), Maint (RollbackOf ''s'' ''n'')]
      (snd (CheckAndRecord 0 ''s'' ''m'' (NewDedupCache 60 16 []))))) = True"
proof (rule dedup_window [OF NewDedupCache_ok(1)])
  show "fst (CheckAndRecord 0 ''s'' ''m'' (NewDedupCache 60 16 [])) = False"
    by (simp add: CheckAndRecord_key dedup_check_absent NewDedupCache_def)
qed (auto simp: roomy_def NewDedupCache_def live_def time_Sub_def dedupKey_def)

text \<open>Of several calls for one pair inside the window of the first, however they are ordered,
exactly the first is answered fresh and every other one is answered as a duplicate, so concurrent
retries deliver at most once.\<close>

theorem dedup_admits_one:
  assumes "dedup_ok c" and "mid \<noteq> []" and "index c (dedupKey scope mid) = None"
    and "\<forall>now \<in> set nows. live (dc_ttl c) now t0"
  shows "record_all (t0 # nows) scope mid c = False # replicate (length nows) True"
proof -
  let ?k = "dedupKey scope mid" and ?c = "snd (dedup_check t0 (dedupKey scope mid) c)"
  have fresh: "fst (dedup_check t0 ?k c) = False" using assms(3) by (rule dedup_check_absent)
  then have "holds ?k t0 0 (dedup_log ?c)"
    using dedup_check_spec(1) [OF assms(1), of t0 ?k] by (auto intro: holds_recorded)
  then have "record_all nows scope mid ?c = replicate (length nows) True"
    using record_all_held [OF dedup_check_spec(2) [OF assms(1)] assms(2)] assms(4) by simp
  then show ?thesis using fresh by (simp add: CheckAndRecord_key [OF assms(2)] case_prod_beta)
qed

theorem dedup_admits_one_witness:
  "record_all [0, 3, 60] ''s'' ''m'' (NewDedupCache 60 1 []) = [False, True, True]"
  using dedup_admits_one [OF NewDedupCache_ok(1), of "''m''" 60 1 "''s''" "[3, 60]" 0]
  by (simp add: NewDedupCache_def live_def time_Sub_def)

text \<open>C25: \<open>Rollback\<close> undoes exactly its own pair: the next call for that pair is answered fresh, and
every other pair is remembered as before. With an empty message ID neither call does anything and
the answer is always fresh.\<close>

theorem Rollback_undoes:
  assumes "dedup_ok c"
  shows "fst (CheckAndRecord now scope mid (Rollback scope mid c)) = False \<and>
    dedup_log (Rollback scope mid c) =
      (if mid = [] then dedup_log c else filter (\<lambda>p. fst p \<noteq> dedupKey scope mid) (dedup_log c)) \<and>
    CheckAndRecord now scope [] c = (False, c) \<and> Rollback scope [] c = c"
proof -
  have "fst (CheckAndRecord now scope mid (Rollback scope mid c)) = False"
    using Rollback_spec(3) [OF assms] by (cases "mid = []") (simp_all add: CheckAndRecord_def dedup_check_absent)
  then show ?thesis
    using Rollback_spec(2) [OF assms] by (simp add: forget_def CheckAndRecord_def Rollback_def)
qed

theorem Rollback_undoes_witness:
  "fst (CheckAndRecord 1 ''s'' ''m'' (Rollback ''s'' ''m'' (snd (CheckAndRecord 0 ''s'' ''m'' (NewDedupCache 60 4 []))))) = False"
proof -
  have "dedup_ok (snd (CheckAndRecord 0 ''s'' ''m'' (NewDedupCache 60 4 [])))"
    by (simp add: CheckAndRecord_key dedup_check_spec(2) NewDedupCache_ok)
  then show ?thesis using Rollback_undoes by blast
qed

text \<open>For scopes without the NUL byte the composite keys of two pairs are equal only when the pairs
are, so no message is answered as a duplicate of a message of another scope or with another ID.\<close>

theorem dedup_keys_separate:
  assumes "CHR 0x00 \<notin> set scope" and "CHR 0x00 \<notin> set scope'"
  shows "dedupKey scope mid = dedupKey scope' mid' \<longleftrightarrow> scope = scope' \<and> mid = mid'"
  by (rule dedupKey_inject [OF assms])

theorem dedup_keys_separate_witness: "dedupKey ''ab'' ''c'' \<noteq> dedupKey ''a'' ''bc''"
  using dedup_keys_separate [of "''ab''" "''a''" "''c''" "''bc''"] by simp

end
