(* ===== verification/Go_Path.thy ===== *)
theory Go_Path
  imports Net_Url
begin

text \<open>\<open>path/filepath\<close> on Unix, as the LLM proxy and the task-skills resolver use it: the lexical clean-up of a path and the joining of
a directory and a name. A cleaned path is never empty.\<close>

text \<open>\<open>filepath.Clean\<close> and \<open>filepath.Join\<close> on Unix.\<close>

definition clean_step :: "bool \<Rightarrow> string \<Rightarrow> string list \<Rightarrow> string list" where
  "clean_step rooted part out =
     (if part = [] \<or> part = ''.'' then out
      else if part = ''..'' then
        (if out \<noteq> [] \<and> last out \<noteq> ''..'' then butlast out
         else if rooted then out
         else out @ [part])
      else out @ [part])"

fun slashes :: "string list \<Rightarrow> string" where
  "slashes [] = []"
| "slashes [p] = p"
| "slashes (p # q # ps) = p @ CHR ''/'' # slashes (q # ps)"

definition Clean :: "string \<Rightarrow> string" where
  "Clean path =
     (let rooted = HasPrefix path ''/'';
          parts = fold (clean_step rooted) (split_on CHR ''/'' path) []
      in if rooted then CHR ''/'' # slashes parts else if parts = [] then ''.'' else slashes parts)"

definition Join2 :: "string \<Rightarrow> string \<Rightarrow> string" where
  "Join2 dir name = (if dir = [] then (if name = [] then [] else Clean name) else Clean (dir @ CHR ''/'' # name))"

lemma clean_parts_nonempty: "list_all (\<lambda>p. p \<noteq> []) out \<Longrightarrow> list_all (\<lambda>p. p \<noteq> []) (fold (clean_step rooted) parts out)"
proof (induction parts arbitrary: out)
  case (Cons p parts)
  have "list_all (\<lambda>p. p \<noteq> []) (clean_step rooted p out)"
    using Cons.prems by (auto simp: clean_step_def list_all_iff dest: in_set_butlastD)
  then show ?case using Cons.IH by simp
qed simp

lemma slashes_Nil: "list_all (\<lambda>p. p \<noteq> []) ps \<Longrightarrow> slashes ps = [] \<longleftrightarrow> ps = []"
  by (cases ps rule: slashes.cases) auto

lemma Clean_nonempty: "Clean path \<noteq> []"
  using slashes_Nil [OF clean_parts_nonempty [of "[]" "HasPrefix path ''/''" "split_on CHR ''/'' path"]]
  by (auto simp: Clean_def Let_def)

end
