(* ===== verification/Llm_Proxy.thy ===== *)
theory Llm_Proxy
  imports Http Net_Url Go_Path
begin

text \<open>
  \<open>llmproxy/registry.go\<close>, \<open>proxy.go\<close> and \<open>workerurl.go\<close>: the proxy that swaps a worker's stand-in token for the real
  API key. The registry is an association list in the order a map iteration visits it; a
  lookup compares every entry, as the code does. The random bytes of a registration and the certificate
  store are inputs. The round trip the reverse proxy of the standard library makes is the function \<open>upstream\<close> from the
  outgoing request to what became of it: no response, a response streamed back to its end, or one whose copy broke off midway, where
  \<open>httputil.ReverseProxy\<close> aborts the handler by a panic; of the outgoing request the model keeps what \<open>rewrite\<close> decides: URL, host, authorization, and the method and body it passes on.
\<close>

subsection \<open>Registry (registry.go)\<close>

definition defaultBaseURL :: string where
  "defaultBaseURL = ''https://openrouter.ai/api/v1''"

record entry =
  en_runKey :: string
  en_token :: string
  en_base :: string
  en_apiKey :: string

record LLMEndpoint =
  ep_BaseURL :: string
  ep_APIKey :: string

record Proxy =
  px_prefix :: string
  px_roots :: "string list option"
  px_runs :: "(string \<times> entry) list"

datatype proxy_error = BadPrefix | BadCaFile | NoCertificate | BadBaseURL | NoRandomness

definition hex_digit :: "nat \<Rightarrow> char" where
  "hex_digit n = ''0123456789abcdef'' ! n"

definition EncodeToString :: "string \<Rightarrow> string" where
  "EncodeToString raw = concat (map (\<lambda>c. [hex_digit (code_of c div 16), hex_digit (code_of c mod 16)]) raw)"

definition valid_base :: "string \<Rightarrow> bool" where
  "valid_base base =
     (case url_Parse base of
        None \<Rightarrow> False
      | Some u \<Rightarrow> \<not> (ur_Scheme u \<noteq> ''http'' \<and> ur_Scheme u \<noteq> ''https'' \<or> ur_Host u = []))"

text \<open>\<open>raw\<close>: the 32 random bytes, or \<open>None\<close> when reading them fails.\<close>

definition Register :: "string \<Rightarrow> LLMEndpoint \<Rightarrow> string option \<Rightarrow> Proxy \<Rightarrow> (proxy_error + string) \<times> Proxy" where
  "Register runKey up raw p =
     (let base = (if ep_BaseURL up = [] then defaultBaseURL else ep_BaseURL up) in
      if \<not> valid_base base then (Inl BadBaseURL, p)
      else case raw of
        None \<Rightarrow> (Inl NoRandomness, p)
      | Some bytes \<Rightarrow>
          (let tok = EncodeToString bytes;
               e = \<lparr>en_runKey = runKey, en_token = tok, en_base = base, en_apiKey = ep_APIKey up\<rparr>
           in (Inr tok, p\<lparr>px_runs := AList.update runKey e (px_runs p)\<rparr>)))"

definition Revoke :: "string \<Rightarrow> Proxy \<Rightarrow> Proxy" where
  "Revoke runKey p = p\<lparr>px_runs := AList.delete runKey (px_runs p)\<rparr>"

fun lookup_loop :: "(string \<times> entry) list \<Rightarrow> string \<Rightarrow> entry option \<Rightarrow> entry option" where
  "lookup_loop [] token found = found"
| "lookup_loop ((k, e) # runs) token found =
     lookup_loop runs token (if en_token e = token then Some e else found)"

definition lookup :: "string \<Rightarrow> Proxy \<Rightarrow> entry option" where
  "lookup token p = lookup_loop (px_runs p) token None"

subsection \<open>Proxy (proxy.go)\<close>

text \<open>
  What the loading of a CA bundle meets outside the program: the file (\<open>None\<close>: it cannot be read), the pool of the system (\<open>None\<close>: there is none), and the
  certificates a PEM text holds.
\<close>

record ca_world =
  ca_read :: "string \<Rightarrow> string option"
  ca_system :: "string list option"
  ca_parse :: "string \<Rightarrow> string list"

definition loadPool :: "ca_world \<Rightarrow> string \<Rightarrow> proxy_error + string list" where
  "loadPool load path =
     (case ca_read load (Clean path) of
        None \<Rightarrow> Inl BadCaFile
      | Some pem \<Rightarrow>
          (let pool = (case ca_system load of None \<Rightarrow> [] | Some certs \<Rightarrow> certs)
           in if ca_parse load pem = [] then Inl NoCertificate else Inr (pool @ ca_parse load pem)))"

record Config =
  pc_Prefix :: string
  pc_CACertFile :: string

text \<open>The roots the transport trusts are \<open>None\<close> for the default of the system.\<close>

definition proxy_New :: "ca_world \<Rightarrow> Config \<Rightarrow> proxy_error + Proxy" where
  "proxy_New load cfg =
     (let mount = pc_Prefix cfg; caCertFile = pc_CACertFile cfg in
      if length mount < 2 \<or> hd mount \<noteq> CHR ''/'' \<or> HasSuffix mount ''/'' then Inl BadPrefix
      else if caCertFile \<noteq> [] then
        (case loadPool load caCertFile of
           Inl e \<Rightarrow> Inl e
         | Inr pool \<Rightarrow> Inr \<lparr>px_prefix = mount, px_roots = Some pool, px_runs = []\<rparr>)
      else Inr \<lparr>px_prefix = mount, px_roots = None, px_runs = []\<rparr>)"

definition Paths :: "string \<Rightarrow> string list" where
  "Paths mount = [mount @ ''/chat/completions'', mount @ ''/models'']"

definition allowed :: "string \<Rightarrow> string \<Rightarrow> bool" where
  "allowed method route =
     (method = ''POST'' \<and> route = ''/chat/completions'' \<or> method = ''GET'' \<and> route = ''/models'')"

record out_request =
  ou_method :: string
  ou_url :: url
  ou_host :: string
  ou_authorization :: "string option"
  ou_body :: body_stream

text \<open>A base URL that does not parse would be a nil pointer (\<open>None\<close>).\<close>

definition rewrite :: "Proxy \<Rightarrow> entry \<Rightarrow> request \<Rightarrow> out_request option" where
  "rewrite p e r =
     (let route = TrimPrefix (rq_path r) (px_prefix p) in
      case url_Parse (en_base e @ route) of
        None \<Rightarrow> None
      | Some out \<Rightarrow>
          Some \<lparr>ou_method = rq_method r, ou_url = out\<lparr>ur_RawQuery := rq_rawquery r\<rparr>, ou_host = [],
                ou_authorization = (if en_apiKey e \<noteq> [] then Some (''Bearer '' @ en_apiKey e) else None),
                ou_body = rq_body r\<rparr>)"

text \<open>The messages are plain ASCII, for which the verb \<open>%q\<close> only adds the quotes.\<close>

definition proxy_writeError :: "int \<Rightarrow> string \<Rightarrow> wcall list" where
  "proxy_writeError status msg =
     [SetHeader ''Content-Type'' ''application/json'', WriteHeader status,
      WriteBytes (''{\"error\":{\"message\":'' @ [CHR 0x22] @ msg @ [CHR 0x22] @ ''}}'')]"

definition upstreamError :: "wcall list" where
  "upstreamError = proxy_writeError 502 ''upstream unavailable''"

text \<open>What became of a round trip: no response, one relayed to its end, one that broke off after some calls on the writer.\<close>

datatype relay = Unreachable | Relayed "wcall list" | BrokenOff "wcall list"

definition reverse_proxy :: "(out_request \<Rightarrow> relay) \<Rightarrow> Proxy \<Rightarrow> entry \<Rightarrow> request \<Rightarrow> wcall list outcome" where
  "reverse_proxy upstream p e r =
     (case rewrite p e r of
        None \<Rightarrow> Panics []
      | Some out \<Rightarrow>
          (case upstream out of
             Unreachable \<Rightarrow> Returns upstreamError
           | Relayed calls \<Rightarrow> Returns calls
           | BrokenOff calls \<Rightarrow> Panics calls))"

definition ServeHTTP :: "(out_request \<Rightarrow> relay) \<Rightarrow> Proxy \<Rightarrow> request \<Rightarrow> wcall list outcome" where
  "ServeHTTP upstream p r =
     (let (token, ok) = CutPrefix (rq_header r ''Authorization'') ''Bearer '';
          e = (if ok then lookup token p else None)
      in case e of
           None \<Rightarrow> Returns (proxy_writeError 401 ''unauthorized'')
         | Some e \<Rightarrow>
             (let (route, ok) = CutPrefix (rq_path r) (px_prefix p) in
              if \<not> ok \<or> \<not> allowed (rq_method r) route then Returns (proxy_writeError 404 ''not found'')
              else reverse_proxy upstream p e r))"

subsection \<open>Worker URL (workerurl.go)\<close>

definition DefaultPrefix :: string where
  "DefaultPrefix = ''/llm''"

datatype url_error = UnparsableURL | BadScheme | NoHost | HasPath | HasQuery | Unspecified | Loopback | Localhost

definition ValidateContainerURL :: "string \<Rightarrow> url_error + string" where
  "ValidateContainerURL raw =
     (if raw = [] then Inr []
      else case url_Parse raw of
        None \<Rightarrow> Inl UnparsableURL
      | Some u \<Rightarrow>
          if ur_Scheme u \<noteq> ''http'' \<and> ur_Scheme u \<noteq> ''https'' then Inl BadScheme
          else
            (let host = Hostname u in
             if host = [] then Inl NoHost
             else if ur_Path u \<noteq> [] \<and> ur_Path u \<noteq> ''/'' then Inl HasPath
             else if \<exists>c \<in> set raw. c \<in> set ''?#'' then Inl HasQuery
             else case ParseIP host of
                 Some ip \<Rightarrow>
                   if IsUnspecified ip then Inl Unspecified
                   else if IsLoopback ip then Inl Loopback
                   else Inr (TrimSuffix raw ''/'')
               | None \<Rightarrow>
                   if EqualFold host ''localhost'' then Inl Localhost
                   else Inr (TrimSuffix raw ''/'')))"

definition JoinHostPort :: "string \<Rightarrow> string \<Rightarrow> string" where
  "JoinHostPort host port =
     (if CHR '':'' \<in> set host then ''['' @ host @ '']:'' @ port else host @ '':'' @ port)"

definition WorkerBaseURL :: "string \<Rightarrow> int \<Rightarrow> string \<Rightarrow> string" where
  "WorkerBaseURL containerURL port mount =
     (let base = TrimSuffix containerURL ''/'';
          base = (if base = [] then ''http://'' @ JoinHostPort ''host.docker.internal'' (Itoa port) else base)
      in base @ mount)"

subsection \<open>The contract of a token registry\<close>

datatype 'e reg_op = Put string 'e | Del string

fun touches :: "string \<Rightarrow> 'e reg_op \<Rightarrow> bool" where
  "touches k (Put k' e) = (k' = k)"
| "touches k (Del k') = (k' = k)"

locale token_registry =
  fixes invar :: "'s \<Rightarrow> bool"
    and view :: "'s \<Rightarrow> string \<Rightarrow> 'e option"
    and tok :: "'e \<Rightarrow> string"
    and put :: "string \<Rightarrow> 'e \<Rightarrow> 's \<Rightarrow> 's"
    and del :: "string \<Rightarrow> 's \<Rightarrow> 's"
    and seek :: "string \<Rightarrow> 's \<Rightarrow> 'e option"
  assumes view_put: "view (put k e s) = (view s)(k \<mapsto> e)"
    and view_del: "view (del k s) = (view s)(k := None)"
    and seek_iff: "invar s \<Longrightarrow> seek t s = Some e \<longleftrightarrow> (\<exists>k. view s k = Some e \<and> tok e = t)"
    and token_unique: "invar s \<Longrightarrow> view s k = Some e \<Longrightarrow> view s k' = Some e' \<Longrightarrow> tok e = tok e' \<Longrightarrow> k = k'"
    and put_invar: "invar s \<Longrightarrow> (\<And>k' e'. view s k' = Some e' \<Longrightarrow> tok e' \<noteq> tok e) \<Longrightarrow> invar (put k e s)"
    and del_invar: "invar s \<Longrightarrow> invar (del k s)"
begin

fun apply_op :: "'e reg_op \<Rightarrow> 's \<Rightarrow> 's" where
  "apply_op (Put k e) s = put k e s"
| "apply_op (Del k) s = del k s"

fun puts :: "'e reg_op list \<Rightarrow> string list" where
  "puts [] = []"
| "puts (Put k e # ops) = tok e # puts ops"
| "puts (Del k # ops) = puts ops"

definition unused :: "'e reg_op list \<Rightarrow> 's \<Rightarrow> bool" where
  "unused ops s \<longleftrightarrow> distinct (puts ops) \<and> (\<forall>k e. view s k = Some e \<longrightarrow> tok e \<notin> set (puts ops))"

lemma apply_op_view: "\<not> touches k op \<Longrightarrow> view (apply_op op s) k = view s k"
  by (cases op) (auto simp: view_put view_del)

lemma run_untouched: "\<forall>op \<in> set ops. \<not> touches k op \<Longrightarrow> view (fold apply_op ops s) k = view s k"
  by (induction ops arbitrary: s) (auto simp: apply_op_view)

lemma run_origin:
  "view (fold apply_op ops s) k = Some e \<Longrightarrow>
   view s k = Some e \<and> (\<forall>op \<in> set ops. \<not> touches k op) \<or> tok e \<in> set (puts ops)"
proof (induction ops arbitrary: s)
  case (Cons op ops)
  then show ?case
    using Cons.IH [of "apply_op op s"] by (cases op) (auto simp: view_put view_del split: if_splits)
qed simp

lemma run_invar: "invar s \<Longrightarrow> unused ops s \<Longrightarrow> invar (fold apply_op ops s)"
proof (induction ops arbitrary: s)
  case (Cons op ops)
  then show ?case
    using Cons.IH [of "apply_op op s"] by (cases op) (auto simp: unused_def view_put view_del put_invar del_invar)
qed simp

lemma honoured:
  assumes "invar s" "unused ops s" "view s k = Some e" "\<forall>op \<in> set ops. \<not> touches k op"
  shows "seek (tok e) (fold apply_op ops s) = Some e"
  using run_untouched [OF assms(4), of s] assms(3) seek_iff [OF run_invar [OF assms(1,2)]] by auto

lemma killed:
  assumes "invar s" "unused ops s" "view s k = Some e" "\<exists>op \<in> set ops. touches k op"
  shows "seek (tok e) (fold apply_op ops s) = None"
proof (rule ccontr)
  assume "seek (tok e) (fold apply_op ops s) \<noteq> None"
  then obtain k1 e1 where e1: "view (fold apply_op ops s) k1 = Some e1" "tok e1 = tok e"
    using seek_iff [OF run_invar [OF assms(1,2)]] by blast
  have "tok e \<notin> set (puts ops)" using assms(2,3) by (auto simp: unused_def)
  then have v: "view s k1 = Some e1" "\<forall>op \<in> set ops. \<not> touches k1 op" using run_origin [OF e1(1)] e1(2) by auto
  show False using token_unique [OF assms(1) v(1) assms(3) e1(2)] v(2) assms(4) by blast
qed

end

subsection \<open>The registry implements the contract\<close>

definition registry_ok :: "Proxy \<Rightarrow> bool" where
  "registry_ok p \<longleftrightarrow> distinct (map fst (px_runs p)) \<and> distinct (map (\<lambda>r. en_token (snd r)) (px_runs p))"

definition put_entry :: "string \<Rightarrow> entry \<Rightarrow> Proxy \<Rightarrow> Proxy" where
  "put_entry k e p = p\<lparr>px_runs := AList.update k e (px_runs p)\<rparr>"

abbreviation run_view :: "Proxy \<Rightarrow> string \<Rightarrow> entry option" where
  "run_view p \<equiv> map_of (px_runs p)"

lemma lookup_loop_absent: "t \<notin> en_token ` snd ` set runs \<Longrightarrow> lookup_loop runs t found = found"
  by (induction runs t found rule: lookup_loop.induct) auto

lemma lookup_loop_iff:
  assumes "distinct (map (\<lambda>r. en_token (snd r)) runs)"
  shows "lookup_loop runs t found = Some e \<longleftrightarrow>
    e \<in> snd ` set runs \<and> en_token e = t \<or> t \<notin> en_token ` snd ` set runs \<and> found = Some e"
  using assms
proof (induction runs t found rule: lookup_loop.induct)
  case (2 k e' runs token found)
  show ?case
  proof (cases "en_token e' = token")
    case True
    then have "token \<notin> en_token ` snd ` set runs" using "2.prems" by (auto simp: image_image)
    then show ?thesis using True by (auto simp: lookup_loop_absent image_iff)
  next
    case False
    then show ?thesis using 2 by auto
  qed
qed simp

lemma update_origin: "x \<in> set (AList.update k e al) \<Longrightarrow> x = (k, e) \<or> x \<in> set al"
  by (induction al) (auto split: if_splits)

lemma distinct_update_snd:
  "distinct (map (\<lambda>r. f (snd r)) al) \<Longrightarrow> f v \<notin> (\<lambda>r. f (snd r)) ` set al \<Longrightarrow>
   distinct (map (\<lambda>r. f (snd r)) (AList.update k v al))"
proof (induction al)
  case (Cons a al)
  obtain k' v' where a: "a = (k', v')" by (cases a)
  then show ?case using Cons by (auto dest!: update_origin)
qed simp

lemma distinct_delete_snd: "distinct (map f al) \<Longrightarrow> distinct (map f (AList.delete k al))"
  by (simp add: delete_filter distinct_map_filter)

interpretation registry: token_registry registry_ok run_view en_token put_entry Revoke lookup
proof (unfold_locales, goal_cases)
  case (1 k e s)
  then show ?case by (simp add: put_entry_def update_conv')
next
  case (2 k s)
  then show ?case by (simp add: Revoke_def delete_conv')
next
  case (3 s t e)
  then have "lookup t s = Some e \<longleftrightarrow> e \<in> snd ` set (px_runs s) \<and> en_token e = t"
    using lookup_loop_iff [of "px_runs s" t None e] by (auto simp: registry_ok_def lookup_def)
  moreover have "e \<in> snd ` set (px_runs s) \<longleftrightarrow> (\<exists>k. run_view s k = Some e)"
    using 3 by (force simp: registry_ok_def map_of_eq_Some_distinct)
  ultimately show ?case by auto
next
  case (4 s k e k' e')
  then have "(k, e) \<in> set (px_runs s)" "(k', e') \<in> set (px_runs s)" by (auto dest: map_of_SomeD)
  then show ?case using 4(1,4) by (fastforce simp: registry_ok_def distinct_map inj_on_def)
next
  case (5 s e k)
  then have "en_token e \<notin> (\<lambda>r. en_token (snd r)) ` set (px_runs s)"
    by (fastforce simp: registry_ok_def map_of_eq_Some_distinct)
  then show ?case using 5(1) by (simp add: registry_ok_def put_entry_def distinct_update distinct_update_snd)
next
  case (6 s k)
  then show ?case by (simp add: registry_ok_def Revoke_def distinct_delete distinct_delete_snd)
qed

subsection \<open>Executions\<close>

datatype proxy_op = DoRegister string LLMEndpoint "string option" | DoRevoke string

fun proxy_step :: "proxy_op \<Rightarrow> Proxy \<Rightarrow> Proxy" where
  "proxy_step (DoRegister k up raw) p = snd (Register k up raw p)"
| "proxy_step (DoRevoke k) p = Revoke k p"

definition base_of :: "LLMEndpoint \<Rightarrow> string" where
  "base_of up = (if ep_BaseURL up = [] then defaultBaseURL else ep_BaseURL up)"

definition new_entry :: "string \<Rightarrow> LLMEndpoint \<Rightarrow> string \<Rightarrow> entry" where
  "new_entry k up tok = \<lparr>en_runKey = k, en_token = tok, en_base = base_of up, en_apiKey = ep_APIKey up\<rparr>"

text \<open>The operations that succeed, as operations of the contract, and the tokens they issue.\<close>

fun effect :: "proxy_op \<Rightarrow> entry reg_op list" where
  "effect (DoRegister k up (Some raw)) =
     (if valid_base (base_of up) then [Put k (new_entry k up (EncodeToString raw))] else [])"
| "effect (DoRegister k up None) = []"
| "effect (DoRevoke k) = [Del k]"

definition issued :: "proxy_op list \<Rightarrow> string list" where
  "issued ops = registry.puts (concat (map effect ops))"

definition ends_run :: "string \<Rightarrow> proxy_op \<Rightarrow> bool" where
  "ends_run k op \<longleftrightarrow> (\<exists>e \<in> set (effect op). touches k e)"

lemma proxy_step_effect: "proxy_step op p = fold registry.apply_op (effect op) p"
  by (cases op rule: effect.cases) (simp_all add: Register_def Let_def base_of_def new_entry_def put_entry_def)

lemma proxy_run_effects: "fold proxy_step ops p = fold registry.apply_op (concat (map effect ops)) p"
  by (induction ops arbitrary: p) (simp_all add: proxy_step_effect)

lemma puts_append: "registry.puts (xs @ ys) = registry.puts xs @ registry.puts ys"
  by (induction xs rule: registry.puts.induct) auto

lemma Register_succeeds:
  "Register k up raw p = (Inr tok, p') \<longleftrightarrow>
     valid_base (base_of up) \<and> (\<exists>bytes. raw = Some bytes \<and> tok = EncodeToString bytes) \<and> p' = put_entry k (new_entry k up tok) p"
  by (auto simp: Register_def base_of_def new_entry_def put_entry_def Let_def split: option.splits if_splits)

lemma ServeHTTP_refused:
  "rq_header r ''Authorization'' = ''Bearer '' @ t \<Longrightarrow> lookup t p = None \<Longrightarrow>
   ServeHTTP upstream p r = Returns (proxy_writeError 401 ''unauthorized'')"
  by (simp add: ServeHTTP_def CutPrefix_append [of "''Bearer ''" t, simplified])

lemma plain_routes: "allowed m route \<Longrightarrow> plain_path route"
  by (auto simp: allowed_def plain_path_def is_ctl_def code_of_def)

lemma valid_baseD:
  assumes "valid_base base"
  obtains u where "url_Parse base = Some u" "ur_Scheme u \<in> {''http'', ''https''}" "ur_Host u \<noteq> []"
  using assms by (auto simp: valid_base_def split: option.splits)

lemma valid_base_extend:
  assumes "valid_base base" "allowed m route"
  shows "\<exists>u w. url_Parse base = Some u \<and> url_Parse (base @ route) = Some w \<and> same_site w u \<and>
    (if CHR ''?'' \<in> set base \<or> CHR ''#'' \<in> set base then ur_Path w = ur_Path u else ur_Path w = ur_Path u @ route)"
proof -
  obtain u where u: "url_Parse base = Some u" "ur_Scheme u \<in> {''http'', ''https''}" "ur_Host u \<noteq> []"
    using valid_baseD [OF assms(1)] by blast
  then have "ur_Scheme u \<noteq> []" by auto
  then show ?thesis
    using url_Parse_extend [OF u(1) _ u(3) plain_routes [OF assms(2)]] u(1) by (fastforce split: if_splits)
qed

definition bases_ok :: "Proxy \<Rightarrow> bool" where
  "bases_ok p \<longleftrightarrow> (\<forall>r \<in> set (px_runs p). valid_base (en_base (snd r)))"

lemma bases_ok_run: "bases_ok p \<Longrightarrow> bases_ok (fold proxy_step ops p)"
proof (induction ops arbitrary: p)
  case (Cons op ops)
  have "bases_ok (proxy_step op p)"
    using Cons.prems
    by (cases op rule: effect.cases)
      (auto simp: bases_ok_def Register_def Revoke_def Let_def delete_filter split: if_splits dest!: update_origin)
  then show ?case using Cons.IH by simp
qed simp

lemma proxy_New_ok:
  "proxy_New load \<lparr>pc_Prefix = mount, pc_CACertFile = ca\<rparr> = Inr p \<Longrightarrow> registry_ok p \<and> bases_ok p \<and> px_runs p = [] \<and> px_prefix p = mount"
  by (auto simp: proxy_New_def Let_def registry_ok_def bases_ok_def split: if_splits sum.splits)

lemma proxy_step_prefix [simp]: "px_prefix (proxy_step op p) = px_prefix p"
  by (cases op rule: effect.cases) (auto simp: Register_def Revoke_def Let_def)

lemma proxy_run_prefix [simp]: "px_prefix (fold proxy_step ops p) = px_prefix p"
  by (induction ops arbitrary: p) simp_all

lemma lookup_base: "bases_ok p \<Longrightarrow> lookup t p = Some e \<Longrightarrow> valid_base (en_base e) \<and> en_token e = t"
proof -
  have "lookup_loop runs t found = Some e \<Longrightarrow> found = Some e \<or> e \<in> snd ` set runs \<and> en_token e = t" for runs found
    by (induction runs t found rule: lookup_loop.induct) (auto split: if_splits)
  then show "bases_ok p \<Longrightarrow> lookup t p = Some e \<Longrightarrow> valid_base (en_base e) \<and> en_token e = t"
    by (fastforce simp: lookup_def bases_ok_def)
qed

text \<open>A live token on an allowed route is forwarded; the life of a token; the base URL of a worker.\<close>

lemma live_token_forwards:
  assumes "bases_ok p" "lookup token p = Some e" "rq_header r ''Authorization'' = ''Bearer '' @ token"
    and "rq_path r = px_prefix p @ route" "allowed (rq_method r) route"
  shows "\<exists>u out. url_Parse (en_base e) = Some u \<and>
     ou_method out = rq_method r \<and> ou_body out = rq_body r \<and> ur_RawQuery (ou_url out) = rq_rawquery r \<and>
     same_site (ou_url out) u \<and>
     (CHR ''?'' \<notin> set (en_base e) \<and> CHR ''#'' \<notin> set (en_base e) \<longrightarrow> ur_Path (ou_url out) = ur_Path u @ route) \<and>
     ou_authorization out = (if en_apiKey e = [] then None else Some (''Bearer '' @ en_apiKey e)) \<and>
     (\<forall>upstream. ServeHTTP upstream p r =
        (case upstream out of
          Unreachable \<Rightarrow> Returns (proxy_writeError 502 ''upstream unavailable'')
        | Relayed calls \<Rightarrow> Returns calls
        | BrokenOff calls \<Rightarrow> Panics calls))"
proof -
  have base: "valid_base (en_base e)" using lookup_base [OF assms(1,2)] by simp
  obtain u w where w: "url_Parse (en_base e) = Some u" "url_Parse (en_base e @ route) = Some w" "same_site w u"
      "if CHR ''?'' \<in> set (en_base e) \<or> CHR ''#'' \<in> set (en_base e) then ur_Path w = ur_Path u else ur_Path w = ur_Path u @ route"
    using valid_base_extend [OF base assms(5)] by auto
  define out where "out = the (rewrite p e r)"
  have out: "rewrite p e r = Some out" "ou_method out = rq_method r" "ou_body out = rq_body r"
      "ou_url out = w\<lparr>ur_RawQuery := rq_rawquery r\<rparr>"
      "ou_authorization out = (if en_apiKey e = [] then None else Some (''Bearer '' @ en_apiKey e))"
    using w(2) assms(4) by (simp_all add: out_def rewrite_def)
  have "CutPrefix (rq_header r ''Authorization'') ''Bearer '' = (token, True)" "CutPrefix (rq_path r) (px_prefix p) = (route, True)"
    using assms(3,4) CutPrefix_append by metis+
  then have "ServeHTTP upstream p r =
      (case upstream out of
          Unreachable \<Rightarrow> Returns (proxy_writeError 502 ''upstream unavailable'')
        | Relayed calls \<Rightarrow> Returns calls
        | BrokenOff calls \<Rightarrow> Panics calls)" for upstream
    using assms(2,5) out(1) by (simp add: ServeHTTP_def reverse_proxy_def upstreamError_def split: relay.split)
  then show ?thesis using w out(2-5) by (intro exI [of _ u] exI [of _ out]) (auto simp: same_site_def)
qed

lemma token_life:
  assumes "proxy_New load \<lparr>pc_Prefix = mount, pc_CACertFile = ca\<rparr> = Inr p0"
    and "Register k up raw (fold proxy_step before p0) = (Inr tok, p1)"
    and "distinct (issued before @ tok # issued later)"
  shows "if \<exists>op \<in> set later. ends_run k op
    then rq_header r ''Authorization'' = ''Bearer '' @ tok \<longrightarrow>
      ServeHTTP upstream (fold proxy_step later p1) r = Returns (proxy_writeError 401 ''unauthorized'')
    else lookup tok (fold proxy_step later p1) =
      Some \<lparr>en_runKey = k, en_token = tok, en_base = base_of up, en_apiKey = ep_APIKey up\<rparr>"
proof -
  let ?ops = "concat (map effect later)" and ?pre = "concat (map effect before)" and ?e = "new_entry k up tok"
  note p0 = proxy_New_ok [OF assms(1)]
  have "registry.unused ?pre p0" using p0 assms(3) by (simp add: registry.unused_def issued_def)
  then have inv: "registry_ok (fold proxy_step before p0)"
    using registry.run_invar p0 by (simp add: proxy_run_effects)
  have origin: "en_token e \<in> set (issued before)" if "run_view (fold proxy_step before p0) k' = Some e" for k' e
    using registry.run_origin [of ?pre p0 k' e] that p0 by (simp add: proxy_run_effects issued_def)
  have p1: "p1 = put_entry k ?e (fold proxy_step before p0)" using assms(2) by (simp add: Register_succeeds)
  have tok: "en_token ?e = tok" by (simp add: new_entry_def)
  have inv1: "registry_ok p1"
    unfolding p1 using inv origin assms(3) tok by (intro registry.put_invar) auto
  have view: "run_view p1 k = Some ?e" unfolding p1 by (simp add: registry.view_put)
  have unused: "registry.unused ?ops p1"
    using origin assms(3) tok by (auto simp: registry.unused_def p1 registry.view_put issued_def split: if_splits)
  have touch: "(\<exists>op \<in> set later. ends_run k op) \<longleftrightarrow> (\<exists>op \<in> set ?ops. touches k op)"
    by (auto simp: ends_run_def)
  show ?thesis
    using registry.killed [OF inv1 unused view] registry.honoured [OF inv1 unused view] tok ServeHTTP_refused
    by (simp add: touch proxy_run_effects new_entry_def)
qed

lemma container_base:
  assumes "ValidateContainerURL raw = Inr res" "raw \<noteq> []" "plain_path mount"
  shows "\<exists>u. url_Parse raw = Some u \<and>
    url_Parse (WorkerBaseURL res port mount) = Some (u\<lparr>ur_Path := mount\<rparr>) \<and>
    ur_RawQuery u = [] \<and> ur_Fragment u = [] \<and> ur_Scheme u \<in> {''http'', ''https''} \<and> Hostname u \<noteq> [] \<and>
    (case ParseIP (Hostname u) of Some ip \<Rightarrow> \<not> IsUnspecified ip \<and> \<not> IsLoopback ip
                                | None \<Rightarrow> \<not> EqualFold (Hostname u) ''localhost'')"
proof -
  obtain u where u: "url_Parse raw = Some u" "ur_Scheme u \<in> {''http'', ''https''}" "Hostname u \<noteq> []"
      "ur_Path u = [] \<or> ur_Path u = ''/''" "CHR ''?'' \<notin> set raw" "CHR ''#'' \<notin> set raw" "res = TrimSuffix raw ''/''"
      "case ParseIP (Hostname u) of Some ip \<Rightarrow> \<not> IsUnspecified ip \<and> \<not> IsLoopback ip
        | None \<Rightarrow> \<not> EqualFold (Hostname u) ''localhost''"
    using assms(1,2) by (auto simp: ValidateContainerURL_def Let_def split: option.splits if_splits)
  have s: "ur_Scheme u \<noteq> []" "ur_Host u \<noteq> []" using u(2,3) by (auto simp: Hostname_def split_last_def HasPrefix_def)
  have q: "ur_RawQuery u = []" "ur_Fragment u = []" using url_Parse_plain [OF u(1) u(5,6)] by auto
  obtain site path where site: "raw = site @ path" "unescape PathPart path = Some (ur_Path u)"
      "path = [] \<or> hd path = CHR ''/''" "url_Parse site = Some (u\<lparr>ur_Path := []\<rparr>)" "site \<noteq> []" "last site \<noteq> CHR ''/''"
    using url_split [OF u(1) s u(5,6)] by blast
  have path: "path = [] \<or> path = ''/''"
    using site(2,3) u(4) by (cases path) (auto simp: bad_byte_def is_host_part_def dest!: unescape_Nil)
  have trim: "TrimSuffix site ''/'' = site"
    using site(5,6) by (auto simp: TrimSuffix_def HasSuffix_iff)
  have "res = site" using u(7) site(1) path trim by auto
  moreover have "CHR ''?'' \<notin> set site" "CHR ''#'' \<notin> set site" using u(5,6) site(1) by auto
  ultimately have "url_Parse (WorkerBaseURL res port mount) = Some (u\<lparr>ur_Path := mount\<rparr>)"
    using url_Parse_extend [OF site(4) _ _ assms(3)] s site(5) trim by (auto simp: WorkerBaseURL_def Let_def)
  then show ?thesis using u q by blast
qed

subsection \<open>Addresses with a zone\<close>

lemma split_on_covers: "x \<in> set s \<Longrightarrow> x \<noteq> d \<Longrightarrow> \<exists>part \<in> set (split_on d s). x \<in> set part"
  by (induction s) (auto split: list.splits)

lemma parseIPv4_digits: "parseIPv4 s = Some ab \<Longrightarrow> x \<in> set s \<Longrightarrow> is_digit x \<or> x = CHR ''.''"
proof -
  assume parsed: "parseIPv4 s = Some ab" and x: "x \<in> set s"
  have "\<forall>o1 \<in> set (map octet (split_on CHR ''.'' s)). o1 \<noteq> None"
    using parsed by (auto simp: parseIPv4_def split: list.splits option.splits)
  then have "\<forall>part \<in> set (split_on CHR ''.'' s). list_all is_digit part" by (auto simp: octet_def split: if_splits)
  then show "is_digit x \<or> x = CHR ''.''" using split_on_covers [OF x, of "CHR ''.''"] by (auto simp: list_all_iff)
qed

lemma parseIPv6_zone:
  assumes "parseIPv6 h = Some (ip, zone)"
  shows "zone = drop (Suc (length (takeWhile (\<lambda>c. c \<noteq> CHR ''%'') h))) h" "takeWhile (\<lambda>c. c \<noteq> CHR ''%'') h = h \<or> zone \<noteq> []"
proof -
  let ?s = "takeWhile (\<lambda>c. c \<noteq> CHR ''%'') h"
  let ?zone = "drop (Suc (length ?s)) h"
  have res: "(case found of None \<Rightarrow> None | Some p \<Rightarrow> map_option (\<lambda>gs. (gs, z)) (g p)) = Some (a, b) \<Longrightarrow> b = z"
    for found :: "(groups \<times> nat option) option" and z :: string and g :: "groups \<times> nat option \<Rightarrow> groups option" and a b
    by (auto split: option.splits)
  have ne: "\<not> (?s \<noteq> h \<and> ?zone = [])" using assms by (auto simp: parseIPv6_def Let_def)
  show "zone = ?zone" using assms unfolding parseIPv6_def Let_def if_not_P [OF ne] by (rule res)
  then show "?s = h \<or> zone \<noteq> []" using ne by metis
qed

lemma ParseIP_zone: "CHR ''%'' \<in> set h \<Longrightarrow> ParseIP h = None"
proof -
  assume zone: "CHR ''%'' \<in> set h"
  have "\<not> is_digit CHR ''%''" by (simp add: is_digit_def code_of_def)
  then have "parseIPv4 h = None" using parseIPv4_digits [of h] zone by (cases "parseIPv4 h") auto
  moreover have "zone \<noteq> []" if "parseAddr6 h = Some (ip, zone)" for ip zone
  proof -
    have "parseIPv6 h = Some (ip, zone)" using that unfolding parseAddr6_def by (simp split: if_split_asm)
    moreover have "takeWhile (\<lambda>c. c \<noteq> CHR ''%'') h \<noteq> h" unfolding takeWhile_eq_all_conv using zone by blast
    ultimately show ?thesis using parseIPv6_zone(2) [of h ip zone] by blast
  qed
  ultimately show "ParseIP h = None"
    by (auto simp: ParseIP_def split: option.splits list.splits)
qed

lemma parseAddr6_zone: "parseAddr6 h = Some (ip, zone) \<Longrightarrow> zone \<noteq> [] \<Longrightarrow> CHR ''%'' \<in> set h"
proof (rule ccontr)
  assume addr: "parseAddr6 h = Some (ip, zone)" "zone \<noteq> []" and none: "CHR ''%'' \<notin> set h"
  have all: "takeWhile (\<lambda>c. c \<noteq> CHR ''%'') h = h" unfolding takeWhile_eq_all_conv using none by blast
  have "parseIPv6 h = Some (ip, zone)" using addr(1) unfolding parseAddr6_def by (simp split: if_split_asm)
  from parseIPv6_zone(1) [OF this] show False unfolding all using addr(2) by simp
qed

lemma not_localhost_zone: "CHR ''%'' \<in> set h \<Longrightarrow> \<not> EqualFold h ''localhost''"
proof -
  assume zone: "CHR ''%'' \<in> set h"
  have "CHR ''%'' \<in> set s \<Longrightarrow> CHR ''%'' \<in> set (fold_ascii s)" for s
  proof (induction s rule: fold_ascii.induct)
    case (2 c s)
    have low: "to_lower CHR ''%'' = CHR ''%''" by code_simp
    show ?case
    proof (cases "HasPrefix (c # s) [CHR 0xC5, CHR 0xBF] \<or> HasPrefix (c # s) [CHR 0xE2, CHR 0x84, CHR 0xAA]")
      case True
      then have "(\<exists>r. c = CHR 0xC5 \<and> s = CHR 0xBF # r) \<or> (\<exists>r. c = CHR 0xE2 \<and> s = CHR 0x84 # CHR 0xAA # r)"
        unfolding HasPrefix_iff by simp
      then show ?thesis using 2 by (elim disjE exE conjE) (simp_all add: HasPrefix_def)
    next
      case False
      then have "fold_ascii (c # s) = to_lower c # fold_ascii s" by simp
      then show ?thesis using 2(3,4) False low by (cases "c = CHR ''%''") (simp_all del: fold_ascii.simps)
    qed
  qed simp
  then have yes: "CHR ''%'' \<in> set (fold_ascii h)" using zone by blast
  have no: "CHR ''%'' \<notin> set (fold_ascii ''localhost'')" by code_simp
  show "\<not> EqualFold h ''localhost''"
  proof
    assume "EqualFold h ''localhost''"
    then have "fold_ascii h = fold_ascii ''localhost''" unfolding EqualFold_def .
    from yes [unfolded this] no show False by contradiction
  qed
qed

subsection \<open>What a worker can learn\<close>

text \<open>
  An upstream knows its callers by the authorization of their requests: \<open>account\<close> is whom it sees, and \<open>serve\<close> answers that account, without a look at the key itself.
\<close>

definition bearer :: "string \<Rightarrow> string option" where
  "bearer key = (if key = [] then None else Some (''Bearer '' @ key))"

definition accounts :: "('a \<Rightarrow> out_request \<Rightarrow> relay) \<Rightarrow> (string option \<Rightarrow> 'a) \<Rightarrow> out_request \<Rightarrow> relay" where
  "accounts serve account out = serve (account (ou_authorization out)) (out\<lparr>ou_authorization := None\<rparr>)"

text \<open>Operations and entries that differ only in their keys, which open the same account.\<close>

fun same_op :: "(string option \<Rightarrow> 'a) \<Rightarrow> (string option \<Rightarrow> 'a) \<Rightarrow> proxy_op \<Rightarrow> proxy_op \<Rightarrow> bool" where
  "same_op acc acc' (DoRegister k up raw) (DoRegister k' up' raw') \<longleftrightarrow>
     k' = k \<and> raw' = raw \<and> ep_BaseURL up' = ep_BaseURL up \<and> acc (bearer (ep_APIKey up)) = acc' (bearer (ep_APIKey up'))"
| "same_op acc acc' (DoRevoke k) (DoRevoke k') \<longleftrightarrow> k' = k"
| "same_op acc acc' _ _ \<longleftrightarrow> False"

definition same_entry :: "(string option \<Rightarrow> 'a) \<Rightarrow> (string option \<Rightarrow> 'a) \<Rightarrow> entry \<Rightarrow> entry \<Rightarrow> bool" where
  "same_entry acc acc' e e' \<longleftrightarrow> en_runKey e' = en_runKey e \<and> en_token e' = en_token e \<and> en_base e' = en_base e \<and>
     acc (bearer (en_apiKey e)) = acc' (bearer (en_apiKey e'))"

abbreviation same_runs :: "(string option \<Rightarrow> 'a) \<Rightarrow> (string option \<Rightarrow> 'a) \<Rightarrow> (string \<times> entry) list \<Rightarrow> (string \<times> entry) list \<Rightarrow> bool" where
  "same_runs acc acc' \<equiv> list_all2 (\<lambda>(k, e) (k', e'). k' = k \<and> same_entry acc acc' e e')"

definition same_proxy :: "(string option \<Rightarrow> 'a) \<Rightarrow> (string option \<Rightarrow> 'a) \<Rightarrow> Proxy \<Rightarrow> Proxy \<Rightarrow> bool" where
  "same_proxy acc acc' p p' \<longleftrightarrow> px_prefix p' = px_prefix p \<and> same_runs acc acc' (px_runs p) (px_runs p')"

lemma same_update:
  "same_runs acc acc' xs ys \<Longrightarrow> same_entry acc acc' e e' \<Longrightarrow> same_runs acc acc' (AList.update k e xs) (AList.update k e' ys)"
  by (induction xs ys rule: list_all2_induct) auto

lemma same_delete: "same_runs acc acc' xs ys \<Longrightarrow> same_runs acc acc' (AList.delete k xs) (AList.delete k ys)"
  by (induction xs ys rule: list_all2_induct) (auto simp: delete_simps)

lemma same_new:
  "acc (bearer key) = acc' (bearer key') \<Longrightarrow>
    same_entry acc acc' \<lparr>en_runKey = k, en_token = t, en_base = b, en_apiKey = key\<rparr> \<lparr>en_runKey = k, en_token = t, en_base = b, en_apiKey = key'\<rparr>"
  by (simp add: same_entry_def)

lemma same_step: "same_proxy acc acc' p p' \<Longrightarrow> same_op acc acc' op op' \<Longrightarrow> same_proxy acc acc' (proxy_step op p) (proxy_step op' p')"
  by (cases "(acc, acc', op, op')" rule: same_op.cases)
    (auto simp: same_proxy_def Register_def Revoke_def Let_def same_delete intro!: same_update same_new split: option.split)

lemma same_run:
  "list_all2 (same_op acc acc') ops ops' \<Longrightarrow> same_proxy acc acc' p p' \<Longrightarrow> same_proxy acc acc' (fold proxy_step ops p) (fold proxy_step ops' p')"
  by (induction ops ops' arbitrary: p p' rule: list_all2_induct) (auto intro: same_step)

lemma same_lookup_loop:
  "same_runs acc acc' xs ys \<Longrightarrow> rel_option (same_entry acc acc') found found' \<Longrightarrow>
    rel_option (same_entry acc acc') (lookup_loop xs t found) (lookup_loop ys t found')"
  by (induction xs ys arbitrary: found found' rule: list_all2_induct) (auto simp: same_entry_def)

lemma same_reverse:
  assumes "same_proxy acc acc' p p'" "same_entry acc acc' e e'"
  shows "reverse_proxy (accounts serve acc) p e r = reverse_proxy (accounts serve acc') p' e' r"
proof -
  have auth: "(if key \<noteq> [] then Some (''Bearer '' @ key) else None) = bearer key" for key by (simp add: bearer_def)
  show ?thesis
    using assms unfolding reverse_proxy_def rewrite_def auth
    by (auto simp: same_proxy_def same_entry_def accounts_def Let_def split: option.split)
qed

lemma same_serve:
  assumes "same_proxy acc acc' p p'"
  shows "ServeHTTP (accounts serve acc) p r = ServeHTTP (accounts serve acc') p' r"
proof -
  have look: "rel_option (same_entry acc acc') (lookup t p) (lookup t p')" for t
    unfolding lookup_def using assms by (intro same_lookup_loop) (simp_all add: same_proxy_def)
  obtain t ok where cut: "CutPrefix (rq_header r ''Authorization'') ''Bearer '' = (t, ok)" by fastforce
  have pre: "px_prefix p' = px_prefix p" using assms by (simp add: same_proxy_def)
  show ?thesis
    using look [of t] same_reverse [OF assms, of _ _ serve r] unfolding ServeHTTP_def cut pre
    by (cases "lookup t p"; cases "lookup t p'") (auto simp: Let_def split: prod.split)
qed

text \<open>Concrete values for the witnesses.\<close>

lemma default_valid: "valid_base defaultBaseURL"
  by code_simp

definition sample_proxy :: Proxy where
  "sample_proxy = \<lparr>px_prefix = ''/llm'', px_roots = None, px_runs = []\<rparr>"

definition sample_ca :: ca_world where
  "sample_ca = \<lparr>ca_read = \<lambda>_. None, ca_system = None, ca_parse = \<lambda>_. []\<rparr>"

lemma sample_proxy_new: "proxy_New sample_ca \<lparr>pc_Prefix = ''/llm'', pc_CACertFile = []\<rparr> = Inr sample_proxy"
  by (simp add: proxy_New_def HasSuffix_def HasPrefix_def sample_proxy_def)

definition sample_token_request :: request where
  "sample_token_request = sample_request
     \<lparr>rq_method := ''GET'', rq_path := ''/llm/models'', rq_header := (\<lambda>_. ''Bearer 78'')\<rparr>"

definition sample_ops :: "proxy_op list" where
  "sample_ops = [DoRegister ''a'' \<lparr>ep_BaseURL = [], ep_APIKey = ''k1''\<rparr> (Some ''x'')]"

definition upstream_down :: "out_request \<Rightarrow> relay" where
  "upstream_down out = Unreachable"

text \<open>A gateway that serves the holder of one key and rejects everyone else.\<close>

definition sample_serve :: "bool \<Rightarrow> out_request \<Rightarrow> relay" where
  "sample_serve known out = (if known then Relayed [WriteHeader 200] else Relayed [WriteHeader 401])"

definition query_entry :: entry where
  "query_entry = \<lparr>en_runKey = ''a'', en_token = ''78'', en_base = ''http://gw/v1?t=a'', en_apiKey = ''k''\<rparr>"

subsection \<open>Properties\<close>

text \<open>C6: The life of a stand-in token. Let a registration for a run succeed at any point of any
sequence of registrations and revocations, no random token occurring twice. As long as no later
operation revokes or re-registers the run, the token finds exactly this registration, whatever happens to
other runs; as soon as one has, every request that carries the token is answered 401, for any upstream,
whatever follows.\<close>

theorem token_lifecycle:
  assumes "proxy_New load \<lparr>pc_Prefix = mount, pc_CACertFile = ca\<rparr> = Inr p0"
    and "Register k up raw (fold proxy_step before p0) = (Inr tok, p1)"
    and "distinct (issued before @ tok # issued later)"
  shows "if \<exists>op \<in> set later. ends_run k op
    then rq_header r ''Authorization'' = ''Bearer '' @ tok \<longrightarrow>
      ServeHTTP upstream (fold proxy_step later p1) r = Returns (proxy_writeError 401 ''unauthorized'')
    else lookup tok (fold proxy_step later p1) =
      Some \<lparr>en_runKey = k, en_token = tok, en_base = base_of up, en_apiKey = ep_APIKey up\<rparr>"
  using assms by (rule token_life)

theorem token_lifecycle_witness:
  "ServeHTTP upstream_down
    (fold proxy_step [DoRegister ''b'' \<lparr>ep_BaseURL = [], ep_APIKey = ''k2''\<rparr> (Some ''y''), DoRevoke ''a'']
      (snd (Register ''a'' \<lparr>ep_BaseURL = [], ep_APIKey = ''k1''\<rparr> (Some ''x'') sample_proxy)))
    sample_token_request = Returns (proxy_writeError 401 ''unauthorized'')"
proof -
  let ?up = "\<lparr>ep_BaseURL = [], ep_APIKey = ''k1''\<rparr>"
  let ?later = "[DoRegister ''b'' \<lparr>ep_BaseURL = [], ep_APIKey = ''k2''\<rparr> (Some ''y''), DoRevoke ''a'']"
  have tok: "EncodeToString ''x'' = ''78''" "EncodeToString ''y'' = ''79''"
    by (simp_all add: EncodeToString_def hex_digit_def code_of_def)
  have base: "valid_base (base_of \<lparr>ep_BaseURL = [], ep_APIKey = k\<rparr>)" for k
    using default_valid by (simp add: base_of_def)
  have reg: "Register ''a'' ?up (Some ''x'') (fold proxy_step [] sample_proxy) =
      (Inr ''78'', snd (Register ''a'' ?up (Some ''x'') sample_proxy))"
    using base tok default_valid by (simp add: prod_eq_iff Register_def Let_def)
  have fresh: "distinct (issued [] @ ''78'' # issued ?later)" using base tok by (simp add: issued_def new_entry_def)
  have ends: "\<exists>op \<in> set ?later. ends_run ''a'' op" by (simp add: ends_run_def)
  have hdr: "rq_header sample_token_request ''Authorization'' = ''Bearer '' @ ''78''" by (simp add: sample_token_request_def)
  from token_lifecycle [OF sample_proxy_new reg fresh, of sample_token_request upstream_down] ends hdr
  show ?thesis by (simp only: if_True simp_thms)
qed

text \<open>C5: What the proxy forwards. In every state a sequence of registrations and revocations reaches, a request is either
answered 401 (no live token) or 404 (a live token on any other route) for every upstream alike, or it is forwarded once for the
entry of its token: with its method, its body and its query, to the scheme and host of the
registered base URL and nowhere else, and with the real key in place of the token, or no authorization at all
for a keyless upstream. A failed round trip is a 502, a response relayed to its end is the answer, and a response that breaks off while it is copied aborts the handler;
the proxy panics in no other case.\<close>

theorem proxy_forwards:
  assumes "proxy_New load \<lparr>pc_Prefix = mount, pc_CACertFile = ca\<rparr> = Inr p0" "p = fold proxy_step ops p0"
  shows "(\<forall>upstream. ServeHTTP upstream p r = Returns (proxy_writeError 401 ''unauthorized'')) \<or>
    (\<forall>upstream. ServeHTTP upstream p r = Returns (proxy_writeError 404 ''not found'')) \<or>
    (\<exists>e route u out. lookup (en_token e) p = Some e \<and> rq_header r ''Authorization'' = ''Bearer '' @ en_token e \<and>
       rq_path r = mount @ route \<and> allowed (rq_method r) route \<and> url_Parse (en_base e) = Some u \<and>
       ou_method out = rq_method r \<and> ou_body out = rq_body r \<and> ur_RawQuery (ou_url out) = rq_rawquery r \<and>
       same_site (ou_url out) u \<and>
       (CHR ''?'' \<notin> set (en_base e) \<and> CHR ''#'' \<notin> set (en_base e) \<longrightarrow> ur_Path (ou_url out) = ur_Path u @ route) \<and>
       ou_authorization out = (if en_apiKey e = [] then None else Some (''Bearer '' @ en_apiKey e)) \<and>
       (\<forall>upstream. ServeHTTP upstream p r =
          (case upstream out of
          Unreachable \<Rightarrow> Returns (proxy_writeError 502 ''upstream unavailable'')
        | Relayed calls \<Rightarrow> Returns calls
        | BrokenOff calls \<Rightarrow> Panics calls)))"
proof -
  have bases: "bases_ok p" "px_prefix p = mount" using proxy_New_ok [OF assms(1)] assms(2) by (simp_all add: bases_ok_run)
  obtain token ok where cut: "CutPrefix (rq_header r ''Authorization'') ''Bearer '' = (token, ok)" by fastforce
  obtain route ok' where path: "CutPrefix (rq_path r) (px_prefix p) = (route, ok')" by fastforce
  note serve = ServeHTTP_def cut path
  show ?thesis
  proof (cases "ok \<and> lookup token p \<noteq> None")
    case False
    then have "ServeHTTP upstream p r = Returns (proxy_writeError 401 ''unauthorized'')" for upstream
      by (auto simp: serve)
    then show ?thesis by blast
  next
    case True
    then obtain e where e: "ok" "lookup token p = Some e" by auto
    show ?thesis
    proof (cases "ok' \<and> allowed (rq_method r) route")
      case False
      then have "ServeHTTP upstream p r = Returns (proxy_writeError 404 ''not found'')" for upstream
        using e by (auto simp: serve)
      then show ?thesis by blast
    next
      case True
      have shape: "rq_header r ''Authorization'' = ''Bearer '' @ token" "rq_path r = mount @ route"
        using CutPrefix_True_iff [of "rq_header r ''Authorization''" "''Bearer ''" token]
          CutPrefix_True_iff [of "rq_path r" "px_prefix p" route] cut path e(1) True bases(2) by simp_all
      have "en_token e = token" using lookup_base [OF bases(1) e(2)] by simp
      then show ?thesis
        using live_token_forwards [OF bases(1) e(2) shape(1), of route] shape(2) bases(2) True e(2) shape(1) by blast
    qed
  qed
qed

theorem proxy_forwards_witness:
  "\<exists>out. ou_authorization out = Some ''Bearer k1'' \<and> ou_method out = ''GET'' \<and>
    (\<forall>upstream. ServeHTTP upstream (fold proxy_step sample_ops sample_proxy) sample_token_request =
       (case upstream out of
          Unreachable \<Rightarrow> Returns (proxy_writeError 502 ''upstream unavailable'')
        | Relayed calls \<Rightarrow> Returns calls
        | BrokenOff calls \<Rightarrow> Panics calls))"
proof -
  let ?p = "fold proxy_step sample_ops sample_proxy"
  have down: "ServeHTTP upstream_down ?p sample_token_request = Returns upstreamError"
      "lookup ''78'' ?p = Some \<lparr>en_runKey = ''a'', en_token = ''78'', en_base = defaultBaseURL, en_apiKey = ''k1''\<rparr>"
    by code_simp+
  have no: "Returns upstreamError \<noteq> Returns (proxy_writeError 401 ''unauthorized'')"
      "Returns upstreamError \<noteq> Returns (proxy_writeError 404 ''not found'')"
    by (simp_all add: upstreamError_def proxy_writeError_def)
  have refused: "\<not> (\<forall>upstream. ServeHTTP upstream ?p sample_token_request = Returns (proxy_writeError 401 ''unauthorized''))"
      "\<not> (\<forall>upstream. ServeHTTP upstream ?p sample_token_request = Returns (proxy_writeError 404 ''not found''))"
    using down(1) no by metis+
  have r: "rq_header sample_token_request ''Authorization'' = ''Bearer 78''" "rq_method sample_token_request = ''GET''"
    by (simp_all add: sample_token_request_def)
  from proxy_forwards [OF sample_proxy_new refl, of sample_ops sample_token_request] refused obtain e out where
      e: "lookup (en_token e) ?p = Some e" "rq_header sample_token_request ''Authorization'' = ''Bearer '' @ en_token e"
      "ou_method out = rq_method sample_token_request"
      "ou_authorization out = (if en_apiKey e = [] then None else Some (''Bearer '' @ en_apiKey e))"
      "\<forall>upstream. ServeHTTP upstream ?p sample_token_request =
        (case upstream out of
          Unreachable \<Rightarrow> Returns (proxy_writeError 502 ''upstream unavailable'')
        | Relayed calls \<Rightarrow> Returns calls
        | BrokenOff calls \<Rightarrow> Panics calls)"
    by (elim disjE exE conjE) blast+
  have "en_token e = ''78''" using e(2) r(1) by simp
  then show ?thesis using down(2) e r(2) by (intro exI [of _ out]) auto
qed

text \<open>C8: The proxy keeps the real keys from the workers. Take two histories of registrations and revocations that differ only in the API keys, and for each an upstream that checks
authorizations, where the two keys of a registration open the same account, whatever it answers to whom, rejections of unknown keys included. Then every request gets the
same answer in both, and a further registration hands out the same token: what a worker sees depends on a key only through the account the upstream opens for it.\<close>

theorem key_hidden:
  assumes "proxy_New load cfg = Inr p" "list_all2 (same_op account account') ops ops'"
  shows "ServeHTTP (accounts serve account) (fold proxy_step ops p) r = ServeHTTP (accounts serve account') (fold proxy_step ops' p) r \<and>
    fst (Register k \<lparr>ep_BaseURL = base, ep_APIKey = key\<rparr> raw (fold proxy_step ops p)) =
    fst (Register k \<lparr>ep_BaseURL = base, ep_APIKey = key'\<rparr> raw (fold proxy_step ops' p))"
proof -
  have "px_runs p = []" using assms(1) by (auto simp: proxy_New_def Let_def split: if_splits sum.splits)
  then have "same_proxy account account' p p" by (simp add: same_proxy_def)
  then have "same_proxy account account' (fold proxy_step ops p) (fold proxy_step ops' p)" by (rule same_run [OF assms(2)])
  then have "ServeHTTP (accounts serve account) (fold proxy_step ops p) r = ServeHTTP (accounts serve account') (fold proxy_step ops' p) r"
    by (rule same_serve)
  then show ?thesis by (simp add: Register_def Let_def split: option.split)
qed

text \<open>Two gateways, each of which serves one key only; the request is served by both.\<close>

theorem key_hidden_witness:
  "ServeHTTP (accounts sample_serve (\<lambda>a. a = Some ''Bearer k1''))
      (fold proxy_step [DoRegister ''a'' \<lparr>ep_BaseURL = [], ep_APIKey = ''k1''\<rparr> (Some ''x'')] sample_proxy) sample_token_request = Returns [WriteHeader 200] \<and>
   ServeHTTP (accounts sample_serve (\<lambda>a. a = Some ''Bearer other''))
      (fold proxy_step [DoRegister ''a'' \<lparr>ep_BaseURL = [], ep_APIKey = ''other''\<rparr> (Some ''x'')] sample_proxy) sample_token_request = Returns [WriteHeader 200]"
proof -
  let ?ops = "[DoRegister ''a'' \<lparr>ep_BaseURL = [], ep_APIKey = ''k1''\<rparr> (Some ''x'')]" and ?ops' = "[DoRegister ''a'' \<lparr>ep_BaseURL = [], ep_APIKey = ''other''\<rparr> (Some ''x'')]"
  let ?acc = "\<lambda>a. a = Some ''Bearer k1''" and ?acc' = "\<lambda>a. a = Some ''Bearer other''"
  have "ServeHTTP (accounts sample_serve ?acc) (fold proxy_step ?ops sample_proxy) sample_token_request = Returns [WriteHeader 200]" by code_simp
  moreover have "list_all2 (same_op ?acc ?acc') ?ops ?ops'" by (simp add: bearer_def)
  ultimately show ?thesis using key_hidden [OF sample_proxy_new, of ?acc ?acc' ?ops ?ops' sample_serve sample_token_request] by metis
qed

text \<open>C20: A non-empty container URL that passes the check keeps its site under every mount path of plain characters (a leading slash, no control characters, percent signs, question
marks or hash signs): the base URL handed to a worker parses, has exactly the scheme and host of the configured URL and the mount
path as its path, with no query and no fragment; the scheme is http or https and the host is not empty. A host that reads as an IP address without a zone is neither
unspecified nor loopback, any other host is not the name localhost in any case. Addresses with a zone are not covered: the check lets them pass.\<close>

theorem ValidateContainerURL_sound:
  assumes "ValidateContainerURL raw = Inr res" "raw \<noteq> []" "plain_path mount"
  shows "\<exists>u. url_Parse raw = Some u \<and>
    url_Parse (WorkerBaseURL res port mount) = Some (u\<lparr>ur_Path := mount\<rparr>) \<and>
    ur_RawQuery u = [] \<and> ur_Fragment u = [] \<and> ur_Scheme u \<in> {''http'', ''https''} \<and> Hostname u \<noteq> [] \<and>
    (case ParseIP (Hostname u) of Some ip \<Rightarrow> \<not> IsUnspecified ip \<and> \<not> IsLoopback ip
                                | None \<Rightarrow> \<not> EqualFold (Hostname u) ''localhost'')"
  using assms by (rule container_base)

theorem ValidateContainerURL_sound_witness:
  "\<exists>u. url_Parse ''http://[fd00::1]:80/'' = Some u \<and>
    url_Parse (WorkerBaseURL ''http://[fd00::1]:80'' 19092 DefaultPrefix) = Some (u\<lparr>ur_Path := DefaultPrefix\<rparr>)"
proof -
  have v: "ValidateContainerURL ''http://[fd00::1]:80/'' = Inr ''http://[fd00::1]:80''" by code_simp
  have p: "plain_path DefaultPrefix" by code_simp
  from ValidateContainerURL_sound [OF v _ p, of 19092] show ?thesis by auto
qed

text \<open>C32: A registered base URL with a query or a fragment loses the route: the registration accepts it, the appended route lands in the
query (which the query of the request replaces) or in the fragment (which is not sent), and the request goes
to the path of the base URL itself.\<close>

theorem rewrite_query_base:
  assumes "valid_base (en_base e)" "CHR ''?'' \<in> set (en_base e) \<or> CHR ''#'' \<in> set (en_base e)"
    and "rq_path r = px_prefix p @ route" "allowed (rq_method r) route"
  shows "\<exists>u out. url_Parse (en_base e) = Some u \<and> rewrite p e r = Some out \<and>
    ur_Path (ou_url out) = ur_Path u \<and> ur_RawQuery (ou_url out) = rq_rawquery r"
  using valid_base_extend [OF assms(1,4)] assms(2,3) by (auto simp: rewrite_def)

theorem rewrite_query_base_witness:
  "\<exists>out. rewrite sample_proxy query_entry sample_token_request = Some out \<and> ur_Path (ou_url out) = ''/v1''"
proof -
  have base: "valid_base (en_base query_entry)" "map_option ur_Path (url_Parse (en_base query_entry)) = Some ''/v1''" by code_simp+
  have "\<exists>u out. url_Parse (en_base query_entry) = Some u \<and> rewrite sample_proxy query_entry sample_token_request = Some out \<and>
    ur_Path (ou_url out) = ur_Path u \<and> ur_RawQuery (ou_url out) = rq_rawquery sample_token_request"
    by (rule rewrite_query_base [OF base(1), where route = "''/models''"])
      (simp_all add: query_entry_def sample_token_request_def sample_proxy_def allowed_def)
  then show ?thesis using base(2) by auto
qed

text \<open>C33: The check of the container URL does not see the address of a host with a zone: every http or https URL with no path but a slash, no query and no fragment, whose host is
the IPv6 loopback or unspecified address with a zone, is accepted, although every URL whose host is that address without a zone is refused.\<close>

theorem zone_loopback_accepted:
  assumes "url_Parse raw = Some u" "ur_Scheme u \<in> {''http'', ''https''}" "ur_Path u = [] \<or> ur_Path u = ''/''"
    and "CHR ''?'' \<notin> set raw" "CHR ''#'' \<notin> set raw"
    and "parseAddr6 (Hostname u) = Some (ip, zone)" "zone \<noteq> []" "IsLoopback ip \<or> IsUnspecified ip"
  shows "ValidateContainerURL raw = Inr (TrimSuffix raw ''/'') \<and>
    (\<forall>plain v. url_Parse plain = Some v \<and> ParseIP (Hostname v) = Some ip \<longrightarrow> isl (ValidateContainerURL plain))"
proof -
  have "map_option (ParseIP \<circ> Hostname) (url_Parse []) = Some None" by code_simp
  then have "isl (ValidateContainerURL plain)" if "url_Parse plain = Some v" "ParseIP (Hostname v) = Some ip" for plain v
    using that assms(8) by (cases "plain = []") (auto simp: ValidateContainerURL_def Let_def)
  moreover have zone: "CHR ''%'' \<in> set (Hostname u)" using parseAddr6_zone [OF assms(6,7)] .
  have host: "Hostname u \<noteq> []" using zone by (cases "Hostname u") auto
  have "map_option ur_Scheme (url_Parse []) = Some []" by code_simp
  then have "raw \<noteq> []" using assms(1,2) by auto
  then have "ValidateContainerURL raw = Inr (TrimSuffix raw ''/'')"
    using assms(1-5) by (auto simp: ValidateContainerURL_def ParseIP_zone [OF zone] not_localhost_zone [OF zone] Let_def host)
  ultimately show ?thesis by blast
qed

theorem zone_loopback_accepted_witness:
  "isl (ValidateContainerURL ''http://[::1]:80'') \<and> ValidateContainerURL ''http://[::1%25lo]:80'' = Inr ''http://[::1%25lo]:80''"
proof -
  let ?ip = "[0, 0, 0, 0, 0, 0, 0, 1]"
  obtain u where u: "url_Parse ''http://[::1%25lo]:80'' = Some u" "ur_Scheme u = ''http''" "ur_Path u = []"
      "parseAddr6 (Hostname u) = Some (?ip, ''lo'')"
  proof -
    have "case url_Parse ''http://[::1%25lo]:80'' of None \<Rightarrow> False | Some u \<Rightarrow>
        ur_Scheme u = ''http'' \<and> ur_Path u = [] \<and> parseAddr6 (Hostname u) = Some (?ip, ''lo'')" by code_simp
    then show ?thesis using that by (auto split: option.splits)
  qed
  have "IsLoopback ?ip" by code_simp
  then have z: "ValidateContainerURL ''http://[::1%25lo]:80'' = Inr (TrimSuffix ''http://[::1%25lo]:80'' ''/'') \<and>
      (\<forall>plain v. url_Parse plain = Some v \<and> ParseIP (Hostname v) = Some ?ip \<longrightarrow> isl (ValidateContainerURL plain))"
    using u by (intro zone_loopback_accepted [OF u(1) _ _ _ _ u(4)]) auto
  have "map_option (ParseIP \<circ> Hostname) (url_Parse ''http://[::1]:80'') = Some (Some ?ip)" by code_simp
  then have "isl (ValidateContainerURL ''http://[::1]:80'')" using z by auto
  then show ?thesis using z by (simp add: TrimSuffix_def HasSuffix_def HasPrefix_def)
qed

end
