(* ===== verification/Worker_Route.thy ===== *)
theory Worker_Route
  imports Llm_Proxy Request_Metrics
begin

text \<open>
  The wiring of the LLM proxy as its package documentation prescribes it: the proxy mounted behind \<open>RecordMetrics\<close> with its paths on the allowlist, a worker that holds
  a token and the base URL of \<open>WorkerBaseURL\<close>, and the calls it makes with them.
\<close>

subsection \<open>The mounted proxy\<close>

definition proxy_handler :: "(out_request \<Rightarrow> relay) \<Rightarrow> Proxy \<Rightarrow> 'z core_state_scheme handler" where
  "proxy_handler upstream p r st = map_outcome (\<lambda>calls. (calls, st)) (ServeHTTP upstream p r)"

text \<open>The request a worker's client makes for a route below its base URL; \<open>None\<close> when the URL does not parse. The path and the query arrive as parsed.\<close>

definition worker_request :: "string \<Rightarrow> string \<Rightarrow> string \<Rightarrow> string \<Rightarrow> body_stream \<Rightarrow> request option" where
  "worker_request base token meth route body =
     map_option (\<lambda>u. \<lparr>rq_method = meth, rq_uri = ur_Path u, rq_path = ur_Path u,
         rq_header = (\<lambda>k. if k = ''Authorization'' then ''Bearer '' @ token else []),
         rq_rawquery = ur_RawQuery u, rq_length = int (length (bs_data body)), rq_body = body, rq_deadline = None\<rparr>)
       (url_Parse (base @ route))"

subsection \<open>The host gateway\<close>

lemma port_digits: "0 \<le> port \<Longrightarrow> list_all is_digit (Itoa port)"
  using nat_digits_digit by (auto simp: Itoa_def list_all_iff)

definition gateway :: "int \<Rightarrow> string" where
  "gateway port = ''host.docker.internal:'' @ Itoa port"

lemma is_digit_not:
  assumes "is_digit c"
  shows "c \<notin> set ''@/?#:[%''" "\<not> is_ctl c" "host_plain c"
  using assms by (auto simp: is_digit_def is_ctl_def host_plain_def is_alnum_def code_of_def)

lemma gateway_host:
  assumes "list_all is_digit ds"
  shows "parseAuthority (''host.docker.internal:'' @ ds) = Some (None, ''host.docker.internal:'' @ ds)"
proof -
  have d: "\<forall>c \<in> set ds. c \<notin> set ''@/?#:[%'' \<and> \<not> bad_byte HostPart c"
    using assms is_digit_not by (auto simp: list_all_iff bad_byte_def)
  then have ds: "unescape HostPart ds = Some ds" by (induction ds) auto
  have "unescape HostPart ''host.docker.internal:'' = Some ''host.docker.internal:''" by code_simp
  then have "unescape HostPart (''host.docker.internal:'' @ ds) = Some (''host.docker.internal:'' @ ds)"
    using ds by (subst unescape_append) (assumption, simp only: option.map)
  moreover have "dropWhile (\<lambda>c. c \<noteq> CHR '':'') (''host.docker.internal:'' @ ds) = CHR '':'' # ds" by simp
  moreover have "CHR ''['' \<notin> set (''host.docker.internal:'' @ ds)" "CHR ''@'' \<notin> set (''host.docker.internal:'' @ ds)" using d by auto
  moreover define s where "s = ''host.docker.internal:'' @ ds"
  ultimately have "unescape HostPart s = Some s" "dropWhile (\<lambda>c. c \<noteq> CHR '':'') s = CHR '':'' # ds" "CHR ''['' \<notin> set s" "CHR ''@'' \<notin> set s"
    by (simp_all only: s_def simp_thms)
  then have "parseAuthority s = Some (None, s)"
    using assms by (simp add: parseAuthority_def split_last_def parseHost_def validOptionalPort_def)
  then show ?thesis by (simp only: s_def)
qed

lemma gateway_parses:
  assumes "0 \<le> port"
  shows "url_Parse (''http://'' @ gateway port) = Some (empty_url\<lparr>ur_Scheme := ''http'', ur_Host := gateway port\<rparr>)"
proof -
  have d: "\<forall>c \<in> set (Itoa port). c \<notin> set ''@/?#:[%'' \<and> \<not> is_ctl c"
    using port_digits [OF assms] is_digit_not by (auto simp: list_all_iff)
  let ?g = "gateway port"
  have g: "CHR ''/'' \<notin> set ?g" "CHR ''?'' \<notin> set ?g" "CHR ''#'' \<notin> set ?g" "\<forall>c \<in> set ?g. \<not> is_ctl c"
    using d by (auto simp: gateway_def is_ctl_def code_of_def)
  have scheme: "getScheme (''http://'' @ ?g) = Some (''http'', CHR ''/'' # CHR ''/'' # ?g)"
    by (simp add: getScheme_def is_alpha_def is_lower_def is_upper_def scheme_extra_def is_digit_def code_of_def)
  have auth: "parseAuthority ?g = Some (None, ?g)" unfolding gateway_def by (rule gateway_host [OF port_digits [OF assms]])
  have low: "map to_lower ''http'' = ''http''" by code_simp
  have ctl: "\<not> (\<exists>c \<in> set (''http://'' @ ?g). is_ctl c)" "''http://'' @ ?g \<noteq> ''*''" using g(4) by (auto simp: is_ctl_def code_of_def)
  have cut: "takeWhile (\<lambda>x. x \<noteq> CHR ''?'') ?g = ?g" "takeWhile (\<lambda>x. x \<noteq> CHR ''/'') ?g = ?g" "dropWhile (\<lambda>x. x \<noteq> CHR ''?'') ?g = []"
    "dropWhile (\<lambda>x. x \<noteq> CHR ''/'') ?g = []" "filter (\<lambda>c. c = CHR ''?'') ?g = []"
    using g by (auto simp: takeWhile_eq_all_conv dropWhile_eq_Nil_conv filter_empty_conv)
  have "parse_url (''http://'' @ ?g) = Some (empty_url\<lparr>ur_Scheme := ''http'', ur_Host := ?g\<rparr>)"
    unfolding parse_url_def if_not_P [OF ctl(1)] if_not_P [OF ctl(2)] scheme
    by (simp add: low [simplified] cut auth parse_hier_def set_path_def HasPrefix_def before_char_def after_char_def Let_def empty_url_def)
  moreover have "before_char CHR ''#'' (''http://'' @ ?g) = ''http://'' @ ?g" "after_char CHR ''#'' (''http://'' @ ?g) = []"
    using g(3) by simp_all
  ultimately show ?thesis by (simp only: url_Parse_def Let_def option.case if_True simp_thms)
qed

subsection \<open>The URL of a call\<close>

lemma worker_url_parses:
  assumes "ValidateContainerURL conf = Inr url" "0 \<le> port" "plain_path mount" "allowed meth route"
  shows "\<exists>u. url_Parse (WorkerBaseURL url port mount @ route) = Some u \<and> ur_Path u = mount @ route \<and> ur_RawQuery u = []"
proof -
  have plain: "plain_path (mount @ route)" using assms(3) plain_routes [OF assms(4)] by (auto simp: plain_path_def)
  have app: "WorkerBaseURL url port mount @ route = WorkerBaseURL url port (mount @ route)" by (simp add: WorkerBaseURL_def Let_def)
  show ?thesis
  proof (cases "conf = []")
    case True
    let ?v = "empty_url\<lparr>ur_Scheme := ''http'', ur_Host := gateway port\<rparr>"
    have "url = []" using assms(1) True by (simp add: ValidateContainerURL_def)
    then have base: "WorkerBaseURL url port (mount @ route) = (''http://'' @ gateway port) @ mount @ route"
      by (simp add: WorkerBaseURL_def JoinHostPort_def gateway_def TrimSuffix_def HasSuffix_def HasPrefix_def)
    have "CHR ''?'' \<notin> set (''http://'' @ gateway port)" "CHR ''#'' \<notin> set (''http://'' @ gateway port)"
      using port_digits [OF assms(2)] is_digit_not(1) by (auto simp: gateway_def list_all_iff)
    then have "url_Parse ((''http://'' @ gateway port) @ mount @ route) = Some (?v\<lparr>ur_Path := ur_Path ?v @ mount @ route\<rparr>)"
      using url_Parse_extend [OF gateway_parses [OF assms(2)] _ _ plain] by (auto simp: gateway_def)
    then show ?thesis unfolding app base by (simp add: empty_url_def)
  next
    case False
    then show ?thesis using container_base [OF assms(1) False plain, of port] unfolding app by auto
  qed
qed

lemma proxy_label:
  assumes "mt_endpoints m = set endpoints" "set (Paths mount) \<subseteq> set endpoints" "allowed meth route" "mount \<noteq> []" "hd mount = CHR ''/''"
  shows "endpoint_label m (mount @ route) = tl mount @ route"
proof -
  have "mount @ route \<in> mt_endpoints m" using assms(1-3) by (auto simp: Paths_def allowed_def)
  then show ?thesis using assms(4,5) by (cases mount) (simp_all add: endpoint_label_def NormalizeEndpoint_def)
qed

lemma counted_once:
  assumes "metrics_New accepts db ns endpoints = Some m"
  shows "\<exists>status code secs. RecordMetrics (Some m) (proxy_handler upstream p) r st =
       map_outcome (\<lambda>calls. (calls,
         st\<lparr>st_requests := st_requests st @ [(endpoint_label m (rq_path r), Itoa status, code)],
            st_durations := st_durations st @ [(endpoint_label m (rq_path r), secs)]\<rparr>)) (ServeHTTP upstream p r) \<and>
       (code = ''aborted'' \<longleftrightarrow> (\<exists>calls. ServeHTTP upstream p r = Panics calls))"
proof (cases "ServeHTTP upstream p r")
  case (Returns calls)
  let ?status = "sr_status (record_calls calls)"
  show ?thesis
    using outcome_code_aborted [of ?status True]
    by (intro exI [of _ ?status] exI [of _ "outcome_code ?status True"])
      (auto simp: RecordMetrics_def proxy_handler_def observe_labelled [OF metrics_New_labelled [OF assms]] Returns Let_def)
next
  case (Panics calls)
  let ?status = "sr_status (record_calls calls)"
  show ?thesis
    using outcome_code_aborted [of ?status False]
    by (intro exI [of _ ?status] exI [of _ "outcome_code ?status False"])
      (auto simp: RecordMetrics_def proxy_handler_def observe_labelled [OF metrics_New_labelled [OF assms]] Panics Let_def)
qed

subsection \<open>Property\<close>

text \<open>C7: The wiring the package documents works end to end. A backend checks its container URL, registers a run and hands the worker the token and the base URL of
\<open>WorkerBaseURL\<close> (the host gateway when no container URL is configured); other runs come and go. Then every call the worker makes for an allowed route below that URL is a
well-formed request that the mounted proxy forwards, with its method and body, to the registered site and path, with the real key in place of the token; the worker
gets the upstream's answer, a 502 when there is none, or a response that breaks off where the upstream's did; and the call is counted and timed once, under the endpoint label of
its route, as aborted exactly in the last case.\<close>

theorem worker_calls_upstream:
  assumes "ValidateContainerURL conf = Inr url" "0 \<le> port" "plain_path mount"
    and "proxy_New load \<lparr>pc_Prefix = mount, pc_CACertFile = ca\<rparr> = Inr p0" "Register k up bytes (fold proxy_step before p0) = (Inr tok, p1)"
    and "distinct (issued before @ tok # issued later)" "\<not> (\<exists>op \<in> set later. ends_run k op)" "p = fold proxy_step later p1"
    and "metrics_New accepts db ns endpoints = Some m" "set (Paths mount) \<subseteq> set endpoints" "allowed meth route"
  shows "\<exists>r u out. worker_request (WorkerBaseURL url port mount) tok meth route body = Some r \<and>
    url_Parse (base_of up) = Some u \<and> same_site (ou_url out) u \<and>
    (CHR ''?'' \<notin> set (base_of up) \<and> CHR ''#'' \<notin> set (base_of up) \<longrightarrow> ur_Path (ou_url out) = ur_Path u @ route) \<and>
    ou_method out = meth \<and> ou_body out = body \<and>
    ou_authorization out = (if ep_APIKey up = [] then None else Some (''Bearer '' @ ep_APIKey up)) \<and>
    (\<forall>upstream (st :: 'z core_state_scheme). \<exists>status code secs. RecordMetrics (Some m) (proxy_handler upstream p) r st =
       map_outcome (\<lambda>calls. (calls,
         st\<lparr>st_requests := st_requests st @ [(tl mount @ route, Itoa status, code)],
            st_durations := st_durations st @ [(tl mount @ route, secs)]\<rparr>))
        (case upstream out of
           Unreachable \<Rightarrow> Returns (proxy_writeError 502 ''upstream unavailable'')
         | Relayed calls \<Rightarrow> Returns calls
         | BrokenOff calls \<Rightarrow> Panics calls) \<and>
       (code = ''aborted'' \<longleftrightarrow> (\<exists>calls. upstream out = BrokenOff calls)))"
proof -
  obtain w where w: "url_Parse (WorkerBaseURL url port mount @ route) = Some w" "ur_Path w = mount @ route" "ur_RawQuery w = []"
    using worker_url_parses [OF assms(1-3,11)] by blast
  then obtain r where r: "worker_request (WorkerBaseURL url port mount) tok meth route body = Some r" "rq_path r = mount @ route"
      "rq_method r = meth" "rq_body r = body" "rq_header r ''Authorization'' = ''Bearer '' @ tok"
    by (simp add: worker_request_def)
  have live: "lookup tok p = Some \<lparr>en_runKey = k, en_token = tok, en_base = base_of up, en_apiKey = ep_APIKey up\<rparr>"
    using token_life [OF assms(4-6)] assms(7,8) by simp
  have "p = fold proxy_step (before @ [DoRegister k up bytes] @ later) p0" using assms(5,8) by simp
  then have p: "bases_ok p" "px_prefix p = mount" using proxy_New_ok [OF assms(4)] bases_ok_run proxy_run_prefix by metis+
  have call: "rq_path r = px_prefix p @ route" "allowed (rq_method r) route" using r(2,3) p(2) assms(11) by simp_all
  obtain u out where out: "url_Parse (base_of up) = Some u" "ou_method out = meth" "ou_body out = body" "same_site (ou_url out) u"
      "CHR ''?'' \<notin> set (base_of up) \<and> CHR ''#'' \<notin> set (base_of up) \<longrightarrow> ur_Path (ou_url out) = ur_Path u @ route"
      "ou_authorization out = (if ep_APIKey up = [] then None else Some (''Bearer '' @ ep_APIKey up))"
      "\<forall>upstream. ServeHTTP upstream p r =
        (case upstream out of
           Unreachable \<Rightarrow> Returns (proxy_writeError 502 ''upstream unavailable'')
         | Relayed calls \<Rightarrow> Returns calls
         | BrokenOff calls \<Rightarrow> Panics calls)"
    using live_token_forwards [OF p(1) live r(5) call, unfolded entry.select_convs r(3,4)] by blast
  have label: "endpoint_label m (rq_path r) = tl mount @ route"
    using proxy_label [OF metrics_New_endpoints [OF assms(9)] assms(10,11)] assms(3) r(2) by (simp add: plain_path_def)
  have brk: "(\<exists>calls. ServeHTTP upstream p r = Panics calls) \<longleftrightarrow> (\<exists>calls. upstream out = BrokenOff calls)" for upstream
    using out(7) by (cases "upstream out") simp_all
  have "\<exists>status code secs. RecordMetrics (Some m) (proxy_handler upstream p) r st =
       map_outcome (\<lambda>calls. (calls,
         st\<lparr>st_requests := st_requests st @ [(tl mount @ route, Itoa status, code)],
            st_durations := st_durations st @ [(tl mount @ route, secs)]\<rparr>))
        (case upstream out of
           Unreachable \<Rightarrow> Returns (proxy_writeError 502 ''upstream unavailable'')
         | Relayed calls \<Rightarrow> Returns calls
         | BrokenOff calls \<Rightarrow> Panics calls) \<and>
       (code = ''aborted'' \<longleftrightarrow> (\<exists>calls. upstream out = BrokenOff calls))" for upstream and st :: "'z core_state_scheme"
    using counted_once [OF assms(9), of upstream p r st, unfolded label brk] unfolding out(7) [rule_format] .
  then show ?thesis using r(1) out(1-6) by (intro exI [of _ r] exI [of _ u] exI [of _ out]) blast
qed

theorem worker_calls_upstream_witness:
  "\<exists>r u out. worker_request (WorkerBaseURL [] 8080 ''/llm'') ''78'' ''GET'' ''/models'' \<lparr>bs_data = [], bs_fails = False\<rparr> = Some r \<and>
    url_Parse defaultBaseURL = Some u \<and> ur_Path (ou_url out) = ur_Path u @ ''/models'' \<and> ou_authorization out = Some ''Bearer k1'' \<and>
    (\<forall>upstream st :: core_state. \<exists>status code secs.
       RecordMetrics (Some (the (metrics_New (\<lambda>c reg. True) [] ''cm'' (Paths ''/llm''))))
         (proxy_handler upstream (snd (Register ''a'' \<lparr>ep_BaseURL = [], ep_APIKey = ''k1''\<rparr> (Some ''x'') sample_proxy))) r st =
       map_outcome (\<lambda>calls. (calls,
         st\<lparr>st_requests := st_requests st @ [(''llm/models'', Itoa status, code)],
            st_durations := st_durations st @ [(''llm/models'', secs)]\<rparr>))
        (case upstream out of
           Unreachable \<Rightarrow> Returns (proxy_writeError 502 ''upstream unavailable'')
         | Relayed calls \<Rightarrow> Returns calls
         | BrokenOff calls \<Rightarrow> Panics calls) \<and>
       (code = ''aborted'' \<longleftrightarrow> (\<exists>calls. upstream out = BrokenOff calls)))"
proof -
  let ?up = "\<lparr>ep_BaseURL = [], ep_APIKey = ''k1''\<rparr>" and ?p1 = "snd (Register ''a'' \<lparr>ep_BaseURL = [], ep_APIKey = ''k1''\<rparr> (Some ''x'') sample_proxy)"
  let ?b = "\<lparr>bs_data = [], bs_fails = False\<rparr>"
  have conf: "ValidateContainerURL [] = Inr []" by (simp add: ValidateContainerURL_def)
  have mount: "plain_path ''/llm''" by code_simp
  have reg: "Register ''a'' ?up (Some ''x'') (fold proxy_step [] sample_proxy) = (Inr ''78'', ?p1)"
    using default_valid by (simp add: prod_eq_iff Register_def Let_def EncodeToString_def hex_digit_def code_of_def)
  have fresh: "distinct (issued [] @ ''78'' # issued [])" "\<not> (\<exists>op \<in> set []. ends_run ''a'' op)" by (simp_all add: issued_def)
  have met: "metrics_New (\<lambda>c reg. True) [] ''cm'' (Paths ''/llm'') = Some (the (metrics_New (\<lambda>c reg. True) [] ''cm'' (Paths ''/llm'')))"
    by (simp add: metrics_New_def MustRegister_def)
  have base: "base_of ?up = defaultBaseURL" "CHR ''?'' \<notin> set defaultBaseURL" "CHR ''#'' \<notin> set defaultBaseURL"
    by (simp add: base_of_def, code_simp, code_simp)
  have route: "allowed ''GET'' ''/models''" by (simp add: allowed_def)
  from worker_calls_upstream [OF conf _ mount sample_proxy_new reg fresh(1) fresh(2) _ met subset_refl route, of 8080 ?p1 ?b, where 'z = unit]
  show ?thesis unfolding base(1) using base(2,3) by simp blast
qed

end
