(* ===== verification/Line_Scanner.thy ===== *)
theory Line_Scanner
  imports Kit_Prelude
begin

text \<open>
  \<open>bufio.Scanner\<close> with \<open>bufio.ScanLines\<close>, as the frame reader uses it, down to its buffer: the part of the buffer that
  holds data, shifting, doubling up to the maximal token size, reads that return less than asked for, the bound on empty
  reads, and the error that ends a scan. The reader underneath delivers a byte stream along a schedule: how many bytes each
  call returns at most (none is a read of zero bytes without an error), whether the final error comes together with the last bytes, and
  which error it is. The stream is finite and every read returns. \<open>next_line\<close> is what the scanner should do, as a function of the stream and of that second fact; \<open>Scan_refines\<close> shows that it
  does, whatever the schedule.
\<close>

datatype scan_err = EOF | TooLong | NoProgress | ReadFailed string

subsection \<open>The reader underneath\<close>

record reader =
  rd_left :: string
  rd_sched :: "nat list"
  rd_eager :: bool
  rd_end :: scan_err

definition Read :: "nat \<Rightarrow> reader \<Rightarrow> string \<times> scan_err option \<times> reader" where
  "Read n r =
     (if rd_left r = [] then ([], Some (rd_end r), r)
      else
        (let k = (case rd_sched r of [] \<Rightarrow> n | d # _ \<Rightarrow> min d n);
             r' = r\<lparr>rd_left := drop k (rd_left r), rd_sched := tl (rd_sched r)\<rparr>
         in (take k (rd_left r), if rd_left r' = [] \<and> rd_eager r then Some (rd_end r) else None, r')))"

subsection \<open>The scanner\<close>

text \<open>The buffer is its length, where its data starts, and the data.\<close>

record scanner =
  sc_len :: nat
  sc_start :: nat
  sc_data :: string
  sc_max :: nat
  sc_err :: "scan_err option"
  sc_rd :: reader

definition stream :: "scanner \<Rightarrow> string" where
  "stream sc = sc_data sc @ rd_left (sc_rd sc)"

definition dropCR :: "string \<Rightarrow> string" where
  "dropCR s = (if s \<noteq> [] \<and> last s = CHR 0x0D then butlast s else s)"

text \<open>\<open>ScanLines\<close>: how far to advance and the token; \<open>None\<close> asks for more data.\<close>

definition ScanLines :: "string \<Rightarrow> bool \<Rightarrow> (nat \<times> string) option" where
  "ScanLines s atEOF =
     (if CHR 0x0A \<in> set s
      then let l = takeWhile (\<lambda>c. c \<noteq> CHR 0x0A) s in Some (Suc (length l), dropCR l)
      else if atEOF \<and> s \<noteq> [] then Some (length s, dropCR s)
      else None)"

abbreviation maxConsecutiveEmptyReads :: nat where
  "maxConsecutiveEmptyReads \<equiv> 100"

function fill :: "nat \<Rightarrow> scanner \<Rightarrow> scanner" where
  "fill empties sc =
     (case Read (sc_len sc - (sc_start sc + length (sc_data sc))) (sc_rd sc) of
        (got, e, rd) \<Rightarrow>
          let sc' = sc\<lparr>sc_data := sc_data sc @ got, sc_rd := rd\<rparr> in
          if e \<noteq> None then sc'\<lparr>sc_err := e\<rparr>
          else if got \<noteq> [] then sc'
          else if maxConsecutiveEmptyReads < Suc empties then sc'\<lparr>sc_err := Some NoProgress\<rparr>
          else fill (Suc empties) sc')"
  by pat_completeness auto
termination
  by (relation "measure (\<lambda>(empties, sc). Suc maxConsecutiveEmptyReads - empties)") auto

declare fill.simps [simp del]

definition shift :: "scanner \<Rightarrow> scanner" where
  "shift sc =
     (if 0 < sc_start sc \<and> (sc_start sc + length (sc_data sc) = sc_len sc \<or> sc_len sc div 2 < sc_start sc)
      then sc\<lparr>sc_start := 0\<rparr> else sc)"

definition is_full :: "scanner \<Rightarrow> bool" where
  "is_full sc \<longleftrightarrow> sc_start sc + length (sc_data sc) = sc_len sc"

definition grow :: "scanner \<Rightarrow> scanner" where
  "grow sc = sc\<lparr>sc_len := min (if sc_len sc = 0 then 4096 else 2 * sc_len sc) (sc_max sc), sc_start := 0\<rparr>"

lemma stream_shift [simp]: "stream (shift sc) = stream sc" "stream (grow sc) = stream sc"
  by (simp_all add: shift_def grow_def stream_def)

lemma keeps_reader [simp]:
  "sc_rd (shift sc) = sc_rd sc" "sc_rd (grow sc) = sc_rd sc" "sc_err (shift sc) = sc_err sc" "sc_err (grow sc) = sc_err sc"
  "sc_data (shift sc) = sc_data sc" "sc_data (grow sc) = sc_data sc" "sc_max (shift sc) = sc_max sc" "sc_max (grow sc) = sc_max sc"
  by (simp_all add: shift_def grow_def)

lemma Read_conserves: "Read n r = (got, e, r') \<Longrightarrow> got @ rd_left r' = rd_left r"
  by (auto simp: Read_def Let_def split: if_splits)

lemma Read_end: "Read n r = (got, Some e, r') \<Longrightarrow> e = rd_end r \<and> rd_left r' = []"
  by (auto simp: Read_def Let_def split: if_splits)

lemma fill_stream: "stream (fill empties sc) = stream sc"
proof (induction empties sc rule: fill.induct)
  case (1 empties sc)
  obtain got e rd where r: "Read (sc_len sc - (sc_start sc + length (sc_data sc))) (sc_rd sc) = (got, e, rd)"
    by (metis prod_cases3)
  then show ?case
    using 1 [OF r [symmetric] refl refl] Read_conserves [OF r] by (subst fill.simps) (auto simp add: r Let_def stream_def)
qed

lemma fill_progress: "sc_err (fill empties sc) \<noteq> None \<or> length (rd_left (sc_rd (fill empties sc))) < length (rd_left (sc_rd sc))"
proof (induction empties sc rule: fill.induct)
  case (1 empties sc)
  obtain got e rd where r: "Read (sc_len sc - (sc_start sc + length (sc_data sc))) (sc_rd sc) = (got, e, rd)"
    by (metis prod_cases3)
  have len: "length got + length (rd_left rd) = length (rd_left (sc_rd sc))"
    using Read_conserves [OF r] by (metis length_append)
  show ?case
    using 1 [OF r [symmetric] refl refl] by (subst (1 2) fill.simps) (auto simp add: r Let_def len [symmetric])
qed

function Scan :: "scanner \<Rightarrow> string option \<times> scanner" where
  "Scan sc =
     (case ScanLines (sc_data sc) (sc_err sc \<noteq> None) of
        Some (n, token) \<Rightarrow> (Some token, sc\<lparr>sc_start := sc_start sc + n, sc_data := drop n (sc_data sc)\<rparr>)
      | None \<Rightarrow>
          if sc_err sc \<noteq> None then (None, sc\<lparr>sc_start := 0, sc_data := []\<rparr>)
          else if \<not> is_full (shift sc) then Scan (fill 0 (shift sc))
          else if sc_max sc \<le> sc_len sc then (None, (shift sc)\<lparr>sc_err := Some TooLong\<rparr>)
          else Scan (fill 0 (grow (shift sc))))"
  by pat_completeness auto
termination
proof (relation "measure (\<lambda>sc. if sc_err sc = None then Suc (length (rd_left (sc_rd sc))) else 0)")
  show "(fill 0 (shift sc), sc) \<in> measure (\<lambda>sc. if sc_err sc = None then Suc (length (rd_left (sc_rd sc))) else 0)"
    if "\<not> sc_err sc \<noteq> None" for sc
    using that fill_progress [of 0 "shift sc"] by auto
  show "(fill 0 (grow (shift sc)), sc) \<in> measure (\<lambda>sc. if sc_err sc = None then Suc (length (rd_left (sc_rd sc))) else 0)"
    if "\<not> sc_err sc \<noteq> None" for sc
    using that fill_progress [of 0 "grow (shift sc)"] by auto
qed auto

declare Scan.simps [simp del]

text \<open>\<open>Scanner.Err\<close>: the end of the stream is no error.\<close>

definition Err :: "scanner \<Rightarrow> scan_err option" where
  "Err sc = (if sc_err sc = Some EOF then None else sc_err sc)"

lemma ScanLines_bounds: "ScanLines s atEOF = Some (n, token) \<Longrightarrow> 0 < n \<and> n \<le> length s"
proof (auto simp: ScanLines_def Let_def split: if_splits)
  assume "CHR 0x0A \<in> set s"
  then show "Suc (length (takeWhile (\<lambda>c. c \<noteq> CHR 0x0A) s)) \<le> length s"
    by (induction s) auto
qed

subsection \<open>The branches of a scan\<close>

lemma Scan_token:
  "ScanLines (sc_data sc) (sc_err sc \<noteq> None) = Some (n, t) \<Longrightarrow>
    Scan sc = (Some t, sc\<lparr>sc_start := sc_start sc + n, sc_data := drop n (sc_data sc)\<rparr>)"
  by (subst Scan.simps) simp

lemma Scan_end:
  "ScanLines (sc_data sc) True = None \<Longrightarrow> sc_err sc = Some e \<Longrightarrow> Scan sc = (None, sc\<lparr>sc_start := 0, sc_data := []\<rparr>)"
  by (subst Scan.simps) simp

lemma Scan_more:
  "ScanLines (sc_data sc) False = None \<Longrightarrow> sc_err sc = None \<Longrightarrow> \<not> is_full (shift sc) \<Longrightarrow> Scan sc = Scan (fill 0 (shift sc))"
  by (subst Scan.simps) simp

lemma Scan_overlong:
  "ScanLines (sc_data sc) False = None \<Longrightarrow> sc_err sc = None \<Longrightarrow> is_full (shift sc) \<Longrightarrow> sc_max sc \<le> sc_len sc \<Longrightarrow>
    Scan sc = (None, (shift sc)\<lparr>sc_err := Some TooLong\<rparr>)"
  by (subst Scan.simps) simp

lemma Scan_grow:
  "ScanLines (sc_data sc) False = None \<Longrightarrow> sc_err sc = None \<Longrightarrow> is_full (shift sc) \<Longrightarrow> \<not> sc_max sc \<le> sc_len sc \<Longrightarrow>
    Scan sc = Scan (fill 0 (grow (shift sc)))"
  by (subst Scan.simps) simp

lemma scan_cases:
  obtains (token) n t where "ScanLines (sc_data sc) (sc_err sc \<noteq> None) = Some (n, t)"
    | (final) e where "ScanLines (sc_data sc) True = None" "sc_err sc = Some e"
    | (more) "ScanLines (sc_data sc) False = None" "sc_err sc = None" "\<not> is_full (shift sc)"
    | (overlong) "ScanLines (sc_data sc) False = None" "sc_err sc = None" "is_full (shift sc)" "sc_max sc \<le> sc_len sc"
    | (grow) "ScanLines (sc_data sc) False = None" "sc_err sc = None" "is_full (shift sc)" "\<not> sc_max sc \<le> sc_len sc"
proof (cases "ScanLines (sc_data sc) (sc_err sc \<noteq> None)")
  case None
  then show ?thesis using final more overlong grow by (cases "sc_err sc") auto
qed (use token in auto)

text \<open>Every token consumes some of the stream, so a client that asks for tokens in a loop comes to an end.\<close>

lemma Scan_consumes: "Scan sc = (Some token, sc') \<Longrightarrow> length (stream sc') < length (stream sc)"
proof (induction sc rule: Scan.induct)
  case (1 sc)
  show ?case
  proof (cases rule: scan_cases [of sc])
    case (token n t)
    then show ?thesis using 1(3) ScanLines_bounds [OF token] by (auto simp: Scan_token stream_def)
  qed (use 1 in \<open>simp_all add: Scan_end Scan_more Scan_overlong Scan_grow fill_stream\<close>)
qed

subsection \<open>What the scanner should do\<close>

datatype line = Line string string | Overlong | Done

text \<open>
  The next line of a stream: a line with its newline fits into the maximal token size, or it is too long. What is left without a newline is a
  line of its own, if the reader lets the scanner see the end of the stream before the buffer is full.
\<close>

definition next_line :: "nat \<Rightarrow> bool \<Rightarrow> string \<Rightarrow> line" where
  "next_line limit eager s =
     (let l = takeWhile (\<lambda>c. c \<noteq> CHR 0x0A) s in
      if CHR 0x0A \<in> set s then
        (if length l < limit then Line (dropCR l) (drop (Suc (length l)) s) else Overlong)
      else if length s < limit \<or> eager \<and> length s = limit then (if s = [] then Done else Line (dropCR s) [])
      else Overlong)"

text \<open>At most a hundred reads in a row return nothing.\<close>

fun patient :: "nat \<Rightarrow> nat list \<Rightarrow> bool" where
  "patient z [] = True"
| "patient z (d # ds) = (if d = 0 then z < maxConsecutiveEmptyReads \<and> patient (Suc z) ds else patient 0 ds)"

definition scanner_ok :: "scanner \<Rightarrow> bool" where
  "scanner_ok sc \<longleftrightarrow> 0 < sc_len sc \<and> sc_len sc \<le> sc_max sc \<and> sc_start sc + length (sc_data sc) \<le> sc_len sc \<and>
     patient 0 (rd_sched (sc_rd sc)) \<and>
     (sc_err sc = None \<or> sc_err sc = Some (rd_end (sc_rd sc)) \<and> rd_left (sc_rd sc) = [] \<and>
        (length (sc_data sc) < sc_max sc \<or> rd_eager (sc_rd sc))) \<and>
     (rd_eager (sc_rd sc) \<and> rd_left (sc_rd sc) = [] \<and> sc_data sc \<noteq> [] \<longrightarrow> sc_err sc \<noteq> None)"

lemma patient_mono: "patient z ds \<Longrightarrow> y \<le> z \<Longrightarrow> patient y ds"
proof (induction ds arbitrary: y z)
  case (Cons d ds)
  then show ?case using Cons.IH [of "Suc z" "Suc y"] by (auto split: if_splits)
qed simp

lemma Read_shape:
  assumes "Read n r = (got, e, r')" "0 < n" "patient z (rd_sched r)"
  shows "rd_end r' = rd_end r" "rd_eager r' = rd_eager r" "length got \<le> n"
    "e = None \<or> e = Some (rd_end r) \<and> rd_left r' = [] \<and> (got = [] \<or> rd_eager r)"
    "rd_eager r \<Longrightarrow> rd_left r' = [] \<Longrightarrow> e \<noteq> None"
    "got \<noteq> [] \<or> e \<noteq> None \<Longrightarrow> patient 0 (rd_sched r')"
    "got = [] \<Longrightarrow> e = None \<Longrightarrow> z < maxConsecutiveEmptyReads \<and> patient (Suc z) (rd_sched r')"
proof -
  show "rd_end r' = rd_end r" "rd_eager r' = rd_eager r" "length got \<le> n"
    "e = None \<or> e = Some (rd_end r) \<and> rd_left r' = [] \<and> (got = [] \<or> rd_eager r)"
    "rd_eager r \<Longrightarrow> rd_left r' = [] \<Longrightarrow> e \<noteq> None"
    using assms(1) by (auto simp: Read_def Let_def split: if_splits list.splits)
  have sched: "rd_sched r' = (if rd_left r = [] then rd_sched r else tl (rd_sched r))"
    using assms(1) by (auto simp: Read_def Let_def split: if_splits)
  show "patient 0 (rd_sched r')" 
    using assms(3) patient_mono sched by (cases "rd_sched r") (auto split: if_splits)
  show "z < maxConsecutiveEmptyReads \<and> patient (Suc z) (rd_sched r')" if "got = []" "e = None"
    using assms that by (cases "rd_sched r") (auto simp: Read_def Let_def split: if_splits)
qed

lemma fill_ok:
  assumes "sc_err sc = None" "sc_start sc + length (sc_data sc) < sc_len sc" "sc_len sc \<le> sc_max sc"
    "patient empties (rd_sched (sc_rd sc))"
  shows "scanner_ok (fill empties sc) \<and> sc_max (fill empties sc) = sc_max sc \<and>
    rd_end (sc_rd (fill empties sc)) = rd_end (sc_rd sc) \<and> rd_eager (sc_rd (fill empties sc)) = rd_eager (sc_rd sc)"
  using assms
proof (induction empties sc rule: fill.induct)
  case (1 empties sc)
  let ?n = "sc_len sc - (sc_start sc + length (sc_data sc))"
  obtain got e rd where r: "Read ?n (sc_rd sc) = (got, e, rd)" by (metis prod_cases3)
  have "0 < ?n" using 1(3) by simp
  note shape = Read_shape [OF r this 1(5)]
  let ?sc = "sc\<lparr>sc_data := sc_data sc @ got, sc_rd := rd\<rparr>"
  show ?case
  proof (cases "got = [] \<and> e = None")
    case True
    then have "fill empties sc = fill (Suc empties) ?sc"
      using shape(7) by (subst fill.simps) (simp add: r Let_def)
    moreover have "\<not> maxConsecutiveEmptyReads < Suc empties" using True shape(7) by simp
    ultimately show ?thesis
      using 1(1) [OF r [symmetric] refl refl] 1(2-4) True shape by simp
  next
    case False
    then have "fill empties sc = ?sc\<lparr>sc_err := e\<rparr>"
      using 1(2) by (subst fill.simps) (auto simp: r Let_def)
    then show ?thesis using False 1(3,4) shape by (auto simp: scanner_ok_def)
  qed
qed

lemma newline_split:
  assumes "CHR 0x0A \<in> set s"
  shows "takeWhile (\<lambda>c. c \<noteq> CHR 0x0A) (s @ t) = takeWhile (\<lambda>c. c \<noteq> CHR 0x0A) s"
    "length (takeWhile (\<lambda>c. c \<noteq> CHR 0x0A) s) < length s"
  using assms by (induction s) auto

lemma newline_later:
  "CHR 0x0A \<notin> set s \<Longrightarrow> takeWhile (\<lambda>c. c \<noteq> CHR 0x0A) (s @ t) = s @ takeWhile (\<lambda>c. c \<noteq> CHR 0x0A) t"
  by (induction s) auto

text \<open>What a scan gives, in terms of the line the stream holds next.\<close>

definition scans :: "scanner \<Rightarrow> line \<Rightarrow> bool" where
  "scans sc l =
     (case l of
        Line t rest \<Rightarrow>
          (\<exists>sc'. Scan sc = (Some t, sc') \<and> scanner_ok sc' \<and> stream sc' = rest \<and> sc_max sc' = sc_max sc \<and>
             rd_eager (sc_rd sc') = rd_eager (sc_rd sc) \<and> rd_end (sc_rd sc') = rd_end (sc_rd sc))
      | Overlong \<Rightarrow> (\<exists>sc'. Scan sc = (None, sc') \<and> sc_err sc' = Some TooLong)
      | Done \<Rightarrow> (\<exists>sc'. Scan sc = (None, sc') \<and> sc_err sc' = Some (rd_end (sc_rd sc))))"

lemma scans_step:
  "Scan sc = Scan sc2 \<Longrightarrow> sc_max sc2 = sc_max sc \<Longrightarrow> rd_eager (sc_rd sc2) = rd_eager (sc_rd sc) \<Longrightarrow>
    rd_end (sc_rd sc2) = rd_end (sc_rd sc) \<Longrightarrow> scans sc l = scans sc2 l"
  by (cases l) (simp_all add: scans_def)

lemma full_start:
  "scanner_ok sc \<Longrightarrow> is_full (shift sc) \<Longrightarrow> sc_start sc = 0 \<and> length (sc_data sc) = sc_len sc"
  by (auto simp: is_full_def shift_def scanner_ok_def split: if_splits)

lemma scans_token:
  assumes ok: "scanner_ok sc" and l: "ScanLines (sc_data sc) (sc_err sc \<noteq> None) = Some (n, t)"
  shows "scans sc (next_line (sc_max sc) (rd_eager (sc_rd sc)) (stream sc))"
proof -
  let ?sc = "sc\<lparr>sc_start := sc_start sc + n, sc_data := drop n (sc_data sc)\<rparr>"
  have "scanner_ok ?sc" using ok ScanLines_bounds [OF l] by (auto simp: scanner_ok_def)
  moreover have "next_line (sc_max sc) (rd_eager (sc_rd sc)) (stream sc) = Line t (stream ?sc)"
  proof (cases "CHR 0x0A \<in> set (sc_data sc)")
    case True
    then show ?thesis
      using l ok newline_split(1) [OF True, of "rd_left (sc_rd sc)"] newline_split(2) [OF True]
      by (auto simp: ScanLines_def next_line_def stream_def scanner_ok_def Let_def)
  next
    case False
    then show ?thesis
      using l ok by (auto simp: ScanLines_def next_line_def stream_def scanner_ok_def split: if_splits)
  qed
  ultimately show ?thesis by (simp add: scans_def Scan_token [OF l])
qed

lemma scans_overlong:
  assumes ok: "scanner_ok sc" and l: "ScanLines (sc_data sc) False = None" "sc_err sc = None" "is_full (shift sc)"
    "sc_max sc \<le> sc_len sc"
  shows "scans sc (next_line (sc_max sc) (rd_eager (sc_rd sc)) (stream sc))"
proof -
  have "length (sc_data sc) = sc_max sc" "sc_data sc \<noteq> []"
    using full_start [OF ok l(3)] ok l(4) by (auto simp: scanner_ok_def)
  moreover have "CHR 0x0A \<notin> set (sc_data sc)" using l(1) by (auto simp: ScanLines_def Let_def split: if_splits)
  ultimately have "next_line (sc_max sc) (rd_eager (sc_rd sc)) (stream sc) = Overlong"
    using ok l(2) newline_later [of "sc_data sc" "rd_left (sc_rd sc)"]
    by (auto simp: next_line_def stream_def scanner_ok_def Let_def)
  then show ?thesis using Scan_overlong [OF l] by (simp add: scans_def)
qed

theorem Scan_refines:
  "scanner_ok sc \<Longrightarrow> scans sc (next_line (sc_max sc) (rd_eager (sc_rd sc)) (stream sc))"
proof (induction sc rule: Scan.induct)
  case (1 sc)
  note ok = 1(3)
  show ?case
  proof (cases rule: scan_cases [of sc])
    case (token n t)
    then show ?thesis using ok by (rule scans_token [rotated])
  next
    case (final e)
    then have "sc_data sc = []" by (auto simp: ScanLines_def Let_def split: if_splits)
    then show ?thesis
      using final ok by (simp add: Scan_end scans_def next_line_def stream_def scanner_ok_def)
  next
    case more
    have "scanner_ok (fill 0 (shift sc)) \<and> sc_max (fill 0 (shift sc)) = sc_max sc \<and>
        rd_end (sc_rd (fill 0 (shift sc))) = rd_end (sc_rd sc) \<and> rd_eager (sc_rd (fill 0 (shift sc))) = rd_eager (sc_rd sc)"
      using fill_ok [of "shift sc" 0] more ok by (auto simp: scanner_ok_def is_full_def shift_def split: if_splits)
    then show ?thesis using 1(1) more by (simp add: scans_step [OF Scan_more] fill_stream)
  next
    case overlong
    then show ?thesis using ok scans_overlong by blast
  next
    case grow
    have "sc_len sc < min (2 * sc_len sc) (sc_max sc)" using grow(4) ok by (auto simp: scanner_ok_def)
    then have "scanner_ok (fill 0 (grow (shift sc))) \<and> sc_max (fill 0 (grow (shift sc))) = sc_max sc \<and>
        rd_end (sc_rd (fill 0 (grow (shift sc)))) = rd_end (sc_rd sc) \<and>
        rd_eager (sc_rd (fill 0 (grow (shift sc)))) = rd_eager (sc_rd sc)"
      using fill_ok [of "grow (shift sc)" 0] grow full_start [OF ok grow(3)] ok
      by (auto simp: scanner_ok_def grow_def shift_def)
    then show ?thesis using 1(2) grow by (simp add: scans_step [OF Scan_grow] fill_stream)
  qed
qed

end
