(* ===== verification/Frames.thy ===== *)
theory Frames
  imports Json Line_Scanner
begin

text \<open>
  \<open>frames/frames.go\<close>: the control frames a host writes to the stdin of a worker, one JSON document per line. \<open>Write\<close> works on any
  writer, given as the function its \<open>Write\<close> method is; the reader is the scanner of \<open>Line_Scanner\<close> and the set of types it accepts. What
  a reader yields is proved equal to a function of the byte stream (and of whether the end comes together with the last bytes), and reading what \<open>Write\<close> wrote gives
  the frames back. The stream is finite and its reads return: a reader that blocks for ever or never ends is not represented, so nothing is said about whether
  a call of \<open>Next\<close> returns on one.
\<close>

definition TypeUserMessage :: string where
  "TypeUserMessage = ''user_message''"

definition TypePromote :: string where
  "TypePromote = ''promote''"

definition TypeEndSession :: string where
  "TypeEndSession = ''end_session''"

definition TypeClear :: string where
  "TypeClear = ''clear''"

definition MaxLine :: nat where
  "MaxLine = 64 * 1024"

record Frame =
  frame_Type :: string
  frame_Content :: string
  frame_MessageID :: string

datatype frame_err = ErrFrameTooLarge nat | WriteFailed string | ReadFrame scan_err | FrameEOF

subsection \<open>Encoding and decoding one frame\<close>

text \<open>The struct tags: \<open>content\<close> and \<open>message_id\<close> are left out when empty.\<close>

definition frame_doc :: "Frame \<Rightarrow> json" where
  "frame_doc f =
     JObj ([(''type'', JStr (frame_Type f))] @
       (if frame_Content f = [] then [] else [(''content'', JStr (frame_Content f))]) @
       (if frame_MessageID f = [] then [] else [(''message_id'', JStr (frame_MessageID f))]))"

definition put_frame :: "string \<Rightarrow> json \<Rightarrow> Frame \<Rightarrow> Frame option" where
  "put_frame n v f =
     (case v of
        JNull \<Rightarrow> Some f
      | JStr s \<Rightarrow>
          Some (if n = ''type'' then f\<lparr>frame_Type := s\<rparr>
                else if n = ''content'' then f\<lparr>frame_Content := s\<rparr>
                else f\<lparr>frame_MessageID := s\<rparr>)
      | _ \<Rightarrow> None)"

definition unmarshal_frame :: "string \<Rightarrow> Frame option" where
  "unmarshal_frame line =
     Unmarshal [''type'', ''content'', ''message_id''] put_frame \<lparr>frame_Type = [], frame_Content = [], frame_MessageID = []\<rparr> line"

subsection \<open>Write\<close>

definition Write :: "(string \<Rightarrow> 'w \<Rightarrow> string option \<times> 'w) \<Rightarrow> Frame \<Rightarrow> 'w \<Rightarrow> frame_err option \<times> 'w" where
  "Write write f w =
     (let b = encode (frame_doc f) in
      if MaxLine < length b + 1 then (Some (ErrFrameTooLarge (length b + 1)), w)
      else case write (b @ [CHR 0x0A]) w of
        (Some e, w') \<Rightarrow> (Some (WriteFailed e), w')
      | (None, w') \<Rightarrow> (None, w'))"

subsection \<open>The reader\<close>

record Reader =
  rdr_sc :: scanner
  rdr_accepted :: "string list"

definition NewReader :: "reader \<Rightarrow> string list \<Rightarrow> Reader" where
  "NewReader r accepted =
     \<lparr>rdr_sc = \<lparr>sc_len = 4096, sc_start = 0, sc_data = [], sc_max = MaxLine, sc_err = None, sc_rd = r\<rparr>,
      rdr_accepted = accepted\<rparr>"

function Next :: "Reader \<Rightarrow> (frame_err + Frame) \<times> Reader" where
  "Next r =
     (case Scan (rdr_sc r) of
        (Some line, sc) \<Rightarrow>
          (case unmarshal_frame line of
             None \<Rightarrow> Next (r\<lparr>rdr_sc := sc\<rparr>)
           | Some f \<Rightarrow>
               if frame_Type f \<in> set (rdr_accepted r) then (Inr f, r\<lparr>rdr_sc := sc\<rparr>)
               else Next (r\<lparr>rdr_sc := sc\<rparr>))
      | (None, sc) \<Rightarrow>
          (case Err sc of
             Some e \<Rightarrow> (Inl (ReadFrame e), r\<lparr>rdr_sc := sc\<rparr>)
           | None \<Rightarrow> (Inl FrameEOF, r\<lparr>rdr_sc := sc\<rparr>)))"
  by pat_completeness auto
termination
  by (relation "measure (\<lambda>r. length (stream (rdr_sc r)))") (auto dest: Scan_consumes [OF sym] Scan_consumes)

declare Next.simps [simp del]

text \<open>The frame a line yields, if it is one of the accepted types, and the branches of \<open>Next\<close> in its terms.\<close>

definition accepts :: "string list \<Rightarrow> string \<Rightarrow> Frame option" where
  "accepts accepted line =
     (case unmarshal_frame line of
        None \<Rightarrow> None
      | Some f \<Rightarrow> if frame_Type f \<in> set accepted then Some f else None)"

lemma Next_found:
  "Scan (rdr_sc r) = (Some line, sc) \<Longrightarrow> accepts (rdr_accepted r) line = Some f \<Longrightarrow> Next r = (Inr f, r\<lparr>rdr_sc := sc\<rparr>)"
  by (subst Next.simps) (auto simp: accepts_def split: option.splits if_splits)

lemma Next_skip:
  "Scan (rdr_sc r) = (Some line, sc) \<Longrightarrow> accepts (rdr_accepted r) line = None \<Longrightarrow> Next r = Next (r\<lparr>rdr_sc := sc\<rparr>)"
  by (subst Next.simps) (auto simp: accepts_def split: option.splits if_splits)

lemma Next_stop:
  "Scan (rdr_sc r) = (None, sc) \<Longrightarrow>
    Next r = (Inl (case Err sc of Some e \<Rightarrow> ReadFrame e | None \<Rightarrow> FrameEOF), r\<lparr>rdr_sc := sc\<rparr>)"
  by (subst Next.simps) (auto split: option.splits)

lemma next_cases:
  obtains (found) line sc f where "Scan (rdr_sc r) = (Some line, sc)" "accepts (rdr_accepted r) line = Some f"
    | (skip) line sc where "Scan (rdr_sc r) = (Some line, sc)" "accepts (rdr_accepted r) line = None"
    | (stop) sc where "Scan (rdr_sc r) = (None, sc)"
  by (metis not_None_eq prod.collapse)

lemma Next_consumes: "Next r = (Inr f, r') \<Longrightarrow> length (stream (rdr_sc r')) < length (stream (rdr_sc r))"
proof (induction "length (stream (rdr_sc r))" arbitrary: r rule: less_induct)
  case less
  show ?case
  proof (cases rule: next_cases [of r])
    case (found line sc f)
    then show ?thesis using less.prems Scan_consumes [OF found(1)] by (auto simp: Next_found)
  next
    case (skip line sc)
    then show ?thesis
      using less.prems less.hyps [of "r\<lparr>rdr_sc := sc\<rparr>"] Scan_consumes [OF skip(1)] by (auto simp: Next_skip)
  qed (use less.prems in \<open>auto simp: Next_stop\<close>)
qed

text \<open>A worker reads until \<open>Next\<close> fails.\<close>

function read_frames :: "Reader \<Rightarrow> Frame list \<times> frame_err" where
  "read_frames r =
     (case Next r of
        (Inl e, _) \<Rightarrow> ([], e)
      | (Inr f, r') \<Rightarrow> apfst ((#) f) (read_frames r'))"
  by pat_completeness auto
termination
  by (relation "measure (\<lambda>r. length (stream (rdr_sc r)))") (auto dest: Next_consumes [OF sym])

declare read_frames.simps [simp del]

subsection \<open>What a reader should yield\<close>

text \<open>The lines of a stream up to the first that is too long, and whether there was one.\<close>

function split_lines :: "nat \<Rightarrow> bool \<Rightarrow> string \<Rightarrow> string list \<times> bool" where
  "split_lines limit eager s =
     (case next_line limit eager s of
        Line l rest \<Rightarrow> apfst ((#) l) (split_lines limit eager rest)
      | Overlong \<Rightarrow> ([], True)
      | Done \<Rightarrow> ([], False))"
  by pat_completeness auto
termination
proof (relation "measure (\<lambda>(limit, eager, s). length s)")
  show "((limit, eager, rest), limit, eager, s) \<in> measure (\<lambda>(limit, eager, s). length s)"
    if "next_line limit eager s = Line l rest" for limit eager s l rest
    using that by (cases s) (auto simp: next_line_def Let_def split: if_splits)
qed simp

declare split_lines.simps [simp del]

definition final_error :: "reader \<Rightarrow> bool \<Rightarrow> frame_err" where
  "final_error rd overlong =
     (if overlong then ReadFrame TooLong else if rd_end rd = EOF then FrameEOF else ReadFrame (rd_end rd))"

definition frames_in :: "string list \<Rightarrow> string list \<Rightarrow> Frame list" where
  "frames_in accepted ls = List.map_filter (accepts accepted) ls"

lemma frames_in_simps [simp]:
  "frames_in acc [] = []"
  "frames_in acc (l # ls) = (case accepts acc l of None \<Rightarrow> frames_in acc ls | Some f \<Rightarrow> f # frames_in acc ls)"
  by (auto simp: frames_in_def List.map_filter_def split: option.split)

lemma read_frames_lines:
  assumes "scanner_ok (rdr_sc r)"
  shows "read_frames r =
    (let (ls, overlong) = split_lines (sc_max (rdr_sc r)) (rd_eager (sc_rd (rdr_sc r))) (stream (rdr_sc r))
     in (frames_in (rdr_accepted r) ls, final_error (sc_rd (rdr_sc r)) overlong))"
  using assms
proof (induction "length (stream (rdr_sc r))" arbitrary: r rule: less_induct)
  case less
  let ?sc = "rdr_sc r" and ?next = "next_line (sc_max (rdr_sc r)) (rd_eager (sc_rd (rdr_sc r))) (stream (rdr_sc r))"
  have scan: "scans ?sc ?next" using less.prems by (rule Scan_refines)
  show ?case
  proof (cases ?next)
    case (Line l rest)
    then obtain sc where sc: "Scan ?sc = (Some l, sc)" "scanner_ok sc" "stream sc = rest" "sc_max sc = sc_max ?sc"
        "rd_eager (sc_rd sc) = rd_eager (sc_rd ?sc)" "rd_end (sc_rd sc) = rd_end (sc_rd ?sc)"
      using scan by (auto simp: scans_def)
    have "final_error (sc_rd sc) = final_error (sc_rd ?sc)" using sc(6) by (simp add: final_error_def fun_eq_iff)
    then have IH: "read_frames (r\<lparr>rdr_sc := sc\<rparr>) =
      (let (ls, overlong) = split_lines (sc_max ?sc) (rd_eager (sc_rd ?sc)) rest
       in (frames_in (rdr_accepted r) ls, final_error (sc_rd ?sc) overlong))"
      using less.hyps [of "r\<lparr>rdr_sc := sc\<rparr>"] sc Scan_consumes [OF sc(1)] by simp
    have "read_frames r =
      (case accepts (rdr_accepted r) l of
         None \<Rightarrow> read_frames (r\<lparr>rdr_sc := sc\<rparr>) | Some f \<Rightarrow> apfst ((#) f) (read_frames (r\<lparr>rdr_sc := sc\<rparr>)))"
      using sc(1)
      by (subst read_frames.simps) (auto simp: Next_found Next_skip read_frames.simps [of "r\<lparr>rdr_sc := sc\<rparr>"] split: option.split)
    then show ?thesis
      using Line IH by (subst split_lines.simps) (auto simp: split_beta Let_def split: option.split)
  next
    case Overlong
    then obtain sc where "Scan ?sc = (None, sc)" "sc_err sc = Some TooLong" using scan by (auto simp: scans_def)
    then show ?thesis
      using Overlong by (subst read_frames.simps) (simp add: split_lines.simps Next_stop Err_def final_error_def)
  next
    case Done
    then obtain sc where "Scan ?sc = (None, sc)" "sc_err sc = Some (rd_end (sc_rd ?sc))" using scan by (auto simp: scans_def)
    then show ?thesis
      using Done by (subst read_frames.simps) (simp add: split_lines.simps Next_stop Err_def final_error_def)
  qed
qed

subsection \<open>Documents as lines\<close>

text \<open>
  What a client needs of an encoding to send one value per line: a text without control characters that decodes to the value, up
  to a normalisation.
\<close>

locale line_codec =
  fixes enc :: "'a \<Rightarrow> string" and dec :: "string \<Rightarrow> 'a option" and norm :: "'a \<Rightarrow> 'a"
  assumes dec_enc: "dec (enc x) = Some (norm x)"
    and enc_printable: "c \<in> set (enc x) \<Longrightarrow> 32 \<le> code_of c"
begin

lemma enc_one_line: "CHR 0x0A \<notin> set (enc x)" "dropCR (enc x) = enc x"
proof -
  have "code_of (CHR 0x0A) < 32" "code_of (CHR 0x0D) < 32" by code_simp+
  then have "CHR 0x0A \<notin> set (enc x)" "CHR 0x0D \<notin> set (enc x)" using enc_printable by (metis linorder_not_le)+
  then show "CHR 0x0A \<notin> set (enc x)" "dropCR (enc x) = enc x"
    by (auto simp: dropCR_def dest: last_in_set)
qed

lemma next_line_enc:
  "next_line limit eager (enc x @ CHR 0x0A # rest) = (if length (enc x) < limit then Line (enc x) rest else Overlong)"
  using enc_one_line [of x] newline_later [of "enc x" "CHR 0x0A # rest"] by (simp add: next_line_def Let_def)

lemma split_encoded:
  "0 < limit \<Longrightarrow> \<forall>x \<in> set xs. length (enc x) < limit \<Longrightarrow>
    split_lines limit eager (concat (map (\<lambda>x. enc x @ [CHR 0x0A]) xs)) = (map enc xs, False)"
proof (induction xs)
  case Nil
  then show ?case by (subst split_lines.simps) (simp add: next_line_def)
next
  case (Cons x xs)
  then show ?case by (subst split_lines.simps) (simp add: next_line_enc)
qed

lemma decode_encoded: "List.map_filter dec (map enc xs) = map norm xs"
  by (simp add: List.map_filter_def dec_enc o_def)

end

definition clean_frame :: "Frame \<Rightarrow> Frame" where
  "clean_frame f =
     \<lparr>frame_Type = to_valid (frame_Type f), frame_Content = to_valid (frame_Content f),
      frame_MessageID = to_valid (frame_MessageID f)\<rparr>"

lemma frame_doc_ok: "numbers_ok (frame_doc f)" "depth (frame_doc f) \<le> maxNestingDepth"
  by (simp_all add: frame_doc_def)

lemma names_valid: "to_valid ''type'' = ''type''" "to_valid ''content'' = ''content''" "to_valid ''message_id'' = ''message_id''"
  by (simp_all add: valid_utf8_ascii code_of_def)

lemma unmarshal_marshal: "unmarshal_frame (encode (frame_doc f)) = Some (clean_frame f)"
  using parse_encode [OF frame_doc_ok, of f]
  by (simp add: unmarshal_frame_def Unmarshal_def frame_doc_def names_valid field_of_def put_frame_def clean_frame_def)

lemma frame_doc_printable: "c \<in> set (encode (frame_doc f)) \<Longrightarrow> 32 \<le> code_of c"
proof -
  have q: "\<forall>c \<in> set (quote s). 32 \<le> code_of c" for s using quote_printable [of s] by (simp add: list_all_iff)
  have p: "\<forall>c \<in> set '',:{}''. 32 \<le> code_of c" by code_simp
  show "c \<in> set (encode (frame_doc f)) \<Longrightarrow> 32 \<le> code_of c"
    using q p by (auto simp: frame_doc_def split: if_splits)
qed

interpretation frame_codec: line_codec "\<lambda>f. encode (frame_doc f)" unmarshal_frame clean_frame
  by unfold_locales (simp_all add: unmarshal_marshal frame_doc_printable)

subsection \<open>Properties\<close>

lemma new_reader_ok: "patient 0 (rd_sched rd) \<Longrightarrow> scanner_ok (rdr_sc (NewReader rd accepted))"
  by (simp add: NewReader_def scanner_ok_def MaxLine_def)

text \<open>C15: A reader yields exactly the accepted frames of the lines of its stream, in order, skipping malformed lines and other types, up to the end of
the stream or the first line of more than \<open>MaxLine\<close> bytes, which is a hard error. It does not matter in which portions the
stream arrives, as long as no more than a hundred reads in a row return nothing, but for one corner: whether the reader reports the end together with its last bytes
decides about a final line of exactly \<open>MaxLine\<close> bytes without a newline.\<close>

theorem reader_yields:
  assumes "patient 0 (rd_sched rd)"
  shows "read_frames (NewReader rd accepted) =
    (let (ls, overlong) = split_lines MaxLine (rd_eager rd) (rd_left rd) in (frames_in accepted ls, final_error rd overlong))"
  using read_frames_lines [OF new_reader_ok [OF assms]] by (simp add: NewReader_def stream_def)

text \<open>A host that writes frames one after the other to the stream of a worker.\<close>

definition sink :: "string \<Rightarrow> string \<Rightarrow> string option \<times> string" where
  "sink s out = (None, out @ s)"

definition write_frames :: "Frame list \<Rightarrow> string" where
  "write_frames fs = fold (\<lambda>f out. snd (Write sink f out)) fs []"

definition writable :: "Frame \<Rightarrow> bool" where
  "writable f \<longleftrightarrow> fst (Write sink f []) = None"

lemma writable_iff: "writable f \<longleftrightarrow> length (encode (frame_doc f)) < MaxLine"
  by (auto simp: writable_def Write_def sink_def Let_def)

lemma write_frames_concat:
  "fold (\<lambda>f out. snd (Write sink f out)) fs out =
    out @ concat (map (\<lambda>f. encode (frame_doc f) @ [CHR 0x0A]) (filter writable fs))"
  by (induction fs arbitrary: out) (auto simp: writable_iff Write_def sink_def Let_def)

lemma frames_in_encoded:
  "frames_in accepted (map (\<lambda>f. encode (frame_doc f)) fs) =
    filter (\<lambda>f. frame_Type f \<in> set accepted) (map clean_frame fs)"
  by (induction fs) (simp_all add: accepts_def unmarshal_marshal)

text \<open>C9: Round trip: whatever frames a host writes and in whatever portions they arrive, the worker reads exactly the frames
\<open>Write\<close> accepted whose type it accepts, in order and unchanged but for malformed bytes, then the end of the stream; an
oversized frame in between costs only itself. Frames of well-formed UTF-8 come back as they were.\<close>

theorem frames_roundtrip:
  assumes "rd_left rd = write_frames fs" "rd_end rd = EOF" "patient 0 (rd_sched rd)"
  shows "read_frames (NewReader rd accepted) =
      (filter (\<lambda>f. frame_Type f \<in> set accepted) (map clean_frame (filter writable fs)), FrameEOF) \<and>
    (\<forall>f. valid_utf8 (frame_Type f) \<and> valid_utf8 (frame_Content f) \<and> valid_utf8 (frame_MessageID f) \<longrightarrow> clean_frame f = f)"
proof -
  have "split_lines MaxLine (rd_eager rd) (rd_left rd) = (map (\<lambda>f. encode (frame_doc f)) (filter writable fs), False)"
    using frame_codec.split_encoded [of MaxLine "filter writable fs"]
    by (simp add: assms(1) write_frames_def write_frames_concat writable_iff MaxLine_def)
  then show ?thesis
    using read_frames_lines [OF new_reader_ok [OF assms(3)], of accepted] assms(2)
    by (simp add: NewReader_def stream_def frames_in_encoded final_error_def clean_frame_def)
qed

text \<open>C35: \<open>Write\<close> hands its writer one line with the newline at its end and nowhere else, or, for an oversized frame, nothing at all;
and it refuses exactly the lines the scanner of a reader would give up on.\<close>

theorem Write_one_line:
  "Write write f w =
    (if MaxLine < length (encode (frame_doc f)) + 1 then (Some (ErrFrameTooLarge (length (encode (frame_doc f)) + 1)), w)
     else apfst (map_option WriteFailed) (write (encode (frame_doc f) @ [CHR 0x0A]) w)) \<and>
  CHR 0x0A \<notin> set (encode (frame_doc f)) \<and>
  (next_line MaxLine eager (encode (frame_doc f) @ CHR 0x0A # rest) = Overlong) =
    (\<exists>n. Write write f w = (Some (ErrFrameTooLarge n), w))"
proof -
  have one: "Write write f w =
    (if MaxLine < length (encode (frame_doc f)) + 1 then (Some (ErrFrameTooLarge (length (encode (frame_doc f)) + 1)), w)
     else apfst (map_option WriteFailed) (write (encode (frame_doc f) @ [CHR 0x0A]) w))"
    by (auto simp: Write_def Let_def split: prod.splits option.splits)
  have "apfst (map_option WriteFailed) p \<noteq> (Some (ErrFrameTooLarge n), w)" for p n by (cases p) auto
  then show ?thesis by (auto simp: one frame_codec.next_line_enc frame_codec.enc_one_line)
qed

subsection \<open>Instances\<close>

text \<open>Two frames, one of a type the reader does not accept, arriving in three portions with an empty read.\<close>

definition sample_frame :: Frame where
  "sample_frame = \<lparr>frame_Type = TypeUserMessage, frame_Content = ''a<b'', frame_MessageID = ''m1''\<rparr>"

definition clear_frame :: Frame where
  "clear_frame = \<lparr>frame_Type = TypeClear, frame_Content = [], frame_MessageID = []\<rparr>"

definition sample_stream :: reader where
  "sample_stream = \<lparr>rd_left = write_frames [sample_frame, clear_frame], rd_sched = [7, 0, 20], rd_eager = False, rd_end = EOF\<rparr>"

lemma sample_frames_ok:
  "writable sample_frame" "writable clear_frame"
  "clean_frame sample_frame = sample_frame" "clean_frame clear_frame = clear_frame"
proof -
  have "length (encode (frame_doc sample_frame)) = 62" "length (encode (frame_doc clear_frame)) = 16" by code_simp+
  then show "writable sample_frame" "writable clear_frame" by (simp_all add: writable_iff MaxLine_def)
  show "clean_frame sample_frame = sample_frame" "clean_frame clear_frame = clear_frame"
    by (simp_all add: clean_frame_def sample_frame_def clear_frame_def TypeUserMessage_def TypeClear_def valid_utf8_ascii code_of_def)
qed

theorem frames_roundtrip_witness:
  "read_frames (NewReader sample_stream [TypeUserMessage]) = ([sample_frame], FrameEOF)"
  using frames_roundtrip [of sample_stream "[sample_frame, clear_frame]" "[TypeUserMessage]"]
  by (simp add: sample_stream_def sample_frames_ok)
    (simp add: sample_frame_def clear_frame_def TypeUserMessage_def TypeClear_def)

theorem reader_yields_witness:
  "read_frames (NewReader \<lparr>rd_left = ''junk'' @ [CHR 0x0A], rd_sched = [2, 0, 1], rd_eager = True, rd_end = EOF\<rparr> [TypeClear]) =
    ([], FrameEOF)"
proof -
  let ?rd = "\<lparr>rd_left = ''junk'' @ [CHR 0x0A], rd_sched = [2, 0, 1], rd_eager = True, rd_end = EOF\<rparr>"
  have "next_line MaxLine True (''junk'' @ [CHR 0x0A]) = Line ''junk'' []" "next_line MaxLine True [] = Done"
    by (simp_all add: next_line_def dropCR_def MaxLine_def)
  then have "split_lines MaxLine True (''junk'' @ [CHR 0x0A]) = ([''junk''], False)"
    by (subst split_lines.simps, simp, subst split_lines.simps, simp)
  moreover have "accepts [TypeClear] ''junk'' = None" by code_simp
  ultimately show ?thesis using reader_yields [of ?rd "[TypeClear]"] by (simp add: final_error_def)
qed

end
