(* ===== verification/Json_Valid.thy ===== *)
theory Json_Valid
  imports Json
begin

text \<open>
  Decoding is safe for types: whatever bytes a document consists of, every string \<open>encoding/json\<close> hands out is well-formed UTF-8; and every text the
  encoder makes is well-formed.
\<close>

subsection \<open>Strings\<close>

lemma valid_rune: "rune_len s = length s \<Longrightarrow> valid_utf8 s"
  by (cases "s = []") (simp_all add: valid_utf8_step)

lemma valid_replacement: "valid_utf8 replacement"
  by (rule valid_rune) code_simp

lemma encode_rune_2:
  fixes r :: nat
  assumes "128 \<le> r" "r < 2048"
  shows "valid_utf8 [char_of (192 + r div 64), char_of (128 + r mod 64)]"
proof (rule valid_rune)
  have "2 \<le> r div 64" "r div 64 < 32" "r mod 64 < 64" using assms by (linarith, linarith, simp)
  then show "rune_len [char_of (192 + r div 64), char_of (128 + r mod 64)] = length [char_of (192 + r div 64), char_of (128 + r mod 64)]"
    by (simp add: rune_len.simps second_ok_def is_cont_def)
qed

lemma rune_3_len:
  fixes a b c :: nat
  assumes "a < 16" "b < 64" "c < 64" "a = 0 \<Longrightarrow> 32 \<le> b" "a = 13 \<Longrightarrow> b < 32"
  shows "rune_len [char_of (224 + a), char_of (128 + b), char_of (128 + c)] = 3"
  using assms by (cases "a = 0"; cases "a = 13"; simp add: rune_len.simps second_ok_def is_cont_def)

lemma rune_4_len:
  fixes a b c d :: nat
  assumes "a < 5" "b < 64" "c < 64" "d < 64" "a = 0 \<Longrightarrow> 16 \<le> b" "a = 4 \<Longrightarrow> b < 16"
  shows "rune_len [char_of (240 + a), char_of (128 + b), char_of (128 + c), char_of (128 + d)] = 4"
  using assms by (cases "a = 0"; cases "a = 4"; simp add: rune_len.simps second_ok_def is_cont_def)

lemma digits_split: "(q :: nat) = 64 * (q div 64) + q mod 64"
  by simp

lemma encode_rune_3:
  fixes r :: nat
  assumes "2048 \<le> r" "r < 65536" "\<not> (55296 \<le> r \<and> r < 57344)"
  shows "valid_utf8 [char_of (224 + r div 4096), char_of (128 + r div 64 mod 64), char_of (128 + r mod 64)]"
proof (rule valid_rune)
  have q: "32 \<le> r div 64" "r div 64 < 1024" "r div 64 < 864 \<or> 896 \<le> r div 64" using assms by (linarith, linarith, linarith)
  have "r div 64 div 64 = r div 4096" by (simp add: div_mult2_eq [symmetric])
  then have "r div 64 = 64 * (r div 4096) + r div 64 mod 64" using digits_split [of "r div 64"] by simp
  then have "rune_len [char_of (224 + r div 4096), char_of (128 + r div 64 mod 64), char_of (128 + r mod 64)] = 3"
    using q by (intro rune_3_len) (linarith | simp)+
  then show "rune_len [char_of (224 + r div 4096), char_of (128 + r div 64 mod 64), char_of (128 + r mod 64)] =
      length [char_of (224 + r div 4096), char_of (128 + r div 64 mod 64), char_of (128 + r mod 64)]"
    by (simp only: list.size)
qed

lemma encode_rune_4:
  fixes r :: nat
  assumes "65536 \<le> r" "r < 1114112"
  shows "valid_utf8 [char_of (240 + r div 262144), char_of (128 + r div 4096 mod 64), char_of (128 + r div 64 mod 64), char_of (128 + r mod 64)]"
proof (rule valid_rune)
  have q: "16 \<le> r div 4096" "r div 4096 < 272" using assms by (linarith, linarith)
  have "r div 4096 div 64 = r div 262144" by (simp add: div_mult2_eq [symmetric])
  then have "r div 4096 = 64 * (r div 262144) + r div 4096 mod 64" using digits_split [of "r div 4096"] by simp
  then have "rune_len [char_of (240 + r div 262144), char_of (128 + r div 4096 mod 64), char_of (128 + r div 64 mod 64), char_of (128 + r mod 64)] = 4"
    using q by (intro rune_4_len) (linarith | simp)+
  then show "rune_len [char_of (240 + r div 262144), char_of (128 + r div 4096 mod 64), char_of (128 + r div 64 mod 64), char_of (128 + r mod 64)] =
      length [char_of (240 + r div 262144), char_of (128 + r div 4096 mod 64), char_of (128 + r div 64 mod 64), char_of (128 + r mod 64)]"
    by (simp only: list.size)
qed

lemma valid_encode_rune: "valid_utf8 (encode_rune r)"
proof -
  have "valid_utf8 [char_of r]" if "r < 128" using that by (intro valid_utf8_ascii) simp
  then show ?thesis
    using encode_rune_2 [of r] encode_rune_3 [of r] encode_rune_4 [of r] valid_replacement by (auto simp: encode_rune_def)
qed

lemma unescape_char_ascii: "unescape_char e = Some x \<Longrightarrow> valid_utf8 [x]"
  by (auto simp: unescape_char_def split: if_splits intro!: valid_utf8_ascii simp: code_of_def)

lemma scan_escape_valid: "scan_escape s = Some (x, r) \<Longrightarrow> valid_utf8 x"
  by (auto simp: scan_escape_def split: list.splits if_splits option.splits
      intro: valid_encode_rune valid_replacement unescape_char_ascii)

lemma scan_char_valid: "scan_char s = Some (x, r) \<Longrightarrow> valid_utf8 x"
  using valid_utf8_rune_append [of s "[]"]
  by (auto simp: scan_char_def split: list.splits if_splits intro: scan_escape_valid valid_replacement)

lemma scan_string_valid: "scan_string s = Some p \<Longrightarrow> valid_utf8 (fst p)"
proof (induction s arbitrary: p rule: scan_string.induct)
  case (1 s)
  show ?case
  proof (cases "s \<noteq> [] \<and> hd s = CHR 0x22")
    case True
    then have "scan_string s = Some ([], tl s)" by (subst scan_string.simps) simp
    then show ?thesis using 1(2) by auto
  next
    case False
    have "scan_string s = (case scan_char s of None \<Rightarrow> None | Some (x, r) \<Rightarrow> map_option (apfst ((@) x)) (scan_string r))"
      by (subst scan_string.simps, rule if_not_P, rule False)
    then have "(case scan_char s of None \<Rightarrow> None | Some (x, r) \<Rightarrow> map_option (apfst ((@) x)) (scan_string r)) = Some p"
      using 1(2) by simp
    then obtain x r q where found: "scan_char s = Some (x, r)" "scan_string r = Some q" "p = apfst ((@) x) q"
      by (auto split: option.splits)
    then show ?thesis using 1(1) [OF False found(1) refl found(2)] scan_char_valid by (simp add: valid_utf8_append)
  qed
qed

lemma quote_rune_valid:
  assumes "rune_len s \<noteq> 0"
  shows "valid_utf8 (quote_rune (take (rune_len s) s))"
  using assms
proof (cases rule: rune_cases)
  case (ascii c)
  have "\<forall>n \<in> set [0..<16]. code_of (hexdigit n) < 128" by code_simp
  then have "code_of (hexdigit (code_of c div 16)) < 128" "code_of (hexdigit (code_of c mod 16)) < 128" using ascii(2) by simp_all
  then have "list_all (\<lambda>x. code_of x < 128) (escape_byte c)"
    using ascii(2) by (simp add: escape_byte_def) (simp add: code_of_def)
  then show ?thesis using ascii(1) by (simp add: quote_rune_def valid_utf8_ascii)
next
  case (multi c cs)
  have "valid_utf8 (CHR 0x5C # ''u2028'')" "valid_utf8 (CHR 0x5C # ''u2029'')"
    by (intro valid_utf8_ascii; simp add: code_of_def)+
  then show ?thesis
    using multi valid_utf8_rune_append [OF assms, of "[]"] by (auto simp: quote_rune_def split: list.split)
qed

lemma quote_body_valid: "valid_utf8 (quote_body s)"
proof (induction s rule: quote_body.induct)
  case (1 s)
  have u: "valid_utf8 (CHR 0x5C # ''ufffd'')" by (intro valid_utf8_ascii) (simp add: code_of_def)
  show ?case
    using 1 quote_rune_valid [of s] valid_utf8_append [OF u] by (subst quote_body.simps) (simp add: valid_utf8_append)
qed

lemma quote_valid: "valid_utf8 (quote s)"
proof -
  have "valid_utf8 [CHR 0x22]" by (intro valid_utf8_ascii) (simp add: code_of_def)
  then show ?thesis using valid_utf8_append [OF _ valid_utf8_append [OF quote_body_valid], of "[CHR 0x22]" "[CHR 0x22]" s]
    by (simp add: quote_def)
qed

subsection \<open>Documents\<close>

fun json_valid :: "json \<Rightarrow> bool" where
  "json_valid (JStr s) \<longleftrightarrow> valid_utf8 s"
| "json_valid (JArr vs) \<longleftrightarrow> list_all json_valid vs"
| "json_valid (JObj ms) \<longleftrightarrow> list_all (\<lambda>(k, v). valid_utf8 k \<and> json_valid v) ms"
| "json_valid _ \<longleftrightarrow> True"

abbreviation members_valid :: "(string \<times> json) list \<Rightarrow> bool" where
  "members_valid ms \<equiv> list_all (\<lambda>(k, v). valid_utf8 k \<and> json_valid v) ms"

fun tok_valid :: "tok \<Rightarrow> bool" where
  "tok_valid (TStr s) \<longleftrightarrow> valid_utf8 s"
| "tok_valid (TVal v) \<longleftrightarrow> json_valid v"
| "tok_valid _ \<longleftrightarrow> True"

fun mode_valid :: "mode \<Rightarrow> bool" where
  "mode_valid (Key ms first) \<longleftrightarrow> members_valid ms"
| "mode_valid (AfterKey ms k) \<longleftrightarrow> members_valid ms \<and> valid_utf8 k"
| "mode_valid (After v) \<longleftrightarrow> json_valid v"
| "mode_valid _ \<longleftrightarrow> True"

fun open_valid :: "open_value \<Rightarrow> bool" where
  "open_valid (OArr vs) \<longleftrightarrow> list_all json_valid vs"
| "open_valid (OObj ms k) \<longleftrightarrow> members_valid ms \<and> valid_utf8 k"

definition machine_valid :: "machine \<Rightarrow> bool" where
  "machine_valid m \<longleftrightarrow> mode_valid (fst m) \<and> list_all open_valid (snd m)"

lemma lex_tok_valid: "lex_tok s = Some (t, r) \<Longrightarrow> tok_valid t"
  by (auto simp: lex_tok_def split: list.splits if_splits dest: scan_string_valid)

lemma tokenize_valid: "tokenize s = Some ts \<Longrightarrow> list_all tok_valid ts"
proof (induction s arbitrary: ts rule: tokenize.induct)
  case (1 s)
  consider "s = []" | "s \<noteq> []" "is_space (hd s)" | "s \<noteq> []" "\<not> is_space (hd s)" by blast
  then show ?case
  proof cases
    case 1
    then show ?thesis using "1.prems" by simp
  next
    case 2
    then have "tokenize s = tokenize (tl s)" by (subst tokenize.simps) simp
    then show ?thesis using "1.IH"(1) [OF 2] "1.prems" by simp
  next
    case 3
    then have "tokenize s = (case lex_tok s of None \<Rightarrow> None | Some (t, r) \<Rightarrow> map_option ((#) t) (tokenize r))"
      by (subst tokenize.simps) simp
    then have "(case lex_tok s of None \<Rightarrow> None | Some (t, r) \<Rightarrow> map_option ((#) t) (tokenize r)) = Some ts" using "1.prems" by simp
    then obtain t r us where t: "lex_tok s = Some (t, r)" "tokenize r = Some us" "ts = t # us" by (auto split: option.splits)
    then show ?thesis using "1.IH"(2) [OF 3 t(1) refl t(2)] lex_tok_valid by simp
  qed
qed

lemma value_step_valid: "value_step t st = Some m \<Longrightarrow> tok_valid t \<Longrightarrow> list_all open_valid st \<Longrightarrow> machine_valid m"
  by (cases t) (auto simp: machine_valid_def split: if_splits)

lemma after_step_valid:
  "after_step t v st = Some m \<Longrightarrow> json_valid v \<Longrightarrow> list_all open_valid st \<Longrightarrow> machine_valid m"
  by (cases "(t, v, st)" rule: after_step.cases) (auto simp: machine_valid_def)

lemma machine_step_valid: "machine_step t m = Some m' \<Longrightarrow> tok_valid t \<Longrightarrow> machine_valid m \<Longrightarrow> machine_valid m'"
proof (cases m)
  case (Pair md st)
  assume step: "machine_step t m = Some m'" and t: "tok_valid t" and m: "machine_valid m"
  have st: "list_all open_valid st" and md: "mode_valid md" using m Pair by (simp_all add: machine_valid_def)
  have tl: "list_all open_valid (tl st)" using st by (cases st) auto
  show ?thesis
  proof (cases md)
    case Value
    then show ?thesis using step Pair t st by (auto intro: value_step_valid)
  next
    case Elem0
    then show ?thesis using step Pair t st tl by (auto simp: machine_valid_def split: if_splits dest: value_step_valid)
  next
    case (Key ms first)
    then show ?thesis using step Pair t st md by (cases t) (auto simp: machine_valid_def split: if_splits)
  next
    case (AfterKey ms k)
    then show ?thesis using step Pair t st md by (auto simp: machine_valid_def split: if_splits)
  next
    case (After v)
    then show ?thesis using step Pair st md by (auto intro: after_step_valid)
  qed
qed

lemma run_valid: "run ts m = Some m' \<Longrightarrow> list_all tok_valid ts \<Longrightarrow> machine_valid m \<Longrightarrow> machine_valid m'"
  by (induction ts arbitrary: m) (auto split: option.splits dest: machine_step_valid)

lemma parse_document_valid: "parse_document s = Some v \<Longrightarrow> json_valid v"
proof -
  assume "parse_document s = Some v"
  then obtain ts m where "tokenize s = Some ts" "run ts (Value, []) = Some m" "complete m = Some v"
    by (auto simp: parse_document_def split: option.splits)
  moreover from this have "machine_valid m" using run_valid tokenize_valid by (fastforce simp: machine_valid_def)
  ultimately show "json_valid v" by (cases m rule: complete.cases) (auto simp: machine_valid_def)
qed

subsection \<open>Encoded documents\<close>

fun numbers_ascii :: "json \<Rightarrow> bool" where
  "numbers_ascii (JNum n) \<longleftrightarrow> list_all (\<lambda>c. code_of c < 128) n"
| "numbers_ascii (JArr vs) \<longleftrightarrow> list_all numbers_ascii vs"
| "numbers_ascii (JObj ms) \<longleftrightarrow> list_all (\<lambda>(k, v). numbers_ascii v) ms"
| "numbers_ascii _ \<longleftrightarrow> True"

lemma valid_Cons_ascii: "code_of c < 128 \<Longrightarrow> valid_utf8 s \<Longrightarrow> valid_utf8 (c # s)"
  using valid_utf8_append [of "[c]" s] valid_utf8_ascii [of "[c]"] by simp

lemma punct_ascii: "c \<in> set '',:[]{}'' \<Longrightarrow> code_of c < 128"
  by (auto simp: code_of_def)

lemma commas_valid: "list_all valid_utf8 xs \<Longrightarrow> valid_utf8 (commas xs)"
  by (induction xs rule: commas.induct) (simp_all add: valid_utf8_append valid_Cons_ascii punct_ascii)

lemma encode_valid: "numbers_ascii v \<Longrightarrow> valid_utf8 (encode v)"
proof (induction v)
  case JNull
  show ?case by (simp add: valid_utf8_ascii code_of_def)
next
  case (JBool b)
  show ?case by (simp add: valid_utf8_ascii code_of_def)
next
  case (JArr vs)
  then have "list_all valid_utf8 (map encode vs)" by (simp add: list_all_iff)
  then show ?case by (simp add: valid_utf8_append valid_Cons_ascii punct_ascii commas_valid)
next
  case (JObj ms)
  then have "list_all valid_utf8 (map (\<lambda>(k, v). quote k @ CHR '':'' # encode v) ms)"
    by (force simp: list_all_iff intro!: valid_utf8_append quote_valid valid_Cons_ascii punct_ascii)
  then show ?case by (simp add: valid_utf8_append valid_Cons_ascii punct_ascii commas_valid)
qed (simp_all add: valid_utf8_ascii quote_valid)

end
