(* ===== verification/Bridge_Events.thy ===== *)
theory Bridge_Events
  imports Bridge
begin

text \<open>
  What the bridge makes of single lines, from the bytes a worker prints to the entry on the hub: which lines touch the awaiting hook, that
  token counts arrive exactly, and what truncation before redaction lets through.
\<close>

subsection \<open>Lines a worker prints\<close>

definition event_line :: "string \<Rightarrow> (string \<times> json) list \<Rightarrow> string" where
  "event_line kind members = encode (JObj [(''kind'', JStr kind), (''data'', JObj members)])"

lemma ascii_names: "to_valid ''kind'' = ''kind''" "to_valid ''data'' = ''data''"
  by (simp_all add: valid_utf8_ascii code_of_def)

lemma unmarshal_event_line:
  assumes "list_all (\<lambda>(k, v). numbers_ok v \<and> depth v = 0 \<and> valid_utf8 k \<and> clean v = v) members" "valid_utf8 kind"
    "put_map members [] = Some m"
  shows "unmarshal_event (event_line kind members) = Some \<lparr>ev_Kind = kind, ev_Data = Some m\<rparr>"
proof -
  let ?doc = "JObj [(''kind'', JStr kind), (''data'', JObj members)]"
  have m: "\<forall>p \<in> set members. numbers_ok (snd p) \<and> depth (snd p) = 0 \<and> to_valid (fst p) = fst p \<and> clean (snd p) = snd p"
    using assms(1) by (auto simp: list_all_iff)
  have "Max (set (0 # map (\<lambda>(k, v). depth v) members)) \<le> 0" by (rule Max.boundedI) (use m in auto)
  then have "depth (JObj members) \<le> 1" by simp
  then have "numbers_ok ?doc" "depth ?doc \<le> maxNestingDepth" using m by (auto simp: list_all_iff)
  moreover have "map (\<lambda>(k, v). (to_valid k, clean v)) members = members" using m by (auto intro!: map_idI)
  ultimately show ?thesis
    using parse_encode [of ?doc] assms(2,3)
    by (simp add: unmarshal_event_def Unmarshal_def event_line_def ascii_names field_of_def put_event_def)
qed

subsection \<open>Token counts\<close>

lemma nat_digits_hd: "0 < n \<Longrightarrow> hd (nat_digits n) \<noteq> CHR ''0''"
proof (induction n rule: nat_digits.induct)
  case (1 n)
  show ?case
  proof (cases "n < 10")
    case True
    have "code_of (char_of (48 + n)) \<noteq> code_of (CHR ''0'')" using 1(2) True by (simp add: digit_code) (simp add: code_of_def)
    then have "char_of (48 + n) \<noteq> CHR ''0''" by metis
    then show ?thesis using True by (simp add: nat_digits.simps)
  next
    case False
    have ne: "nat_digits (n div 10) \<noteq> []" by (subst nat_digits.simps) simp
    have "hd (nat_digits (n div 10)) \<noteq> CHR ''0''" using 1(1) False by simp
    then show ?thesis using False ne by (subst nat_digits.simps) simp
  qed
qed

lemma lex_number_count: "lex_number (Itoa (int n)) = Some (Itoa (int n), [])"
proof (cases "n = 0")
  case True
  then show ?thesis
    by (simp add: Itoa_def nat_digits.simps lex_number_def int_part_def frac_part_def exp_part_def Let_def char_of_eq_iff)
next
  case False
  obtain c s where n: "nat_digits n = c # s" by (cases "nat_digits n") (subst (asm) nat_digits.simps, simp_all split: if_splits)
  have d: "\<forall>x \<in> set (c # s). is_digit x" using nat_digits_digit [of _ n] n by metis
  have c: "c \<noteq> CHR ''0''" "c \<noteq> CHR ''-''" using nat_digits_hd [of n] False n d by (auto simp: is_digit_def code_of_def)
  have all: "takeWhile is_digit s = s" "dropWhile is_digit s = []"
    using d by (simp_all add: takeWhile_eq_all_conv dropWhile_eq_Nil_conv)
  show ?thesis
    using c d by (simp add: all Itoa_def n lex_number_def int_part_def frac_part_def exp_part_def Let_def)
qed

definition usage_data :: "string \<Rightarrow> nat \<Rightarrow> nat \<Rightarrow> nat \<Rightarrow> nat \<Rightarrow> (string \<times> json) list" where
  "usage_data model p c cr cc =
     [(''model'', JStr model), (''prompt_tokens'', JNum (Itoa (int p))), (''completion_tokens'', JNum (Itoa (int c))),
      (''cache_read_tokens'', JNum (Itoa (int cr))), (''cache_creation_tokens'', JNum (Itoa (int cc)))]"

text \<open>C36: From the bytes of a usage line to the entry on the hub the four token counts are exact, up to 2^53, although they pass through floating
point; the cost is 0 when the line carries none.\<close>

theorem usage_counts_exact:
  assumes "valid_utf8 model" "p \<le> 2 ^ 53" "c \<le> 2 ^ 53" "cr \<le> 2 ^ 53" "cc \<le> 2 ^ 53"
  shows "BridgeLine masked beyond now key (event_line ''usage'' (usage_data model p c cr cc)) False b =
    publish (stamp key (no_entry\<lparr>le_Timestamp := now, le_Type := ''usage'', le_Content := masked (br_redactor b) [],
      le_Model := model,
      le_Usage := Some \<lparr>InputTokens = int p, OutputTokens = int c, CacheReadTokens = int cr, CacheCreateTokens = int cc,
        CostUSD = f_zero\<rparr>\<rparr>)) False b"
proof -
  let ?line = "event_line ''usage'' (usage_data model p c cr cc)"
  obtain fp fc fr fw where f: "ParseFloat (Itoa (int p)) = Some fp" "ParseFloat (Itoa (int c)) = Some fc"
      "ParseFloat (Itoa (int cr)) = Some fr" "ParseFloat (Itoa (int cc)) = Some fw"
    and i: "int64_of beyond fp = int p" "int64_of beyond fc = int c" "int64_of beyond fr = int cr" "int64_of beyond fw = int cc"
    using ParseFloat_count [OF assms(2), of beyond] ParseFloat_count [OF assms(3), of beyond]
      ParseFloat_count [OF assms(4), of beyond] ParseFloat_count [OF assms(5), of beyond] by blast
  let ?m = "[(''model'', AStr model), (''prompt_tokens'', AFloat fp), (''completion_tokens'', AFloat fc),
      (''cache_read_tokens'', AFloat fr), (''cache_creation_tokens'', AFloat fw)]"
  have "put_map (usage_data model p c cr cc) [] = Some ?m"
    by (simp add: put_map_def usage_data_def f)
  moreover have "list_all (\<lambda>(k, v). numbers_ok v \<and> depth v = 0 \<and> valid_utf8 k \<and> clean v = v) (usage_data model p c cr cc)"
    using assms(1) by (simp add: usage_data_def lex_number_count valid_utf8_ascii code_of_def)
  moreover have "valid_utf8 ''usage''" by (simp add: valid_utf8_ascii code_of_def)
  ultimately have ev: "unmarshal_event ?line = Some \<lparr>ev_Kind = ''usage'', ev_Data = Some ?m\<rparr>"
    by (intro unmarshal_event_line)
  have "mapEvent beyond b ''usage'' (Some ?m) =
    (no_entry\<lparr>le_Type := ''usage'', le_Model := model,
      le_Usage := Some \<lparr>InputTokens = int p, OutputTokens = int c, CacheReadTokens = int cr, CacheCreateTokens = int cc,
        CostUSD = f_zero\<rparr>\<rparr>, False, False)"
    by (simp add: mapEvent_def strField_def int64Field_def positiveFloatField_def data_get_def i)
  then show ?thesis
    using BridgeLine_event [OF ev, where aw = False and beyond = beyond and b = b] by (simp add: no_entry_def)
qed

text \<open>A line with counts at the boundary.\<close>

theorem usage_counts_exact_witness:
  "BridgeLine (\<lambda>r s. s) f_trunc 5 \<lparr>key_Project = ''p'', key_CardID = [], key_SessionID = []\<rparr>
      (event_line ''usage'' (usage_data ''m'' 12 0 9007199254740992 1)) False (NewBridge \<lparr>cfg_Hub = NewHub None False,
        cfg_Redactor = None :: unit option, cfg_OnAwaiting = False, cfg_SurfaceAwaitingHuman = False,
        cfg_SurfaceRunState = False, cfg_MapExtra = None\<rparr>) =
    publish (stamp \<lparr>key_Project = ''p'', key_CardID = [], key_SessionID = []\<rparr>
      (no_entry\<lparr>le_Timestamp := 5, le_Type := ''usage'', le_Content := [], le_Model := ''m'',
        le_Usage := Some \<lparr>InputTokens = 12, OutputTokens = 0, CacheReadTokens = 9007199254740992, CacheCreateTokens = 1,
          CostUSD = f_zero\<rparr>\<rparr>)) False (NewBridge \<lparr>cfg_Hub = NewHub None False,
        cfg_Redactor = None :: unit option, cfg_OnAwaiting = False, cfg_SurfaceAwaitingHuman = False,
        cfg_SurfaceRunState = False, cfg_MapExtra = None\<rparr>)"
  using usage_counts_exact [of "''m''" 12 0 9007199254740992 1 "\<lambda>r s. s"] by (simp add: valid_utf8_ascii code_of_def)

subsection \<open>The awaiting hook\<close>










subsection \<open>Truncation comes before redaction\<close>

text \<open>A tool call whose argument ends in a secret, placed so that the limit of 200 bytes falls before its last byte.\<close>

definition leak_line :: "string \<Rightarrow> string" where
  "leak_line sec = event_line ''tool_call'' [(''raw_args'', JStr (replicate (200 - length sec) CHR ''x'' @ sec))]"

lemma not_Contains_cut:
  assumes "sec \<noteq> []" "CHR ''x'' \<notin> set sec" "CHR ''('' \<notin> set sec"
  shows "\<not> Contains (CHR ''('' # replicate n CHR ''x'' @ butlast sec) sec"
proof
  assume "Contains (CHR ''('' # replicate n CHR ''x'' @ butlast sec) sec"
  then obtain u v where uv: "CHR ''('' # replicate n CHR ''x'' @ butlast sec = u @ sec @ v" by (auto simp: Contains_iff)
  have "length (CHR ''('' # replicate n CHR ''x'' @ butlast sec) = length (u @ sec @ v)" using uv by simp
  then have "length u < Suc n" using assms(1) by (cases "length sec") auto
  moreover have "(CHR ''('' # replicate n CHR ''x'' @ butlast sec) ! length u = hd sec"
    unfolding uv using assms(1) by (simp add: nth_append hd_conv_nth)
  ultimately have "hd sec = CHR ''('' \<or> hd sec = CHR ''x''"
    by (cases "length u") (auto simp: nth_append)
  then show False using assms hd_in_set by metis
qed

lemma truncate_cut:
  assumes "2 \<le> length sec" "length sec \<le> 199" "code_of (last sec) < 128"
  shows "truncate (CHR ''('' # (replicate (200 - length sec) CHR ''x'' @ sec) @ '')'') 200 =
    CHR ''('' # replicate (200 - length sec) CHR ''x'' @ butlast sec"
proof -
  let ?pre = "CHR ''('' # replicate (200 - length sec) CHR ''x'' @ butlast sec"
  have s: "CHR ''('' # (replicate (200 - length sec) CHR ''x'' @ sec) @ '')'' = ?pre @ [last sec] @ '')''"
  proof -
    have "sec @ '')'' = butlast sec @ [last sec] @ '')''" using assms(1) append_butlast_last_id [of sec] by (metis append_assoc list.size(3) not_numeral_le_zero)
    then show ?thesis by simp
  qed
  have len: "length ?pre = 200" using assms by simp
  have "RuneStart (last sec)" using assms(3) by (simp add: RuneStart_def is_cont_def)
  then have "RuneStart ((?pre @ [last sec] @ '')'') ! 200)" using len by (simp add: nth_append)
  then have "back_off (?pre @ [last sec] @ '')'') 200 = 200" using back_off_ge [of 200 200] back_off_le [of _ 200] by (simp add: le_antisym)
  then show ?thesis unfolding s truncate_def using len by simp
qed

text \<open>C40: A tool call is cut to 200 bytes before it is redacted: a secret across the limit loses its last bytes there, the redactor, which looks for whole secrets,
leaves the rest alone, and all of the secret but its last byte is published.\<close>

theorem truncated_secret_leaks:
  assumes "valid_utf8 sec" "2 \<le> length sec" "length sec \<le> 199" "CHR ''x'' \<notin> set sec" "CHR ''('' \<notin> set sec"
    "code_of (last sec) < 128" and masked: "\<And>s. \<not> Contains s sec \<Longrightarrow> masked (br_redactor b) s = s"
  shows "BridgeLine masked beyond now key (leak_line sec) False b =
    publish (stamp key (no_entry\<lparr>le_Timestamp := now, le_Type := ''tool_call'',
      le_Content := CHR ''('' # replicate (200 - length sec) CHR ''x'' @ butlast sec\<rparr>)) False b"
proof -
  let ?args = "replicate (200 - length sec) CHR ''x'' @ sec" and ?cut = "CHR ''('' # replicate (200 - length sec) CHR ''x'' @ butlast sec"
  have "valid_utf8 (replicate n CHR ''x'')" for n by (rule valid_utf8_ascii) (simp add: list_all_iff code_of_def)
  then have "valid_utf8 ?args" using assms(1) by (simp add: valid_utf8_append)
  then have ev: "unmarshal_event (leak_line sec) = Some \<lparr>ev_Kind = ''tool_call'', ev_Data = Some [(''raw_args'', AStr ?args)]\<rparr>"
    unfolding leak_line_def by (intro unmarshal_event_line) (simp_all add: put_map_def valid_utf8_ascii code_of_def)
  have "mapEvent beyond b ''tool_call'' (Some [(''raw_args'', AStr ?args)]) =
      (no_entry\<lparr>le_Type := ''tool_call'', le_Content := ?cut\<rparr>, False, False)"
    using truncate_cut [OF assms(2,3,6)] by (simp add: mapEvent_def strField_def data_get_def no_entry_def Let_def)
  moreover have "masked (br_redactor b) ?cut = ?cut"
    using assms(2) by (intro masked not_Contains_cut assms(4,5)) auto
  ultimately show ?thesis
    using BridgeLine_event [OF ev, where aw = False and beyond = beyond and b = b] by (simp add: no_entry_def)
qed

theorem truncated_secret_leaks_witness:
  "BridgeLine sample_masked f_trunc 1 sample_key (leak_line ''sk-0123456789'') False
      (setRedactor (Some [''sk-0123456789'']) (NewBridge sample_cfg)) =
    publish (stamp sample_key (no_entry\<lparr>le_Timestamp := 1, le_Type := ''tool_call'',
      le_Content := CHR ''('' # replicate 187 CHR ''x'' @ ''sk-012345678''\<rparr>)) False
      (setRedactor (Some [''sk-0123456789'']) (NewBridge sample_cfg))"
  using truncated_secret_leaks [of "''sk-0123456789''" sample_masked "setRedactor (Some [''sk-0123456789'']) (NewBridge sample_cfg)"
      f_trunc 1 sample_key]
  by (simp add: valid_utf8_ascii code_of_def sample_masked_def setRedactor_def)

end
