(* ===== verification/Bridge_Valid.thy ===== *)
theory Bridge_Valid
  imports Json_Valid Bridge_Events
begin

text \<open>
  The type of an entry: whatever bytes a worker prints, an event of a kind the bridge maps becomes an entry of one of the known types, before redaction with
  well-formed texts, with a usage exactly on the entries for usage, and with counts in the range of \<open>int64\<close>.
\<close>

subsection \<open>Decoded values\<close>

fun any_valid :: "any \<Rightarrow> bool" where
  "any_valid (AStr s) \<longleftrightarrow> valid_utf8 s"
| "any_valid (AArr vs) \<longleftrightarrow> list_all any_valid vs"
| "any_valid (AMap m) \<longleftrightarrow> list_all (\<lambda>(k, v). valid_utf8 k \<and> any_valid v) m"
| "any_valid _ \<longleftrightarrow> True"

abbreviation map_valid :: "go_map \<Rightarrow> bool" where
  "map_valid m \<equiv> list_all (\<lambda>(k, v). valid_utf8 k \<and> any_valid v) m"

lemma update_valid: "map_valid m \<Longrightarrow> valid_utf8 k \<Longrightarrow> any_valid v \<Longrightarrow> map_valid (AList.update k v m)"
  by (induction m) auto

lemma store_all_valid: "map_valid kvs \<Longrightarrow> map_valid m \<Longrightarrow> map_valid (store_all kvs m)"
  by (induction kvs arbitrary: m) (auto simp: update_valid)

lemma elements_valid:
  "those (map any_of vs) = Some ys \<Longrightarrow> \<forall>v \<in> set vs. \<forall>a. any_of v = Some a \<longrightarrow> any_valid a \<Longrightarrow> list_all any_valid ys"
  by (induction vs arbitrary: ys) (auto split: option.splits)

lemma converted_valid:
  "those (map (\<lambda>(k, v). map_option (Pair k) (any_of v)) ms) = Some kvs \<Longrightarrow> members_valid ms \<Longrightarrow>
    (\<And>k v a. (k, v) \<in> set ms \<Longrightarrow> any_of v = Some a \<Longrightarrow> json_valid v \<Longrightarrow> any_valid a) \<Longrightarrow> map_valid kvs"
proof (induction ms arbitrary: kvs)
  case (Cons p ms)
  obtain k v where p: "p = (k, v)" by (cases p)
  obtain a kvs' where a: "any_of v = Some a" "those (map (\<lambda>(k, v). map_option (Pair k) (any_of v)) ms) = Some kvs'"
      "kvs = (k, a) # kvs'"
    using Cons.prems(1) p by (auto split: option.splits)
  have "any_valid a" using Cons.prems(2,3) a(1) p by (auto intro: Cons.prems(3))
  moreover have "map_valid kvs'" by (rule Cons.IH [OF a(2)]) (use Cons.prems in auto)
  ultimately show ?case using a(3) Cons.prems(2) p by simp
qed simp

lemma any_of_valid: "any_of v = Some a \<Longrightarrow> json_valid v \<Longrightarrow> any_valid a"
proof (induction v arbitrary: a)
  case (JArr vs)
  then obtain ys where ys: "those (map any_of vs) = Some ys" "a = AArr ys" by auto
  have "list_all any_valid ys" by (rule elements_valid [OF ys(1)]) (use JArr in \<open>auto simp: list_all_iff\<close>)
  then show ?case using ys(2) by simp
next
  case (JObj ms)
  then obtain kvs where kvs: "those (map (\<lambda>(k, v). map_option (Pair k) (any_of v)) ms) = Some kvs" "a = AMap (store_all kvs [])" by auto
  have m: "members_valid ms" using JObj.prems(2) by simp
  have "map_valid kvs" by (rule converted_valid [OF kvs(1) m], rule JObj.IH) (force | simp)+
  then show ?case using kvs(2) by (simp add: store_all_valid)
qed auto

lemma put_map_valid: "put_map ms m = Some m' \<Longrightarrow> members_valid ms \<Longrightarrow> map_valid m \<Longrightarrow> map_valid m'"
  unfolding put_map_def by (auto intro!: store_all_valid elim!: converted_valid intro: any_of_valid)

definition event_valid :: "event \<Rightarrow> bool" where
  "event_valid ev \<longleftrightarrow> valid_utf8 (ev_Kind ev) \<and> (case ev_Data ev of None \<Rightarrow> True | Some m \<Rightarrow> map_valid m)"

lemma put_event_valid: "put_event n v ev = Some ev' \<Longrightarrow> json_valid v \<Longrightarrow> event_valid ev \<Longrightarrow> event_valid ev'"
  by (auto simp: put_event_def event_valid_def split: if_splits json.splits option.splits dest: put_map_valid)

lemma put_members_valid:
  "put_members names put_event ms ev = Some ev' \<Longrightarrow> members_valid ms \<Longrightarrow> event_valid ev \<Longrightarrow> event_valid ev'"
proof (induction ms arbitrary: ev)
  case (Cons p ms)
  obtain k v where p: "p = (k, v)" by (cases p)
  show ?case
  proof (cases "field_of names k")
    case (Some n)
    then obtain ev1 where "put_event n v ev = Some ev1" "put_members names put_event ms ev1 = Some ev'"
      using Cons.prems(1) p by (auto split: option.splits)
    then show ?thesis using Cons.IH put_event_valid Cons.prems(2,3) p by auto
  qed (use Cons p in auto)
qed simp

lemma unmarshal_event_valid: "unmarshal_event line = Some ev \<Longrightarrow> event_valid ev"
  by (auto simp: unmarshal_event_def Unmarshal_def event_valid_def split: option.splits json.splits
      dest!: parse_document_valid put_members_valid)

subsection \<open>Fields\<close>

lemma strField_valid: "event_valid ev \<Longrightarrow> valid_utf8 (strField (ev_Data ev) key)"
  by (auto simp: strField_def event_valid_def list_all_iff split: option.splits any.splits dest!: map_of_SomeD)

definition in_int64 :: "int \<Rightarrow> bool" where
  "in_int64 i \<longleftrightarrow> min_int64 \<le> i \<and> i \<le> max_int64"

lemma int64Field_range: "\<forall>f. in_int64 (beyond f) \<Longrightarrow> in_int64 (int64Field beyond data key)"
  by (auto simp: int64Field_def int64_of_def in_int64_def split: option.splits any.splits)

lemma positiveFloatField_range: "f_positive (positiveFloatField data key) \<or> positiveFloatField data key = f_zero"
  by (auto simp: positiveFloatField_def split: option.splits any.splits)

definition ascii :: "string \<Rightarrow> bool" where
  "ascii s \<longleftrightarrow> (\<forall>c \<in> set s. code_of c < 128)"

lemma ascii_simps [simp]:
  "ascii []" "ascii (c # s) \<longleftrightarrow> code_of c < 128 \<and> ascii s" "ascii (s @ r) \<longleftrightarrow> ascii s \<and> ascii r"
  by (auto simp: ascii_def)

lemma number_chars: "c \<in> set ''0.-+e'' \<Longrightarrow> code_of c < 128"
  by (auto simp: code_of_def)

lemma Itoa_ascii: "ascii (Itoa i)"
  using nat_digits_digit by (fastforce simp: ascii_def Itoa_def is_digit_def intro: number_chars split: if_splits)

lemma shortest_ascii: "ascii (fst (shortest f))"
proof -
  have "ascii (TrimRight s c)" if "ascii s" for s c
    using that by (auto simp: ascii_def TrimRight_def dest: set_dropWhileD)
  then show ?thesis
    using number_chars [of "CHR ''0''"] by (simp add: shortest_def Let_def Itoa_ascii split: option.split)
qed

lemma format_float_ascii: "ascii (format_float f)"
proof -
  obtain ds dp where ds: "shortest f = (ds, dp)" by (cases "shortest f")
  have d: "ascii ds" using shortest_ascii [of f] ds by simp
  have "ascii (take n ds)" "ascii (drop n ds)" for n
    using d by (auto simp: ascii_def dest: in_set_takeD in_set_dropD)
  moreover have "ascii (replicate n (CHR ''0''))" for n using number_chars by (simp add: ascii_def)
  ultimately show ?thesis
    using d by (simp add: format_float_def ds format_e_def format_f_def Itoa_ascii number_chars)
qed

lemma doc_of_numbers: "numbers_ascii (doc_of a)"
  by (induction a) (auto simp: format_float_ascii [unfolded ascii_def] list_all_iff)

lemma truncate_valid: "valid_utf8 s \<Longrightarrow> valid_utf8 (truncate s n)"
  using valid_take [of s "back_off s n"] back_off_start [of s n] back_off_le [of s n]
  by (cases "back_off s n = 0") (auto simp: truncate_def)

lemma summarizeData_valid: "valid_utf8 (summarizeData data)"
  by (auto simp: summarizeData_def intro!: truncate_valid encode_valid doc_of_numbers split: option.split simp del: encode.simps doc_of.simps)

subsection \<open>Entries\<close>

text \<open>The types the bridge gives its entries, and what an entry of each type carries.\<close>

definition entry_ok :: "LogEntry \<Rightarrow> bool" where
  "entry_ok e \<longleftrightarrow>
     le_Type e \<in> set [''text'', ''thinking'', ''tool_call'', ''usage'', ''system'', ''status'', ''stderr''] \<and>
     valid_utf8 (le_Content e) \<and> valid_utf8 (le_Model e) \<and> valid_utf8 (le_ToolUseID e) \<and>
     (le_Type e \<in> set [''tool_call'', ''system''] \<longrightarrow> length (le_Content e) \<le> 200) \<and>
     (case le_Usage e of
        None \<Rightarrow> le_Type e \<noteq> ''usage''
      | Some u \<Rightarrow> le_Type e = ''usage'' \<and> list_all in_int64 [InputTokens u, OutputTokens u, CacheReadTokens u, CacheCreateTokens u] \<and>
          (f_positive (CostUSD u) \<or> CostUSD u = f_zero))"

lemma truncate_length: "length (truncate s n) \<le> n"
  using back_off_le [of s n] by (simp add: truncate_def)

lemma summarizeData_length: "length (summarizeData data) \<le> 200"
  by (simp add: summarizeData_def truncate_length split: option.split)

lemma bridge_texts_valid:
  "valid_utf8 ''(''" "valid_utf8 '')''" "valid_utf8 not_run" "valid_utf8 '' (suspected upstream defect: ''"
  "valid_utf8 ''awaiting human input''" "valid_utf8 ''idle''" "valid_utf8 ''working''"
  by (simp_all add: valid_utf8_ascii code_of_def not_run_def)

lemmas entry_facts = strField_valid bridge_texts_valid valid_utf8_append truncate_valid summarizeData_valid int64Field_range
  positiveFloatField_range truncate_length summarizeData_length

text \<open>The kinds the bridge maps itself; an event of another kind is the backend's, through \<open>MapExtra\<close>.\<close>

definition bridge_kinds :: "string list" where
  "bridge_kinds = [''model_response'', ''thinking'', ''tool_call'', ''usage'', ''state_change'', ''context_limit'', ''error'',
     ''model_request'', ''user_input'', ''tool_result'', ''tool_repair'', ''verification'']"

definition from_extra :: "'r Bridge \<Rightarrow> event \<Rightarrow> LogEntry \<Rightarrow> bool \<Rightarrow> bool" where
  "from_extra b ev entry aw \<longleftrightarrow> ev_Kind ev \<notin> set bridge_kinds \<and>
     (case br_mapExtra b of None \<Rightarrow> False | Some extra \<Rightarrow> extra (ev_Kind ev) (ev_Data ev) = (entry, aw, True))"

lemma mapEvent_own:
  assumes "event_valid ev" "\<forall>f. in_int64 (beyond f)" "ev_Kind ev \<in> set bridge_kinds"
    "mapEvent beyond b (ev_Kind ev) (ev_Data ev) = (entry, aw, False)"
  shows "entry_ok entry"
  using assms(3,4) assms(1) int64Field_range [OF assms(2)] unfolding bridge_kinds_def list.set insert_iff empty_iff
  by (elim disjE FalseE)
    (auto simp: mapEvent_def skipped_def Let_def entry_ok_def no_entry_def entry_facts valid_Cons_ascii code_of_def split: if_splits)

lemma mapEvent_extra:
  assumes "ev_Kind ev \<notin> set bridge_kinds" "mapEvent beyond b (ev_Kind ev) (ev_Data ev) = (entry, aw, False)"
  shows "from_extra b ev entry aw"
  using assms by (auto simp: mapEvent_def bridge_kinds_def from_extra_def skipped_def split: option.splits prod.splits if_splits)

text \<open>C39: Whatever bytes a worker prints: a line that is an event is skipped or published as one entry, with its content redacted. An event of a kind the
bridge maps itself gives an entry of a known type, whose texts are well-formed UTF-8 before redaction, a tool call or system entry of at most 200 bytes before
redaction, with a usage exactly on usage entries, whose counts are in the range of \<open>int64\<close> and whose cost is not negative. For an event of any other kind the entry
is the one the backend's \<open>MapExtra\<close> returned, about which the bridge promises nothing; a kind of the bridge never reaches that hook.\<close>

theorem BridgeLine_typed:
  assumes "unmarshal_event line = Some ev" "\<forall>f. in_int64 (beyond f)"
  shows "BridgeLine masked beyond now key line False b = Some b \<or>
    (\<exists>entry aw. (if ev_Kind ev \<in> set bridge_kinds then entry_ok entry else from_extra b ev entry aw) \<and>
      BridgeLine masked beyond now key line False b =
        publish (stamp key (entry\<lparr>le_Timestamp := now, le_Content := masked (br_redactor b) (le_Content entry)\<rparr>)) aw b)"
proof -
  obtain entry aw skip where m: "mapEvent beyond b (ev_Kind ev) (ev_Data ev) = (entry, aw, skip)" by (rule prod_cases3)
  show ?thesis
  proof (cases skip)
    case True
    then show ?thesis using BridgeLine_skip [OF assms(1), of beyond b entry aw] m by simp
  next
    case False
    then have ev: "mapEvent beyond b (ev_Kind ev) (ev_Data ev) = (entry, aw, False)" using m by simp
    then have "if ev_Kind ev \<in> set bridge_kinds then entry_ok entry else from_extra b ev entry aw"
      using mapEvent_own [OF unmarshal_event_valid [OF assms(1)] assms(2) _ ev] mapEvent_extra [OF _ ev] by simp
    then show ?thesis using BridgeLine_event [OF assms(1) ev] by blast
  qed
qed

text \<open>A line with a malformed byte inside a string.\<close>

definition typed_line :: string where
  "typed_line = ''{'' @ [CHR 0x22] @ ''kind'' @ [CHR 0x22] @ '':'' @ [CHR 0x22] @ ''error'' @ [CHR 0x22] @ '','' @ [CHR 0x22] @ ''data'' @ [CHR 0x22] @
     '':{'' @ [CHR 0x22] @ ''error'' @ [CHR 0x22] @ '':'' @ [CHR 0x22, CHR 0xFF, CHR 0x22] @ ''}}''"

lemma typed_line_event:
  "unmarshal_event typed_line = Some \<lparr>ev_Kind = ''error'', ev_Data = Some [(''error'', AStr replacement)]\<rparr>"
  by code_simp

theorem BridgeLine_typed_witness:
  "unmarshal_event typed_line = Some \<lparr>ev_Kind = ''error'', ev_Data = Some [(''error'', AStr replacement)]\<rparr> \<and>
    (BridgeLine sample_masked (\<lambda>f. min_int64) 5 sample_key typed_line False (NewBridge sample_cfg) = Some (NewBridge sample_cfg) \<or>
    (\<exists>entry aw. (if ''error'' \<in> set bridge_kinds then entry_ok entry
        else from_extra (NewBridge sample_cfg) \<lparr>ev_Kind = ''error'', ev_Data = Some [(''error'', AStr replacement)]\<rparr> entry aw) \<and>
      BridgeLine sample_masked (\<lambda>f. min_int64) 5 sample_key typed_line False (NewBridge sample_cfg) =
      publish (stamp sample_key (entry\<lparr>le_Timestamp := 5,
        le_Content := sample_masked (br_redactor (NewBridge sample_cfg)) (le_Content entry)\<rparr>)) aw (NewBridge sample_cfg)))"
proof
  show "unmarshal_event typed_line = Some \<lparr>ev_Kind = ''error'', ev_Data = Some [(''error'', AStr replacement)]\<rparr>" by (rule typed_line_event)
qed (use BridgeLine_typed [OF typed_line_event, of "\<lambda>f. min_int64" sample_masked 5 sample_key "NewBridge sample_cfg"] in
    \<open>simp only: event.simps, simp add: in_int64_def\<close>)

end
