(* ===== verification/Url_Request.thy ===== *)
theory Url_Request
  imports Net_Url
begin

text \<open>
  \<open>URL.RequestURI\<close>, the path and query of a URL as they go out on a request line. \<open>url.Parse\<close> keeps the text of a path beside the decoded path
  where the two differ (\<open>RawPath\<close>); \<open>path_text\<close> is that text, and \<open>parsed_path_text\<close> ties it to the parsed URL.
\<close>

definition shouldEscape_path :: "char \<Rightarrow> bool" where
  "shouldEscape_path c \<longleftrightarrow> \<not> (is_alnum c \<or> c \<in> set ''-_.~$&+,/:;=@'')"

definition upper_hex :: "nat \<Rightarrow> char" where
  "upper_hex n = ''0123456789ABCDEF'' ! n"

definition escape_path :: "string \<Rightarrow> string" where
  "escape_path s =
     concat (map (\<lambda>c. if shouldEscape_path c then [CHR ''%'', upper_hex (code_of c div 16), upper_hex (code_of c mod 16)] else [c]) s)"

definition validEncoded_path :: "string \<Rightarrow> bool" where
  "validEncoded_path s = list_all (\<lambda>c. c \<in> set ''!$&()*+,;=:@[]%'' \<or> c = CHR 0x27 \<or> \<not> shouldEscape_path c) s"

definition path_text :: "string \<Rightarrow> string" where
  "path_text raw0 =
     (let raw = before_char CHR ''#'' raw0 in
      if raw = ''*'' then raw
      else case getScheme raw of
        None \<Rightarrow> []
      | Some (scheme, rest0) \<Rightarrow>
          (let rest = before_char CHR ''?'' rest0 in
           if \<not> HasPrefix rest ''/'' \<and> scheme \<noteq> [] then []
           else if (scheme \<noteq> [] \<or> \<not> HasPrefix rest ''///'') \<and> HasPrefix rest ''//''
             then dropWhile (\<lambda>c. c \<noteq> CHR ''/'') (drop 2 rest)
           else rest))"

text \<open>\<open>RawPath\<close> of a URL with that path text and decoded path, and the path a request line shows.\<close>

definition RawPath :: "string \<Rightarrow> string \<Rightarrow> string" where
  "RawPath text path = (if escape_path path = text then [] else text)"

definition EscapedPath :: "string \<Rightarrow> string \<Rightarrow> string" where
  "EscapedPath rawpath path =
     (if rawpath \<noteq> [] \<and> validEncoded_path rawpath \<and> unescape PathPart rawpath = Some path then rawpath
      else if path = ''*'' then ''*''
      else escape_path path)"

definition RequestURI :: "string \<Rightarrow> url \<Rightarrow> string" where
  "RequestURI rawpath u =
     (let target =
        (if ur_Opaque u = [] then
           (let p = EscapedPath rawpath (ur_Path u) in if p = [] then ''/'' else p)
         else if HasPrefix (ur_Opaque u) ''//'' then ur_Scheme u @ '':'' @ ur_Opaque u
         else ur_Opaque u)
      in if ur_ForceQuery u \<or> ur_RawQuery u \<noteq> [] then target @ ''?'' @ ur_RawQuery u else target)"

lemma parsed_path_text:
  assumes "url_Parse raw = Some u"
  shows "unescape PathPart (path_text raw) = Some (ur_Path u)"
proof -
  let ?raw = "before_char CHR ''#'' raw"
  obtain v where v: "parse_url ?raw = Some v" "ur_Path u = ur_Path v"
    using assms by (auto simp: url_Parse_def Let_def split: option.splits if_splits)
  have star: "unescape PathPart ''*'' = Some ''*''" by (simp add: bad_byte_def is_host_part_def)
  show ?thesis
  proof (cases "?raw = ''*''")
    case True
    then show ?thesis using v star by (auto simp: path_text_def parse_url_def empty_url_def split: if_splits)
  next
    case False
    then obtain scheme rest0 where g: "getScheme ?raw = Some (scheme, rest0)"
      using v(1) by (auto simp: parse_url_def split: if_splits option.splits)
    then show ?thesis
      using v False
      by (auto simp: path_text_def parse_url_def parse_hier_def set_path_def empty_url_def Let_def
          split: if_splits option.splits)
  qed
qed

lemma escape_path_plain: "list_all (\<lambda>c. \<not> shouldEscape_path c) s \<Longrightarrow> escape_path s = s"
  by (induction s) (auto simp: escape_path_def)

lemma escape_path_Nil_iff: "escape_path s = [] \<longleftrightarrow> s = []"
  by (cases s) (auto simp: escape_path_def)

end
