(* ===== verification/Taskskills.thy ===== *)
theory Taskskills
  imports Url_Request Go_Path
begin

text \<open>
  \<open>taskskills/resolver.go\<close> and \<open>auth.go\<close>: the resolver that fetches a pointer from ContextMatrix with a signed GET and clones the
  repository it names once. What lies outside the program is a parameter: the record \<open>world\<close> answers each external action (the HTTP round trip, the file
  system, the git process), given the actions performed so far, and holds the signer and the decoder of the wire contract package and the inherited
  environment. The actions are kept in a list, so the theorems can say which ones a call performs and with which arguments. The mutex makes a call
  atomic. The HTTP client does not follow redirects, so a fetch is one request and its answer.
\<close>

subsection \<open>Base64 and contexts\<close>

definition base64_digit :: "nat \<Rightarrow> char" where
  "base64_digit n = ''ABCDEFGHIJKLMNOPQRSTUVWXYZabcdefghijklmnopqrstuvwxyz0123456789+/'' ! n"

fun base64 :: "string \<Rightarrow> string" where
  "base64 [] = []"
| "base64 [a] = [base64_digit (code_of a div 4), base64_digit (code_of a mod 4 * 16), CHR ''='', CHR ''='']"
| "base64 [a, b] =
     [base64_digit (code_of a div 4), base64_digit (code_of a mod 4 * 16 + code_of b div 16),
      base64_digit (code_of b mod 16 * 4), CHR ''='']"
| "base64 (a # b # c # s) =
     [base64_digit (code_of a div 4), base64_digit (code_of a mod 4 * 16 + code_of b div 16),
      base64_digit (code_of b mod 16 * 4 + code_of c div 64), base64_digit (code_of c mod 64)] @ base64 s"

record go_context =
  ctx_deadline :: "instant option"
  ctx_cancelled :: bool

definition WithoutCancel :: "go_context \<Rightarrow> go_context" where
  "WithoutCancel ctx = \<lparr>ctx_deadline = None, ctx_cancelled = False\<rparr>"

definition WithTimeout :: "instant \<Rightarrow> go_context \<Rightarrow> duration \<Rightarrow> go_context" where
  "WithTimeout now ctx d =
     ctx\<lparr>ctx_deadline := Some (case ctx_deadline ctx of None \<Rightarrow> time_Add now d | Some t \<Rightarrow> min t (time_Add now d))\<rparr>"

subsection \<open>The world\<close>

record get_request =
  gr_url :: string
  gr_sig :: string
  gr_ts :: string
  gr_deadline :: "instant option"
  gr_timeout :: duration

record get_response =
  gp_status :: int
  gp_body :: string

record TaskSkillsSource =
  GitRemoteURL :: string
  Ref :: string
  Token :: string

datatype action =
    Fetch get_request
  | RemoveAll string
  | MkdirAll string
  | Git "string list" string "string list" "instant option"

text \<open>An answer \<open>Some err\<close> of the file system or of git is a failure; git also gives its output.\<close>

record world =
  w_fetch :: "action list \<Rightarrow> get_request \<Rightarrow> string + get_response"
  w_remove :: "action list \<Rightarrow> string \<Rightarrow> string option"
  w_mkdir :: "action list \<Rightarrow> string \<Rightarrow> string option"
  w_git :: "action list \<Rightarrow> string list \<Rightarrow> string \<times> string option"
  w_environ :: "string list"
  w_sign :: "string \<Rightarrow> string \<Rightarrow> string \<Rightarrow> string \<times> string"
  w_decode :: "string \<Rightarrow> TaskSkillsSource option"

datatype resolve_err =
    ParseURL string
  | CreateRequest string
  | FetchFailed string
  | BadStatus int
  | ParseSource
  | NoRemoteURL
  | RemoteURLIsFlag string
  | RefIsFlag string
  | NoToken
  | ClearCache string
  | MkdirDest string
  | GitFailed string string string

subsection \<open>The resolver\<close>

definition requestTimeout :: duration where
  "requestTimeout = 15 * second"

definition cloneTimeout :: duration where
  "cloneTimeout = 5 * (60 * second)"

record Resolver =
  rv_cmURL :: string
  rv_apiKey :: string
  rv_cacheDir :: string
  rv_endpointPath :: string
  rv_resolved :: string

definition NewResolver :: "string \<Rightarrow> string \<Rightarrow> string \<Rightarrow> string \<Rightarrow> Resolver" where
  "NewResolver cmURL apiKey cacheDir endpointPath =
     \<lparr>rv_cmURL = TrimRight cmURL CHR ''/'', rv_apiKey = apiKey, rv_cacheDir = cacheDir, rv_endpointPath = endpointPath,
      rv_resolved = []\<rparr>"

definition requestURI :: "string \<Rightarrow> resolve_err + string" where
  "requestURI raw =
     (case url_Parse raw of
        None \<Rightarrow> Inl (ParseURL raw)
      | Some u \<Rightarrow>
          (let rawpath = RawPath (path_text raw) (ur_Path u);
               u' = (if ur_Path u = [] then u\<lparr>ur_Path := ''/''\<rparr> else u)
           in Inr (RequestURI rawpath u')))"

definition gitAuthEnv :: "string list \<Rightarrow> string \<Rightarrow> string list" where
  "gitAuthEnv environ token =
     (let env = environ @ [''GIT_TERMINAL_PROMPT=0''] in
      if token = [] then env
      else env @ [''GIT_CONFIG_COUNT=1'', ''GIT_CONFIG_KEY_0=http.extraheader'',
        ''GIT_CONFIG_VALUE_0=Authorization: Basic '' @ base64 (''x-access-token:'' @ token)])"

text \<open>\<open>io.ReadAll\<close> of an \<open>io.LimitReader\<close>; an error while reading leaves what came before it.\<close>

definition read_limit :: "int \<Rightarrow> string \<Rightarrow> string" where
  "read_limit n body = (if int (length body) \<le> n then body else take (nat n) body)"

definition fetchPointer :: "world \<Rightarrow> go_context \<Rightarrow> Resolver \<Rightarrow> action list \<Rightarrow> (resolve_err + TaskSkillsSource) \<times> action list" where
  "fetchPointer w ctx r acts =
     (let target = rv_cmURL r @ rv_endpointPath r in
      case requestURI target of
        Inl e \<Rightarrow> (Inl e, acts)
      | Inr uri \<Rightarrow>
          (case w_sign w (rv_apiKey r) ''GET'' uri of (sig, ts) \<Rightarrow>
             if url_Parse target = None then (Inl (CreateRequest target), acts)
             else
               (let req = \<lparr>gr_url = target, gr_sig = sig, gr_ts = ts, gr_deadline = ctx_deadline ctx, gr_timeout = requestTimeout\<rparr>;
                    acts' = acts @ [Fetch req]
                in case w_fetch w acts req of
                     Inl e \<Rightarrow> (Inl (FetchFailed e), acts')
                   | Inr resp \<Rightarrow>
                       (let body = read_limit 1048576 (gp_body resp) in
                        if gp_status resp < 200 \<or> 300 \<le> gp_status resp then (Inl (BadStatus (gp_status resp)), acts')
                        else case w_decode w body of
                          None \<Rightarrow> (Inl ParseSource, acts')
                        | Some p \<Rightarrow> (Inr p, acts')))))"

definition clone_steps :: "string \<Rightarrow> string \<Rightarrow> string list list" where
  "clone_steps gitURL ref =
     (let fetchRef = (if ref = [] then ''HEAD'' else ref) in
      [[''init'', ''-q''],
       [''remote'', ''add'', ''origin'', gitURL],
       [''fetch'', ''--depth'', ''1'', ''origin'', ''--'', fetchRef],
       [''checkout'', ''-q'', ''FETCH_HEAD'']])"

fun git_loop :: "world \<Rightarrow> go_context \<Rightarrow> string \<Rightarrow> string \<Rightarrow> string list list \<Rightarrow> action list \<Rightarrow> resolve_err option \<times> action list" where
  "git_loop w ctx dest token [] acts = (None, acts)"
| "git_loop w ctx dest token (args # steps) acts =
     (let acts' = acts @ [Git args dest (gitAuthEnv (w_environ w) token) (ctx_deadline ctx)] in
      case w_git w acts args of
        (out, Some e) \<Rightarrow> (Some (GitFailed (hd args) e (TrimSpace out)), acts')
      | (out, None) \<Rightarrow> git_loop w ctx dest token steps acts')"

definition gitClone :: "world \<Rightarrow> go_context \<Rightarrow> string \<Rightarrow> string \<Rightarrow> string \<Rightarrow> string \<Rightarrow> action list \<Rightarrow> resolve_err option \<times> action list" where
  "gitClone w ctx gitURL ref dest token acts =
     (let acts' = acts @ [MkdirAll dest] in
      case w_mkdir w acts dest of
        Some e \<Rightarrow> (Some (MkdirDest e), acts')
      | None \<Rightarrow> git_loop w ctx dest token (clone_steps gitURL ref) acts')"

definition Resolve :: "world \<Rightarrow> instant \<Rightarrow> go_context \<Rightarrow> Resolver \<Rightarrow> action list \<Rightarrow> (resolve_err + string) \<times> Resolver \<times> action list" where
  "Resolve w now ctx r acts =
     (if rv_resolved r \<noteq> [] then (Inr (rv_resolved r), r, acts)
      else
        (let resolveCtx = WithTimeout now (WithoutCancel ctx) cloneTimeout in
         case fetchPointer w resolveCtx r acts of
           (Inl e, acts1) \<Rightarrow> (Inl e, r, acts1)
         | (Inr p, acts1) \<Rightarrow>
             if GitRemoteURL p = [] then (Inl NoRemoteURL, r, acts1)
             else if HasPrefix (GitRemoteURL p) ''-'' then (Inl (RemoteURLIsFlag (GitRemoteURL p)), r, acts1)
             else if HasPrefix (Ref p) ''-'' then (Inl (RefIsFlag (Ref p)), r, acts1)
             else if Token p = [] then (Inl NoToken, r, acts1)
             else
               (let dest = Join2 (rv_cacheDir r) ''task-skills''; acts2 = acts1 @ [RemoveAll dest] in
                case w_remove w acts1 dest of
                  Some e \<Rightarrow> (Inl (ClearCache e), r, acts2)
                | None \<Rightarrow>
                    (case gitClone w resolveCtx (GitRemoteURL p) (Ref p) dest (Token p) acts2 of
                       (Some e, acts3) \<Rightarrow> (Inl e, r, acts3)
                     | (None, acts3) \<Rightarrow> (Inr dest, r\<lparr>rv_resolved := dest\<rparr>, acts3)))))"

subsection \<open>The header of the clone\<close>

text \<open>What a server reads from a Basic credential (RFC 4648).\<close>

definition digit_value :: "char \<Rightarrow> nat option" where
  "digit_value c = find (\<lambda>n. base64_digit n = c) [0..<64]"

fun unbase64 :: "string \<Rightarrow> string option" where
  "unbase64 [] = Some []"
| "unbase64 (p # q # r # t # s) =
     (case (digit_value p, digit_value q) of
        (Some x, Some y) \<Rightarrow>
          if r = CHR ''='' then (if t = CHR ''='' \<and> s = [] then Some [char_of (4 * x + y div 16)] else None)
          else (case digit_value r of
              None \<Rightarrow> None
            | Some z \<Rightarrow>
                if t = CHR ''='' then
                  (if s = [] then Some [char_of (4 * x + y div 16), char_of (y mod 16 * 16 + z div 4)] else None)
                else (case digit_value t of
                    None \<Rightarrow> None
                  | Some u \<Rightarrow>
                      map_option (\<lambda>rest. [char_of (4 * x + y div 16), char_of (y mod 16 * 16 + z div 4),
                        char_of (z mod 4 * 64 + u)] @ rest) (unbase64 s)))
      | _ \<Rightarrow> None)"
| "unbase64 _ = None"

lemma digit_laws: "n < 64 \<Longrightarrow> digit_value (base64_digit n) = Some n" "n < 64 \<Longrightarrow> base64_digit n \<noteq> CHR ''=''"
proof -
  have "\<forall>n \<in> set [0..<64]. digit_value (base64_digit n) = Some n \<and> base64_digit n \<noteq> CHR ''=''" by code_simp
  then show "n < 64 \<Longrightarrow> digit_value (base64_digit n) = Some n" "n < 64 \<Longrightarrow> base64_digit n \<noteq> CHR ''=''" by simp_all
qed

lemma code_of_bound: "code_of c < 256" "char_of (code_of c) = c"
  by (simp_all add: code_of_def)

lemma sextets:
  "code_of a div 4 < 64" "code_of a mod 4 * 16 < 64" "code_of a mod 4 * 16 + code_of b div 16 < 64"
  "code_of b mod 16 * 4 < 64" "code_of b mod 16 * 4 + code_of c div 64 < 64"
proof -
  have "code_of a < 256" "code_of b < 256" "code_of c < 256" by (rule code_of_bound)+
  moreover have "code_of a mod 4 \<le> 3" "code_of b mod 16 \<le> 15" by simp_all
  ultimately show "code_of a div 4 < 64" "code_of a mod 4 * 16 < 64" "code_of a mod 4 * 16 + code_of b div 16 < 64"
    "code_of b mod 16 * 4 < 64" "code_of b mod 16 * 4 + code_of c div 64 < 64" by linarith+
qed

lemma octets:
  "code_of b div 16 div 16 = 0" "code_of b div 16 mod 16 * 16 + code_of b mod 16 = code_of b"
  "code_of c div 64 div 4 = 0" "code_of c div 64 mod 4 * 64 + code_of c mod 64 = code_of c"
proof -
  have "code_of b < 256" "code_of c < 256" by (rule code_of_bound)+
  then have d: "code_of b div 16 < 16" "code_of c div 64 < 4" by linarith+
  then show "code_of b div 16 div 16 = 0" "code_of c div 64 div 4 = 0" by simp_all
  show "code_of b div 16 mod 16 * 16 + code_of b mod 16 = code_of b" "code_of c div 64 mod 4 * 64 + code_of c mod 64 = code_of c"
    using d by (simp_all only: mod_less div_mult_mod_eq)
qed

lemma unbase64_base64: "unbase64 (base64 s) = Some s"
  by (induction s rule: base64.induct) (simp_all add: digit_laws sextets octets code_of_bound(2))

text \<open>C38: The environment of a git process is the inherited one and, for a token, one configuration entry with an authorization header in which the server
reads the user \<open>x-access-token\<close> and the token; without a token there is no header.\<close>

theorem gitAuthEnv_carries_token:
  "gitAuthEnv environ [] = environ @ [''GIT_TERMINAL_PROMPT=0''] \<and>
    (token \<noteq> [] \<longrightarrow>
      (\<exists>auth. gitAuthEnv environ token = environ @ [''GIT_TERMINAL_PROMPT=0'', ''GIT_CONFIG_COUNT=1'',
          ''GIT_CONFIG_KEY_0=http.extraheader'', ''GIT_CONFIG_VALUE_0=Authorization: Basic '' @ auth] \<and>
        unbase64 auth = Some (''x-access-token:'' @ token)))"
  using unbase64_base64 [of "''x-access-token:'' @ token"] by (simp add: gitAuthEnv_def del: base64.simps unbase64.simps)

theorem gitAuthEnv_carries_token_witness:
  "\<exists>auth. gitAuthEnv [''HOME=/root''] ''tok'' = [''HOME=/root'', ''GIT_TERMINAL_PROMPT=0'', ''GIT_CONFIG_COUNT=1'',
      ''GIT_CONFIG_KEY_0=http.extraheader'', ''GIT_CONFIG_VALUE_0=Authorization: Basic '' @ auth] \<and>
    unbase64 auth = Some (''x-access-token:'' @ ''tok'')"
  using gitAuthEnv_carries_token [of "[''HOME=/root'']" "''tok''"] by simp

subsection \<open>The signed URI\<close>

text \<open>What the HTTP client puts on the request line of a request for a URL: it parses the text itself, in \<open>http.NewRequestWithContext\<close>, and
writes the \<open>RequestURI\<close> of the result, without the resolver's repair of an empty path.\<close>

definition sent_uri :: "string \<Rightarrow> string option" where
  "sent_uri url = map_option (\<lambda>u. RequestURI (RawPath (path_text url) (ur_Path u)) u) (url_Parse url)"

text \<open>Replacing an empty path by a slash before asking for the URI changes nothing.\<close>

lemma requestURI_sent: "requestURI raw = (case sent_uri raw of None \<Rightarrow> Inl (ParseURL raw) | Some uri \<Rightarrow> Inr uri)"
proof (cases "url_Parse raw")
  case None
  then show ?thesis by (simp add: requestURI_def sent_uri_def)
next
  case (Some u)
  show ?thesis
  proof (cases "ur_Path u = []")
    case True
    have pt: "path_text raw = []"
    proof (rule ccontr)
      assume "path_text raw \<noteq> []"
      then obtain c s where "path_text raw = c # s" by (cases "path_text raw") auto
      then show False
        using parsed_path_text [OF Some] True by (auto split: if_splits list.splits option.splits)
    qed
    have "escape_path ''/'' = ''/''" "escape_path [] = []"
      by (simp_all add: escape_path_def shouldEscape_path_def)
    then show ?thesis
      by (simp add: requestURI_def sent_uri_def Some True RawPath_def EscapedPath_def RequestURI_def pt Let_def)
  qed (simp add: requestURI_def sent_uri_def Some)
qed

subsection \<open>Actions of a call\<close>

definition flag_safe :: "string list \<Rightarrow> bool" where
  "flag_safe args \<longleftrightarrow> args = [''init'', ''-q''] \<or> args = [''checkout'', ''-q'', ''FETCH_HEAD''] \<or>
     (\<exists>url. args = [''remote'', ''add'', ''origin'', url] \<and> url \<noteq> [] \<and> \<not> HasPrefix url ''-'') \<or>
     (\<exists>ref. args = [''fetch'', ''--depth'', ''1'', ''origin'', ''--'', ref] \<and> ref \<noteq> [] \<and> \<not> HasPrefix ref ''-'')"

definition skills_dir :: "Resolver \<Rightarrow> string" where
  "skills_dir r = Join2 (rv_cacheDir r) ''task-skills''"

fun proper :: "world \<Rightarrow> instant \<Rightarrow> Resolver \<Rightarrow> action \<Rightarrow> bool" where
  "proper w now r (Fetch req) \<longleftrightarrow>
     gr_url req = rv_cmURL r @ rv_endpointPath r \<and> gr_deadline req = Some (now + 300 * second) \<and> gr_timeout req = 15 * second \<and>
     (\<exists>uri. requestURI (gr_url req) = Inr uri \<and> w_sign w (rv_apiKey r) ''GET'' uri = (gr_sig req, gr_ts req))"
| "proper w now r (RemoveAll d) \<longleftrightarrow> d = skills_dir r"
| "proper w now r (MkdirAll d) \<longleftrightarrow> d = skills_dir r"
| "proper w now r (Git args d env dl) \<longleftrightarrow>
     flag_safe args \<and> d = skills_dir r \<and> dl = Some (now + 300 * second) \<and>
     (\<exists>token. token \<noteq> [] \<and> env = gitAuthEnv (w_environ w) token)"

text \<open>What a stage of a call adds to the actions.\<close>

definition adds :: "(action \<Rightarrow> bool) \<Rightarrow> action list \<Rightarrow> action list \<Rightarrow> bool" where
  "adds P acts acts' \<longleftrightarrow> (\<exists>new. acts' = acts @ new \<and> list_all P new)"

lemma adds_laws [simp]: "adds P acts acts" "adds P acts (acts @ [a]) \<longleftrightarrow> P a"
  by (simp_all add: adds_def)

lemma adds_trans: "adds P a b \<Longrightarrow> adds P b c \<Longrightarrow> adds P a c"
  by (auto simp: adds_def)

lemma git_loop_adds:
  assumes "list_all flag_safe steps" "token \<noteq> []" "ctx_deadline ctx = Some (now + 300 * second)"
  shows "adds (proper w now r) acts (snd (git_loop w ctx (skills_dir r) token steps acts))"
  using assms(1)
proof (induction steps arbitrary: acts)
  case (Cons args steps)
  let ?acts = "acts @ [Git args (skills_dir r) (gitAuthEnv (w_environ w) token) (ctx_deadline ctx)]"
  have one: "adds (proper w now r) acts ?acts" using Cons.prems assms(2,3) by auto
  have "adds (proper w now r) ?acts (snd (git_loop w ctx (skills_dir r) token steps ?acts))"
    using Cons.IH [of ?acts] Cons.prems by simp
  then have all: "adds (proper w now r) acts (snd (git_loop w ctx (skills_dir r) token steps ?acts))" by (rule adds_trans [OF one])
  obtain out e where g: "w_git w acts args = (out, e)" by (cases "w_git w acts args")
  show ?case using one all by (cases e) (simp_all add: Let_def g)
qed simp

lemma clone_steps_safe:
  "url \<noteq> [] \<Longrightarrow> \<not> HasPrefix url ''-'' \<Longrightarrow> \<not> HasPrefix ref ''-'' \<Longrightarrow> list_all flag_safe (clone_steps url ref)"
  by (auto simp: clone_steps_def flag_safe_def Let_def HasPrefix_def)

lemma gitClone_adds:
  assumes "url \<noteq> []" "\<not> HasPrefix url ''-''" "\<not> HasPrefix ref ''-''" "token \<noteq> []" "ctx_deadline ctx = Some (now + 300 * second)"
  shows "adds (proper w now r) acts (snd (gitClone w ctx url ref (skills_dir r) token acts))"
proof -
  let ?acts = "acts @ [MkdirAll (skills_dir r)]"
  have "adds (proper w now r) ?acts (snd (git_loop w ctx (skills_dir r) token (clone_steps url ref) ?acts))"
    using clone_steps_safe [OF assms(1-3)] assms(4,5) by (rule git_loop_adds)
  then have "adds (proper w now r) acts (snd (git_loop w ctx (skills_dir r) token (clone_steps url ref) ?acts))"
    by (rule adds_trans [rotated]) simp
  then show ?thesis by (cases "w_mkdir w acts (skills_dir r)") (simp_all add: gitClone_def)
qed

lemma fetchPointer_adds:
  assumes "ctx_deadline ctx = Some (now + 300 * second)"
  shows "adds (proper w now r) acts (snd (fetchPointer w ctx r acts))"
  using assms
  by (auto simp: fetchPointer_def Let_def requestTimeout_def split: sum.split prod.split option.split)

text \<open>C14: Whatever the pointer says, a call of \<open>Resolve\<close> touches only the skills directory under the cache directory, sends at most the one signed request, and runs git
only with a token in its environment and with arguments the remote side cannot turn into flags; all of it under a deadline of five minutes from the call,
whatever the context of the caller.\<close>

theorem Resolve_actions_proper:
  "case Resolve w now ctx r acts of (res, r', acts') \<Rightarrow> \<exists>new. acts' = acts @ new \<and> list_all (proper w now r) new"
proof -
  let ?ctx = "WithTimeout now (WithoutCancel ctx) cloneTimeout"
  have dl: "ctx_deadline ?ctx = Some (now + 300 * second)"
    by (simp add: WithTimeout_def WithoutCancel_def cloneTimeout_def time_Add_def)
  obtain q acts1 where f: "fetchPointer w ?ctx r acts = (q, acts1)" by (cases "fetchPointer w ?ctx r acts")
  have 1: "adds (proper w now r) acts acts1" using fetchPointer_adds [OF dl, of w r acts] f by simp
  have 2: "adds (proper w now r) acts (acts1 @ [RemoveAll (skills_dir r)])"
    using 1 by (rule adds_trans) simp
  have 3: "adds (proper w now r) acts
      (snd (gitClone w ?ctx (GitRemoteURL p) (Ref p) (skills_dir r) (Token p) (acts1 @ [RemoveAll (skills_dir r)])))"
    if "GitRemoteURL p \<noteq> []" "\<not> HasPrefix (GitRemoteURL p) ''-''" "\<not> HasPrefix (Ref p) ''-''" "Token p \<noteq> []" for p
    using 2 gitClone_adds [OF that dl] by (rule adds_trans)
  have 4: "adds (proper w now r) acts (snd (snd (Resolve w now ctx r acts)))" if new: "rv_resolved r = []" and p: "q = Inr p" for p
  proof (cases "GitRemoteURL p = [] \<or> HasPrefix (GitRemoteURL p) ''-'' \<or> HasPrefix (Ref p) ''-'' \<or> Token p = []")
    case True
    then show ?thesis using 1 by (auto simp: Resolve_def new f p)
  next
    case False
    let ?clone = "gitClone w ?ctx (GitRemoteURL p) (Ref p) (skills_dir r) (Token p) (acts1 @ [RemoveAll (skills_dir r)])"
    obtain e acts3 where c: "?clone = (e, acts3)" by (cases ?clone)
    have "adds (proper w now r) acts acts3" using 3 [of p] False c by simp
    then show ?thesis
      using False 2 c
      by (cases e; cases "w_remove w acts1 (skills_dir r)") (simp_all add: Resolve_def new f p skills_dir_def [symmetric] Let_def)
  qed
  have "adds (proper w now r) acts (snd (snd (Resolve w now ctx r acts)))"
    using 1 4 by (cases "rv_resolved r = []"; cases q) (auto simp: Resolve_def f)
  then show ?thesis by (auto simp: adds_def split: prod.split)
qed

subsection \<open>The request of a call\<close>

fun requests :: "action list \<Rightarrow> get_request list" where
  "requests [] = []"
| "requests (Fetch req # acts) = req # requests acts"
| "requests (a # acts) = requests acts"

abbreviation no_request :: "action \<Rightarrow> bool" where
  "no_request a \<equiv> requests [a] = []"

lemma requests_none: "list_all no_request acts \<Longrightarrow> requests acts = []"
  by (induction acts rule: requests.induct) simp_all

lemma git_loop_no_request: "adds no_request acts (snd (git_loop w ctx dest token steps acts))"
proof (induction steps arbitrary: acts)
  case (Cons args steps)
  let ?acts = "acts @ [Git args dest (gitAuthEnv (w_environ w) token) (ctx_deadline ctx)]"
  have one: "adds no_request acts ?acts" by simp
  have "adds no_request acts (snd (git_loop w ctx dest token steps ?acts))" by (rule adds_trans [OF one Cons.IH])
  then show ?case using one by (auto simp: Let_def split: prod.split option.split)
qed simp

lemma gitClone_no_request: "adds no_request acts (snd (gitClone w ctx url ref dest token acts))"
proof -
  have one: "adds no_request acts (acts @ [MkdirAll dest])" by simp
  then show ?thesis
    using adds_trans [OF one git_loop_no_request] by (simp add: gitClone_def Let_def split: option.split)
qed

text \<open>After the pointer is fetched, a call makes no further request.\<close>

lemma Resolve_after_fetch:
  assumes "rv_resolved r = []" "fetchPointer w (WithTimeout now (WithoutCancel ctx) cloneTimeout) r acts = (q, acts1)"
  shows "adds no_request acts1 (snd (snd (Resolve w now ctx r acts)))"
proof (cases q)
  case (Inl e)
  then show ?thesis using assms by (simp add: Resolve_def)
next
  case (Inr p)
  let ?dest = "Join2 (rv_cacheDir r) ''task-skills''"
  let ?clone = "gitClone w (WithTimeout now (WithoutCancel ctx) cloneTimeout) (GitRemoteURL p) (Ref p) ?dest (Token p) (acts1 @ [RemoveAll ?dest])"
  have one: "adds no_request acts1 (acts1 @ [RemoveAll ?dest])" by simp
  then have "adds no_request acts1 (snd ?clone)" by (rule adds_trans [OF _ gitClone_no_request])
  moreover obtain e acts3 where "?clone = (e, acts3)" by (cases ?clone)
  ultimately show ?thesis
    using assms Inr one by (cases e) (auto simp: Resolve_def Let_def split: option.split)
qed

text \<open>C37: A call of \<open>Resolve\<close> with nothing cached sends exactly one request, for the endpoint of ContextMatrix, and its signature is over the URI that the HTTP client
puts on the request line for that very URL. Where the URL does not parse, the call fails without any action and nothing is signed.\<close>

theorem signed_uri_is_sent:
  assumes "rv_resolved r = []"
  shows "case sent_uri (rv_cmURL r @ rv_endpointPath r) of
      None \<Rightarrow> Resolve w now ctx r acts = (Inl (ParseURL (rv_cmURL r @ rv_endpointPath r)), r, acts)
    | Some _ \<Rightarrow> (\<exists>req later. snd (snd (Resolve w now ctx r acts)) = acts @ Fetch req # later \<and> requests later = [] \<and>
        gr_url req = rv_cmURL r @ rv_endpointPath r \<and>
        (\<exists>uri. sent_uri (gr_url req) = Some uri \<and> w_sign w (rv_apiKey r) ''GET'' uri = (gr_sig req, gr_ts req)))"
proof -
  let ?ctx = "WithTimeout now (WithoutCancel ctx) cloneTimeout" and ?url = "rv_cmURL r @ rv_endpointPath r"
  show ?thesis
  proof (cases "sent_uri ?url")
    case None
    then show ?thesis using assms requestURI_sent [of ?url] by (simp add: Resolve_def fetchPointer_def)
  next
    case (Some uri)
    obtain sig ts where s: "w_sign w (rv_apiKey r) ''GET'' uri = (sig, ts)" by (cases "w_sign w (rv_apiKey r) ''GET'' uri")
    let ?req = "\<lparr>gr_url = ?url, gr_sig = sig, gr_ts = ts, gr_deadline = ctx_deadline ?ctx, gr_timeout = requestTimeout\<rparr>"
    have "url_Parse ?url \<noteq> None" using Some by (auto simp: sent_uri_def)
    then have "snd (fetchPointer w ?ctx r acts) = acts @ [Fetch ?req]"
      using Some s requestURI_sent [of ?url] by (auto simp: fetchPointer_def Let_def split: sum.split option.split)
    then obtain q where "fetchPointer w ?ctx r acts = (q, acts @ [Fetch ?req])" by (cases "fetchPointer w ?ctx r acts") auto
    from Resolve_after_fetch [OF assms this] obtain later
      where l: "snd (snd (Resolve w now ctx r acts)) = acts @ Fetch ?req # later" "list_all no_request later" by (auto simp: adds_def)
    show ?thesis using Some s l requests_none [OF l(2)] by (auto intro!: exI [of _ ?req] exI [of _ later])
  qed
qed

subsection \<open>One clone per process\<close>

text \<open>A call that keeps its first success: from then on it answers the same without doing anything.\<close>

fun run_calls :: "('q \<Rightarrow> 's \<Rightarrow> 'x \<times> 's) \<Rightarrow> 'q list \<Rightarrow> 's \<Rightarrow> ('x \<times> 's) list" where
  "run_calls call [] s = []"
| "run_calls call (q # qs) s = call q s # run_calls call qs (snd (call q s))"

lemma run_calls_nth: "i < length qs \<Longrightarrow> \<exists>q s'. run_calls call qs s ! i = call q s'"
proof (induction qs arbitrary: i s)
  case (Cons q qs)
  then show ?case by (cases i) (simp, blast, simp)
qed simp

locale memo =
  fixes call :: "'q \<Rightarrow> 's \<Rightarrow> ('e + 'd) \<times> 's"
  assumes sticks: "call q s = (Inr d, s') \<Longrightarrow> call q' s' = (Inr d, s')"
begin

lemma run_settled: "(\<And>q. call q s = (Inr d, s)) \<Longrightarrow> i < length qs \<Longrightarrow> run_calls call qs s ! i = (Inr d, s)"
proof (induction qs arbitrary: i)
  case (Cons q qs)
  then show ?case by (cases i) auto
qed simp

lemma run_keeps:
  "i \<le> j \<Longrightarrow> j < length qs \<Longrightarrow> run_calls call qs s ! i = (Inr d, s') \<Longrightarrow> run_calls call qs s ! j = (Inr d, s')"
proof (induction qs arbitrary: i j s)
  case (Cons q qs)
  show ?case
  proof (cases i)
    case 0
    then have first: "call q s = (Inr d, s')" using Cons.prems(3) by simp
    then show ?thesis using run_settled [OF sticks [OF first]] Cons.prems(2) by (cases j) auto
  next
    case (Suc i')
    then show ?thesis using Cons.IH [of i' "j - 1" "snd (call q s)"] Cons.prems by (cases j) auto
  qed
qed simp

end

definition resolve_call :: "world \<Rightarrow> instant \<times> go_context \<Rightarrow> Resolver \<times> action list \<Rightarrow> (resolve_err + string) \<times> Resolver \<times> action list" where
  "resolve_call w q s = Resolve w (fst q) (snd q) (fst s) (snd s)"

lemma Resolve_success:
  assumes "Resolve w now ctx r acts = (Inr d, r', acts')"
  shows "rv_resolved r' = d \<and> d \<noteq> []"
  using assms Clean_nonempty
  by (auto simp: Resolve_def Let_def Join2_def split: if_splits sum.splits prod.splits option.splits)

lemma Resolve_failure: "Resolve w now ctx r acts = (Inl e, r', acts') \<Longrightarrow> r' = r \<and> rv_resolved r = []"
  by (auto simp: Resolve_def Let_def split: if_splits sum.splits prod.splits option.splits)

interpretation resolver_memo: memo "resolve_call w" for w
proof
  fix q s d s' q'
  assume "resolve_call w q s = (Inr d, s')"
  then have "rv_resolved (fst s') = d \<and> d \<noteq> []" by (cases s') (auto simp: resolve_call_def dest: Resolve_success)
  then show "resolve_call w q' s' = (Inr d, s')" by (simp add: resolve_call_def Resolve_def)
qed

lemma run_failures:
  "i < length qs \<Longrightarrow> run_calls (resolve_call w) qs (r, acts) ! i = (Inl e, r', acts') \<Longrightarrow> rv_resolved r = [] \<Longrightarrow> r' = r"
proof (induction qs arbitrary: i acts)
  case (Cons q qs)
  obtain x r1 acts1 where c: "resolve_call w q (r, acts) = (x, r1, acts1)" by (metis prod_cases3)
  show ?case
  proof (cases i)
    case 0
    then show ?thesis using Cons.prems(2) by (auto simp: resolve_call_def dest: Resolve_failure)
  next
    case (Suc i')
    show ?thesis
    proof (cases x)
      case (Inl e1)
      then have "r1 = r" using c by (auto simp: resolve_call_def dest: Resolve_failure)
      then show ?thesis using Cons.IH [of i' acts1] Cons.prems c Suc by simp
    next
      case (Inr d)
      have "run_calls (resolve_call w) qs (r1, acts1) ! i' = (Inr d, r1, acts1)"
        using resolver_memo.run_settled [OF resolver_memo.sticks] c Inr Suc Cons.prems(1) by fastforce
      then show ?thesis using Cons.prems(2) c Suc by simp
    qed
  qed
qed simp

text \<open>C16: Over any sequence of calls, at whatever times and with whatever contexts: from the first success on every call returns the same directory and
performs no action at all, so there is one successful clone per process; and a failed call leaves the resolver as it was created, so that the next call tries again.\<close>

theorem Resolve_clones_once:
  assumes "i \<le> j" "j < length qs"
  shows "case run_calls (resolve_call w) qs (NewResolver cmURL apiKey cacheDir endpointPath, acts) ! i of
      (Inr d, s) \<Rightarrow>
        d \<noteq> [] \<and> run_calls (resolve_call w) qs (NewResolver cmURL apiKey cacheDir endpointPath, acts) ! j = (Inr d, s)
    | (Inl e, r, acts') \<Rightarrow> r = NewResolver cmURL apiKey cacheDir endpointPath"
proof -
  let ?r0 = "NewResolver cmURL apiKey cacheDir endpointPath"
  obtain x r acts' where x: "run_calls (resolve_call w) qs (?r0, acts) ! i = (x, r, acts')" by (metis prod_cases3)
  show ?thesis
  proof (cases x)
    case (Inl e)
    then show ?thesis
      using run_failures [of i qs w ?r0 acts e r acts'] x assms by (simp add: NewResolver_def)
  next
    case (Inr d)
    obtain q s where "resolve_call w q s = (Inr d, r, acts')" using run_calls_nth [of i qs "resolve_call w" "(?r0, acts)"] x Inr assms by auto
    then have "d \<noteq> []" using Resolve_success by (auto simp: resolve_call_def)
    then show ?thesis using resolver_memo.run_keeps [OF assms x [unfolded Inr]] x Inr by simp
  qed
qed

subsection \<open>Instances\<close>

text \<open>A world in which the first request fails and everything after it works.\<close>

definition sample_world :: world where
  "sample_world =
     \<lparr>w_fetch = \<lambda>acts req. if acts = [] then Inl ''down'' else Inr \<lparr>gp_status = 200, gp_body = ''pointer''\<rparr>,
      w_remove = \<lambda>acts d. None, w_mkdir = \<lambda>acts d. None, w_git = \<lambda>acts args. ([], None), w_environ = [''HOME=/root''],
      w_sign = \<lambda>key method uri. (method @ uri, ''1''),
      w_decode = \<lambda>body. Some \<lparr>GitRemoteURL = ''https://git/skills'', Ref = [], Token = ''tok''\<rparr>\<rparr>"

definition sample_calls :: "(instant \<times> go_context) list" where
  "sample_calls = map (\<lambda>t. (t, \<lparr>ctx_deadline = None, ctx_cancelled = True\<rparr>)) [1, 2, 3]"

abbreviation sample_run :: "((resolve_err + string) \<times> Resolver \<times> action list) list" where
  "sample_run \<equiv> run_calls (resolve_call sample_world) sample_calls (NewResolver ''http://cm/'' ''k'' ''/c'' ''/api/source'', [])"

theorem Resolve_clones_once_witness:
  "fst (sample_run ! 0) = Inl (FetchFailed ''down'') \<and> fst (sample_run ! 1) = Inr ''/c/task-skills'' \<and>
    length (snd (snd (sample_run ! 1))) = 8 \<and> sample_run ! 2 = sample_run ! 1"
proof -
  have 0: "fst (sample_run ! 0) = Inl (FetchFailed ''down'')" by code_simp
  have 1: "fst (sample_run ! 1) = Inr ''/c/task-skills''" "length (snd (snd (sample_run ! 1))) = 8" by code_simp+
  have "length sample_calls = 3" by (simp add: sample_calls_def)
  then have "sample_run ! 2 = sample_run ! 1"
    using Resolve_clones_once [where i = 1 and j = 2 and qs = sample_calls and w = sample_world and cmURL = "''http://cm/''"
        and apiKey = "''k''" and cacheDir = "''/c''" and endpointPath = "''/api/source''" and acts = "[]"] 1(1)
    by (cases "sample_run ! 1") simp
  then show ?thesis using 0 1 by blast
qed

text \<open>An endpoint whose URL has a query and no path.\<close>

theorem signed_uri_is_sent_witness:
  "sent_uri ''http://cm?v=1'' = Some ''/?v=1'' \<and>
    (\<exists>req later. snd (snd (Resolve sample_world 1 \<lparr>ctx_deadline = None, ctx_cancelled = False\<rparr> (NewResolver ''http://cm/'' ''k'' ''/c'' ''?v=1'') [])) =
        Fetch req # later \<and> requests later = [] \<and> gr_url req = ''http://cm?v=1'' \<and> gr_sig req = ''GET/?v=1'')"
proof -
  let ?r = "NewResolver ''http://cm/'' ''k'' ''/c'' ''?v=1''"
  have sent: "sent_uri ''http://cm?v=1'' = Some ''/?v=1''" by code_simp
  have r: "rv_resolved ?r = []" "rv_cmURL ?r @ rv_endpointPath ?r = ''http://cm?v=1''"
    by (simp_all add: NewResolver_def TrimRight_def)
  then show ?thesis
    using sent signed_uri_is_sent [OF r(1), of sample_world 1 "\<lparr>ctx_deadline = None, ctx_cancelled = False\<rparr>" "[]", unfolded r(2)]
    by (auto simp: sample_world_def)
qed

end
