(* ===== verification/Spec2Isabelle.thy ===== *)
theory Spec2Isabelle
  imports Log_Pipeline Dedup_Cache Worker_Route Frames Bridge_Valid Taskskills
begin

text \<open>
  \<^bold>\<open>contextmatrix-backendkit.\<close> The repository is the library two ContextMatrix execution backends share. A
  backend runs worker containers and is driven by ContextMatrix over signed HTTP. The kit provides: a transport core
  (\<open>src/webhookcore\<close>: signature check with replay protection, message deduplication, drain gate, request
  metrics, health, readiness and image probes, the log stream), a log hub fed by a redacting bridge (\<open>src/logbridge\<close>), a proxy that keeps the real LLM key
  out of the containers (\<open>src/llmproxy\<close>), metrics (\<open>src/metrics\<close>), the stdin control frames (\<open>src/frames\<close>) and a resolver
  for task skills (\<open>src/taskskills\<close>).

  \<^bold>\<open>How the parts interact.\<close> \<open>NewCore\<close> builds a core around a replay cache whose TTL it raises to the two clock skews. A route is
  a handler behind \<open>RecordMetrics\<close>, \<open>Auth\<close> and \<open>DrainGate\<close>; \<open>Auth\<close> hands the request to the signature check of the wire
  contract package, which calls back into \<open>CheckAndInsert\<close>; the two read the clock one after the other. The log bridge turns the lines of workers into entries, redacts them and publishes them on the hub, \<open>HandleLogs\<close> subscribes
  to it and writes the entries as events until the client leaves or \<open>CloseSSE\<close> is called. A backend registers
  the LLM key of a run with the proxy, gives the worker the token and the URL of \<open>WorkerBaseURL\<close>, and revokes
  it when the container exits. It writes control frames to the stdin of a worker, which reads them line by line.

  \<^bold>\<open>Theories.\<close>
  \<^item> \<open>Kit_Prelude\<close>: Go strings as byte lists with the functions of \<open>strings\<close>, instants and durations as integers of nanoseconds with
    the saturation and wrap-around of \<open>time\<close>, lemma collections, shared list lemmas.
  \<^item> \<open>Element_List\<close>: \<open>container/list\<close> with element identities, and the pair of list and index both caches keep.
  \<^item> \<open>Ttl_Cache\<close>: what both caches promise, as a specification on a log of keys, and the locale \<open>ttl_cache\<close> with the window and
    capacity guarantees proved once from its laws.
  \<^item> \<open>Replay_Cache\<close> (\<open>replay.go\<close>), \<open>Dedup_Cache\<close> (\<open>dedup.go\<close>): the caches operation by operation; each is an interpretation of
    \<open>ttl_cache\<close>, from which its refinement, window, bound and rollback theorems follow.
  \<^item> \<open>Hub\<close> (\<open>hub.go\<close>): the hub with channels that have a capacity and can be closed; a send that would block for ever or panic is the value
    \<open>None\<close>. Executions are the inductive \<open>hub_step\<close> and \<open>hub_trace\<close>; the locale \<open>feed\<close> states conservation of entries along a
    chain of steps.
  \<^item> \<open>Http\<close> (\<open>helpers.go\<close>): requests, handlers as functions to the calls they make on their writer, what the server makes of
    the calls, the wire contract as the parameter record \<open>protocol\<close>, and the JSON helpers.
  \<^item> \<open>Request_Metrics\<close> (\<open>metrics.go\<close>, \<open>recorder.go\<close>): collectors and their registration, status recorder, \<open>RecordMetrics\<close> with the durations it observes, and the series a run of
    requests makes.
  \<^item> \<open>Webhook_Core\<close> (\<open>core.go\<close>, \<open>middleware.go\<close>, \<open>health.go\<close>, \<open>revision.go\<close>, \<open>images.go\<close>): configuration and state of a core, its middlewares against the
    locale \<open>middleware\<close>, its probes, and executions of requests and janitor sweeps.
  \<^item> \<open>Url_Query\<close>: \<open>URL.Query().Get\<close>. \<open>Log_Stream\<close> (\<open>logs.go\<close>): \<open>HandleLogs\<close> composed with the hub.
  \<^item> \<open>Net_Url\<close>: \<open>url.Parse\<close>, \<open>Hostname\<close>, \<open>net.ParseIP\<close>. \<open>Url_Request\<close>: \<open>URL.RequestURI\<close>. \<open>Go_Path\<close>: \<open>filepath.Clean\<close>. \<open>Llm_Proxy\<close> (\<open>registry.go\<close>, \<open>proxy.go\<close>, \<open>workerurl.go\<close>): the proxy on
    top of them, with the locale \<open>token_registry\<close> for the life of tokens, and what a worker can learn of a key. \<open>Worker_Route\<close>: the wiring \<open>llmproxy/doc.go\<close> prescribes, from
    the URL a worker gets to the upstream, behind \<open>RecordMetrics\<close>.
  \<^item> \<open>Redactor_Registry\<close> (\<open>logbridge/registry.go\<close>): the redactor as a function of the live sessions.
  \<^item> \<open>Utf8\<close>, \<open>Json_String\<close>, \<open>Json\<close>: UTF-8 and \<open>encoding/json\<close>: string literals both ways, a lexer, a stack machine with the nesting limit, the choice of struct
    fields, the encoder, and that reading an encoded document gives it back. \<open>Go_Float\<close>: finite \<open>float64\<close> values with correctly rounded reading, conversion to \<open>int64\<close>
    and shortest printing. \<open>Go_Any\<close>: values of type \<open>any\<close>, maps included.
  \<^item> \<open>Line_Scanner\<close>: \<open>bufio.Scanner\<close> with its buffer over a reader that delivers bytes along a schedule, refined to the next line of the stream.
  \<^item> \<open>Frames\<close> (\<open>frames.go\<close>): \<open>Write\<close>, \<open>NewReader\<close>, \<open>Next\<close>, with the locale \<open>line_codec\<close> for documents sent as lines.
  \<^item> \<open>Bridge\<close> (\<open>bridge.go\<close>): keys, fields, truncation, the event mapping, \<open>BridgeLine\<close>. \<open>Bridge_Events\<close>: what single lines become. \<open>Bridge_Valid\<close>: that entries are well typed, from
    \<open>Json_Valid\<close>, which shows every decoded string and every encoded document well-formed. \<open>Bridge_System\<close>: bridge, registry and hub
    together as the step relation \<open>sys_step\<close>, with the locale \<open>conveyor\<close> for what the bridge needs of the hub. \<open>Log_Pipeline\<close>: that system with a connection of \<open>HandleLogs\<close>,
    as the step relation \<open>pipe_step\<close>, whose runs project to runs of both parts.
  \<^item> \<open>Taskskills\<close> (\<open>resolver.go\<close>, \<open>auth.go\<close>): the resolver over a record of answers of the outside world, its actions kept in a list, with the locale \<open>memo\<close>
    for a call that keeps its first success.

  \<^bold>\<open>What is shown.\<close> End to end: a request whose pair was accepted is refused by \<open>Auth\<close> afterwards (\<open>auth_once\<close>), what a worker prints reaches a log client redacted, in order and once (\<open>lines_to_wire\<close>), a log stream accounts for every entry and
  loses at most the one whose write failed and those that cannot be encoded (\<open>logs_lossless\<close>), what a log subscriber receives is the entry of a line, redacted for exactly the secrets live when the line was bridged (\<open>subscribers_see_redacted\<close>), a token of the LLM
  proxy leads to its registered site with the real key and nowhere else, until it is revoked (\<open>proxy_forwards\<close>, \<open>token_lifecycle\<close>), the documented wiring lets every allowed call of a worker through (\<open>worker_calls_upstream\<close>) and tells
  it nothing about the key but what the upstream grants for it (\<open>key_hidden\<close>), a worker reads exactly the frames its
  host wrote (\<open>frames_roundtrip\<close>), task skills are cloned once, with git arguments that cannot be flags, from a pointer fetched with a signature over the URI that is sent
  (\<open>Resolve_clones_once\<close>, \<open>Resolve_actions_proper\<close>, \<open>signed_uri_is_sent\<close>). Per component: refinement of the
  caches and of the frame reader, absence of panics and deadlocks of the hub and its bounds, every branch of the middlewares and probes, the cases in which the recorded status is
  the client's, the bound on metric series, the composition of worker URLs, truncation that keeps runes whole, entries that are well typed whatever a worker prints, token counts that pass through floating point exactly, the awaiting hook for every kind of line, log streams that can leave on shutdown. The theorems named as errors show
  where the code departs from what it means to do: the sweep boundary, the recorded informational status, base URLs with a query, loopback with a zone, truncation
  before redaction.

  \<^bold>\<open>Concurrency, bounds, fuel.\<close> A mutex makes every operation of a cache, the hub, a registry or the resolver atomic, so concurrent
  executions are sequences of operations; a handler's rounds and the operations of other goroutines interleave freely. No definition uses
  fuel: loops are structural or have a measure. Ids of the hub are 64-bit words; the theorems assume fewer operations than ids.
  The window theorems assume fewer checks inside the window than the capacity of the cache, since the code evicts the
  oldest entry beyond it. The theorem on replays excludes a sweep at the very instant of a check (see \<open>sweep_boundary\<close>) and takes the two clock readings of a
  request apart. A reader of frames is a finite stream whose reads return; it is assumed to return data within a hundred reads, beyond which the scanner gives up. The
  context of a log request, the shutdown channel and whether the connection is broken are an environment that only gets worse, and a case of the \<open>select\<close>
  is ready only when the environment or the hub makes it so.

  \<^bold>\<open>Parameters.\<close> The wire contract package (signature check, signer, header names, encoders, the decoder of the task-skills pointer), the redactor of the harness package,
  Docker lookups, the upstream round trip, random bytes, certificates, git and the file system, and what a Prometheus registry accepts are parameters; \<open>verify_contract\<close> states what the replay theorem needs of
  the signature check, \<open>registry_contract\<close> which collectors a registry accepts; a vector of the Prometheus client panics on a wrong number of label values. The round trip of the reverse proxy ends
  in no response, a response relayed to its end, or one that breaks off, on which the reverse proxy panics with \<open>http.ErrAbortHandler\<close>. What \<open>int64(f)\<close> gives outside the range of \<open>int64\<close> is left to the implementation by the language and a parameter too.

  \<^bold>\<open>Not modelled.\<close> Logging, Prometheus internals (increments and observations are kept as lists), HTTP transport settings and TLS, readers that block for ever, the clock options for tests (every operation takes its
  instant instead).
\<close>

end
